(* ===== verification/Prelude.thy ===== *)
theory Prelude
  imports Main "HOL-Library.Word" "HOL-Library.Monad_Syntax"
begin

text \<open>
  Shared vocabulary of the development: the machine types of the C sources, pointers and
  the store they point into, and the generic lemmas on lists and words the components use.

  A pointer is a 64-bit word, \<open>NULL\<close> is 0. A store maps addresses to the structure that
  lives there; an address outside its domain is not allocated. Reading or writing through
  \<open>NULL\<close> or through an address that is not allocated is undefined behaviour in C: here the
  access returns \<open>None\<close>, so a theorem that an operation returns \<open>Some\<close> also says that it
  touches allocated memory only.
\<close>

unbundle bit_operations_syntax

section \<open>Machine types\<close>

type_synonym u8 = "8 word"
type_synonym u16 = "16 word"
type_synonym u32 = "32 word"
type_synonym u64 = "64 word"
type_synonym ptr = "64 word"

abbreviation NULL :: ptr where "NULL \<equiv> 0"

section \<open>The store\<close>

type_synonym 'n mem = "ptr \<rightharpoonup> 'n"

definition load :: "'n mem \<Rightarrow> ptr \<Rightarrow> 'n option" where
  "load m p = (if p = NULL then None else m p)"

definition modify :: "'n mem \<Rightarrow> ptr \<Rightarrow> ('n \<Rightarrow> 'n) \<Rightarrow> 'n mem option" where
  "modify m p f = (case load m p of None \<Rightarrow> None | Some n \<Rightarrow> Some (m(p \<mapsto> f n)))"

text \<open>Releasing a block: freeing \<open>NULL\<close> is allowed by C, freeing anything else that is not
  allocated is undefined.\<close>

definition release :: "'n mem \<Rightarrow> ptr \<Rightarrow> 'n mem option" where
  "release m p = (if p = NULL then Some m else if m p = None then None else Some (m(p := None)))"

section \<open>Blocks of memory\<close>

text \<open>Writing a block of bytes or elements at an offset; \<open>None\<close> is a write past the end.\<close>

definition memcpy_at :: "'a list \<Rightarrow> nat \<Rightarrow> 'a list \<Rightarrow> 'a list option" where
  "memcpy_at dst off src = (if off + length src \<le> length dst
     then Some (take off dst @ src @ drop (off + length src) dst) else None)"

definition memset_at :: "'a list \<Rightarrow> nat \<Rightarrow> 'a \<Rightarrow> nat \<Rightarrow> 'a list option" where
  "memset_at dst off v n = memcpy_at dst off (replicate n v)"

named_theorems store_simps \<open>evaluation of loads and stores through allocated pointers\<close>

lemma load_Some [store_simps]: "p \<noteq> NULL \<Longrightarrow> m p = Some n \<Longrightarrow> load m p = Some n"
  by (simp add: load_def)

lemma modify_Some [store_simps]:
  "p \<noteq> NULL \<Longrightarrow> m p = Some n \<Longrightarrow> modify m p f = Some (m(p \<mapsto> f n))"
  by (simp add: modify_def load_def)

lemma load_NULL [simp]: "load m NULL = None"
  by (simp add: load_def)

lemma modify_NULL [simp]: "modify m NULL f = None"
  by (simp add: modify_def)

lemma release_Some [store_simps]:
  "p \<noteq> NULL \<Longrightarrow> m p = Some n \<Longrightarrow> release m p = Some (m(p := None))"
  by (simp add: release_def)

section \<open>Lists\<close>

lemma last_snoc_decomp: "xs \<noteq> [] \<Longrightarrow> \<exists>ys. xs = ys @ [last xs]"
  by (metis append_butlast_last_id)

text \<open>A list of distinct non-null addresses is shorter than the address space.\<close>

lemma distinct_ptrs_length:
  fixes xs :: "ptr list"
  assumes "distinct xs" and "NULL \<notin> set xs"
  shows "length xs < 2 ^ 64"
proof -
  have "card (set xs) \<le> card (UNIV - {NULL})"
    using assms(2) by (intro card_mono) auto
  also have "\<dots> = 2 ^ 64 - 1"
    by (simp add: card_Diff_singleton card_word)
  finally show ?thesis
    using assms(1) by (simp add: distinct_card)
qed

lemma memcpy_at_Some: "off + length src \<le> length dst \<Longrightarrow>
    memcpy_at dst off src = Some (take off dst @ src @ drop (off + length src) dst)"
  by (simp add: memcpy_at_def)

lemma memcpy_at_append:
  "off = length a \<Longrightarrow> length b = length c \<Longrightarrow> memcpy_at (a @ b) off c = Some (a @ c)"
  by (simp add: memcpy_at_def)

section \<open>Words\<close>

lemma of_nat_u64_eq_0: "n < 2 ^ 64 \<Longrightarrow> (of_nat n = (0 :: u64)) = (n = 0)"
  by (auto simp: word_of_nat_eq_0_iff dest: dvd_imp_le)

end
