(* ===== verification/Contracts.thy ===== *)
theory Contracts
  imports Prelude "HOL-Library.Multiset"
begin

text \<open>
  The interfaces between the containers and their clients, each a locale over the concrete
  operations and a representation relation \<open>rep\<close> that connects a concrete state with its
  abstract value. The client's lemma (a whole run of operations behaves like a run of the
  abstract machine) is proved once here; the container theories interpret the locales on
  the models of the C functions.

  A concrete operation has an \<open>option\<close> result: \<open>None\<close> is undefined behaviour of the C code
  (an access through a null or dangling pointer), so every \<open>Some\<close> promised by a contract is
  a memory safety statement as well.
\<close>

section \<open>Sequence containers\<close>

text \<open>A container that holds a list of elements: \<open>Put\<close> adds one, \<open>Take\<close> removes the first.\<close>

datatype 'a seq_op = Put 'a | Take

datatype 'a seq_res = Accepted bool | Taken "'a option"

fun seq_exec ::
  "('s \<Rightarrow> 'a \<Rightarrow> (bool \<times> 's) option) \<Rightarrow> ('s \<Rightarrow> ('a option \<times> 's) option) \<Rightarrow>
   's \<Rightarrow> 'a seq_op list \<Rightarrow> ('a seq_res list \<times> 's) option" where
  "seq_exec put get s [] = Some ([], s)"
| "seq_exec put get s (Put x # ops) =
     do { (b, s) \<leftarrow> put s x; (rs, s) \<leftarrow> seq_exec put get s ops; Some (Accepted b # rs, s) }"
| "seq_exec put get s (Take # ops) =
     do { (r, s) \<leftarrow> get s; (rs, s) \<leftarrow> seq_exec put get s ops; Some (Taken r # rs, s) }"

text \<open>The abstract machine on lists: \<open>ins xs x\<close> is where \<open>x\<close> goes and \<open>room xs x\<close> whether it
  is accepted.\<close>

fun seq_abs ::
  "('a list \<Rightarrow> 'a \<Rightarrow> 'a list) \<Rightarrow> ('a list \<Rightarrow> 'a \<Rightarrow> bool) \<Rightarrow> 'a list \<Rightarrow> 'a seq_op list \<Rightarrow>
   'a seq_res list \<times> 'a list" where
  "seq_abs ins room xs [] = ([], xs)"
| "seq_abs ins room xs (Put x # ops) =
     (let (rs, ys) = seq_abs ins room (if room xs x then ins xs x else xs) ops
      in (Accepted (room xs x) # rs, ys))"
| "seq_abs ins room xs (Take # ops) =
     (let (rs, ys) = seq_abs ins room (tl xs) ops
      in (Taken (if xs = [] then None else Some (hd xs)) # rs, ys))"

text \<open>A run that puts only what there is room for.\<close>

fun seq_legal ::
  "('a list \<Rightarrow> 'a \<Rightarrow> 'a list) \<Rightarrow> ('a list \<Rightarrow> 'a \<Rightarrow> bool) \<Rightarrow> 'a list \<Rightarrow> 'a seq_op list \<Rightarrow> bool" where
  "seq_legal ins room xs [] = True"
| "seq_legal ins room xs (Put x # ops) = (room xs x \<and> seq_legal ins room (ins xs x) ops)"
| "seq_legal ins room xs (Take # ops) = seq_legal ins room (tl xs) ops"

definition snoc :: "'a list \<Rightarrow> 'a \<Rightarrow> 'a list" where "snoc xs x = xs @ [x]"

definition push :: "'a list \<Rightarrow> 'a \<Rightarrow> 'a list" where "push xs x = x # xs"

text \<open>Clients of a priority queue: put a list of elements, take up to \<open>n\<close> of them.\<close>

fun pq_fill :: "('s \<Rightarrow> 'a \<Rightarrow> 's option) \<Rightarrow> 's \<Rightarrow> 'a list \<Rightarrow> 's option" where
  "pq_fill put s [] = Some s"
| "pq_fill put s (x # xs) = do { s \<leftarrow> put s x; pq_fill put s xs }"

fun pq_drain :: "('s \<Rightarrow> ('a option \<times> 's) option) \<Rightarrow> nat \<Rightarrow> 's \<Rightarrow> ('a list \<times> 's) option" where
  "pq_drain get 0 s = Some ([], s)"
| "pq_drain get (Suc n) s =
     do { (r, s) \<leftarrow> get s;
          case r of None \<Rightarrow> Some ([], s)
          | Some x \<Rightarrow> do { (xs, s) \<leftarrow> pq_drain get n s; Some (x # xs, s) } }"

locale sequence =
  fixes rep :: "'s \<Rightarrow> 'a list \<Rightarrow> bool"
    and ins :: "'a list \<Rightarrow> 'a \<Rightarrow> 'a list"
    and room :: "'a list \<Rightarrow> 'a \<Rightarrow> bool"
    and put :: "'s \<Rightarrow> 'a \<Rightarrow> (bool \<times> 's) option"
    and take_first :: "'s \<Rightarrow> ('a option \<times> 's) option"
  assumes put_room: "rep s xs \<Longrightarrow> room xs x \<Longrightarrow> \<exists>s'. put s x = Some (True, s') \<and> rep s' (ins xs x)"
    and take_Nil: "rep s [] \<Longrightarrow> take_first s = Some (None, s)"
    and take_Cons: "rep s (x # xs) \<Longrightarrow> \<exists>s'. take_first s = Some (Some x, s') \<and> rep s' xs"
begin

lemma take_step:
  "rep s xs \<Longrightarrow>
   \<exists>s'. take_first s = Some (if xs = [] then None else Some (hd xs), s') \<and> rep s' (tl xs)"
  using take_Nil [of s] take_Cons [of s "hd xs" "tl xs"] by (cases xs) auto

lemma exec_legal:
  assumes "rep s xs" and "seq_legal ins room xs ops"
  shows "\<exists>s'. seq_exec put take_first s ops = Some (fst (seq_abs ins room xs ops), s')
           \<and> rep s' (snd (seq_abs ins room xs ops))"
  using assms
proof (induction ops arbitrary: s xs)
  case Nil
  then show ?case by simp
next
  case (Cons op ops)
  show ?case
  proof (cases op)
    case (Put x)
    with Cons.prems obtain s1 where "put s x = Some (True, s1)" and "rep s1 (ins xs x)"
      using put_room [of s xs x] by auto
    with Cons.prems Put Cons.IH [of s1 "ins xs x"] show ?thesis
      by (auto simp: case_prod_beta Let_def)
  next
    case Take
    with Cons.prems obtain s1 where
      "take_first s = Some (if xs = [] then None else Some (hd xs), s1)" and "rep s1 (tl xs)"
      using take_step [of s xs] by auto
    with Cons.prems Take Cons.IH [of s1 "tl xs"] show ?thesis
      by (auto simp: case_prod_beta Let_def)
  qed
qed

end

text \<open>A container of bounded room that refuses an element it cannot take, unchanged.\<close>

locale bounded_sequence = sequence +
  assumes put_full: "rep s xs \<Longrightarrow> \<not> room xs x \<Longrightarrow> put s x = Some (False, s)"
begin

lemma exec_any:
  assumes "rep s xs"
  shows "\<exists>s'. seq_exec put take_first s ops = Some (fst (seq_abs ins room xs ops), s')
           \<and> rep s' (snd (seq_abs ins room xs ops))"
  using assms
proof (induction ops arbitrary: s xs)
  case Nil
  then show ?case by simp
next
  case (Cons op ops)
  show ?case
  proof (cases op)
    case (Put x)
    obtain s1 where "put s x = Some (room xs x, s1)"
      and "rep s1 (if room xs x then ins xs x else xs)"
      using put_room [of s xs x] put_full [of s xs x] Cons.prems by (cases "room xs x") auto
    with Put Cons.IH [of s1 "if room xs x then ins xs x else xs"] show ?thesis
      by (auto simp: case_prod_beta Let_def)
  next
    case Take
    with Cons.prems obtain s1 where
      "take_first s = Some (if xs = [] then None else Some (hd xs), s1)" and "rep s1 (tl xs)"
      using take_step [of s xs] by auto
    with Take Cons.IH [of s1 "tl xs"] show ?thesis
      by (auto simp: case_prod_beta Let_def)
  qed
qed

end

section \<open>Priority queues\<close>

text \<open>A container that holds a multiset of elements and gives out one of the least key.\<close>

locale priority_queue =
  fixes rep :: "'s \<Rightarrow> 'a multiset \<Rightarrow> bool"
    and key :: "'a \<Rightarrow> 'k::linorder"
    and room :: "'a multiset \<Rightarrow> 'a \<Rightarrow> bool"
    and put :: "'s \<Rightarrow> 'a \<Rightarrow> 's option"
    and take_min :: "'s \<Rightarrow> ('a option \<times> 's) option"
  assumes put_ok: "rep s M \<Longrightarrow> room M x \<Longrightarrow> \<exists>s'. put s x = Some s' \<and> rep s' (add_mset x M)"
    and take_empty: "rep s {#} \<Longrightarrow> take_min s = Some (None, s)"
    and take_least: "rep s M \<Longrightarrow> M \<noteq> {#} \<Longrightarrow> \<exists>x s'. take_min s = Some (Some x, s') \<and> x \<in># M \<and>
      (\<forall>y \<in># M. key x \<le> key y) \<and> rep s' (M - {#x#})"
begin

lemma fill_ok:
  assumes "rep s M" and "\<And>us x vs. xs = us @ x # vs \<Longrightarrow> room (M + mset us) x"
  shows "\<exists>s'. pq_fill put s xs = Some s' \<and> rep s' (M + mset xs)"
  using assms
proof (induction xs arbitrary: s M)
  case (Cons x xs)
  obtain s1 where s1: "put s x = Some s1" "rep s1 (add_mset x M)"
    using put_ok [OF Cons.prems(1)] Cons.prems(2) [of "[]" x xs] by auto
  have "room (add_mset x M + mset us) y" if "xs = us @ y # vs" for us y vs
    using Cons.prems(2) [of "x # us" y vs] that by simp
  then show ?case using Cons.IH [OF s1(2)] s1(1) by auto
qed simp

lemma drain_ok:
  assumes "rep s M" and "size M \<le> n"
  shows "\<exists>xs s'. pq_drain take_min n s = Some (xs, s') \<and> mset xs = M \<and> sorted (map key xs) \<and> rep s' {#}"
  using assms
proof (induction n arbitrary: s M)
  case (Suc n)
  show ?case
  proof (cases "M = {#}")
    case True
    then show ?thesis using Suc.prems take_empty [of s] by auto
  next
    case False
    then obtain x s1 where x: "take_min s = Some (Some x, s1)" "x \<in># M" "\<forall>y \<in># M. key x \<le> key y"
      "rep s1 (M - {#x#})" using take_least [OF Suc.prems(1)] by blast
    have "size (M - {#x#}) \<le> n" using x(2) Suc.prems(2) by (simp add: size_Diff_singleton)
    then obtain xs s' where xs: "pq_drain take_min n s1 = Some (xs, s')" "mset xs = M - {#x#}"
      "sorted (map key xs)" "rep s' {#}" using Suc.IH [OF x(4)] by blast
    have "\<forall>y \<in> set xs. key x \<le> key y"
      using x(3) xs(2) by (metis in_diffD set_mset_mset)
    then show ?thesis using x(1,2) xs by (intro exI [of _ "x # xs"] exI [of _ s']) auto
  qed
qed auto

text \<open>Filling an empty queue and draining it sorts.\<close>

lemma sorts:
  assumes "rep s {#}" and "\<And>us x vs. xs = us @ x # vs \<Longrightarrow> room (mset us) x"
  shows "\<exists>s' ys s''. pq_fill put s xs = Some s' \<and> pq_drain take_min (length xs) s' = Some (ys, s'') \<and>
    mset ys = mset xs \<and> sorted (map key ys) \<and> rep s'' {#}"
proof -
  obtain s' where s': "pq_fill put s xs = Some s'" "rep s' (mset xs)"
    using fill_ok [OF assms(1), of xs] assms(2) by auto
  show ?thesis using drain_ok [OF s'(2), of "length xs"] s'(1) by auto
qed

end

end
