(* ===== verification/Linked_List.thy ===== *)
theory Linked_List
  imports Contracts
begin

text \<open>
  The intrusive doubly-linked list of \<open>src/container/list.c\<close>: a circle through a sentinel
  node embedded in the list structure. A node of the store has the fields of
  \<open>list_node_t\<close>; the record is extensible, so that a structure that embeds a node (the
  wrapper nodes of the public containers) is an extension of the record and the list
  functions work on it unchanged. \<open>list_t\<close> holds the address of its embedded sentinel and
  the element count; two lists are the same object when their sentinels are.
\<close>

section \<open>Data\<close>

record list_node =
  lprev :: ptr
  lnext :: ptr

record list_t =
  lhead :: ptr
  list_nelts :: u64

type_synonym 'a lmem = "'a list_node_scheme mem"

section \<open>Operations\<close>

definition list_init :: "'a lmem \<Rightarrow> list_t \<Rightarrow> ('a lmem \<times> list_t) option" where
  "list_init m l = do {
     m \<leftarrow> modify m (lhead l) (\<lambda>n. n\<lparr>lprev := lhead l\<rparr>);
     m \<leftarrow> modify m (lhead l) (\<lambda>n. n\<lparr>lnext := lhead l\<rparr>);
     Some (m, l\<lparr>list_nelts := 0\<rparr>) }"

definition list_empty :: "list_t \<Rightarrow> bool" where
  "list_empty l = (list_nelts l = 0)"

definition list_len :: "list_t \<Rightarrow> u64" where
  "list_len l = list_nelts l"

definition list_insert_head :: "'a lmem \<Rightarrow> list_t \<Rightarrow> ptr \<Rightarrow> ('a lmem \<times> list_t) option" where
  "list_insert_head m l node = do {
     h \<leftarrow> load m (lhead l);
     m \<leftarrow> modify m node (\<lambda>n. n\<lparr>lnext := lnext h\<rparr>);
     m \<leftarrow> modify m node (\<lambda>n. n\<lparr>lprev := lhead l\<rparr>);
     h \<leftarrow> load m (lhead l);
     m \<leftarrow> modify m (lnext h) (\<lambda>n. n\<lparr>lprev := node\<rparr>);
     m \<leftarrow> modify m (lhead l) (\<lambda>n. n\<lparr>lnext := node\<rparr>);
     Some (m, l\<lparr>list_nelts := list_nelts l + 1\<rparr>) }"

definition list_insert_tail :: "'a lmem \<Rightarrow> list_t \<Rightarrow> ptr \<Rightarrow> ('a lmem \<times> list_t) option" where
  "list_insert_tail m l node = do {
     h \<leftarrow> load m (lhead l);
     m \<leftarrow> modify m node (\<lambda>n. n\<lparr>lprev := lprev h\<rparr>);
     m \<leftarrow> modify m node (\<lambda>n. n\<lparr>lnext := lhead l\<rparr>);
     h \<leftarrow> load m (lhead l);
     m \<leftarrow> modify m (lprev h) (\<lambda>n. n\<lparr>lnext := node\<rparr>);
     m \<leftarrow> modify m (lhead l) (\<lambda>n. n\<lparr>lprev := node\<rparr>);
     Some (m, l\<lparr>list_nelts := list_nelts l + 1\<rparr>) }"

definition list_remove :: "'a lmem \<Rightarrow> list_t \<Rightarrow> ptr \<Rightarrow> ('a lmem \<times> list_t) option" where
  "list_remove m l node = do {
     n \<leftarrow> load m node;
     m \<leftarrow> modify m (lprev n) (\<lambda>p. p\<lparr>lnext := lnext n\<rparr>);
     n \<leftarrow> load m node;
     m \<leftarrow> modify m (lnext n) (\<lambda>s. s\<lparr>lprev := lprev n\<rparr>);
     m \<leftarrow> modify m node (\<lambda>n. n\<lparr>lprev := NULL\<rparr>);
     m \<leftarrow> modify m node (\<lambda>n. n\<lparr>lnext := NULL\<rparr>);
     Some (m, l\<lparr>list_nelts := list_nelts l - 1\<rparr>) }"

definition list_head :: "'a lmem \<Rightarrow> list_t \<Rightarrow> ptr option" where
  "list_head m l = (if list_empty l then Some NULL else map_option lnext (load m (lhead l)))"

definition list_tail :: "'a lmem \<Rightarrow> list_t \<Rightarrow> ptr option" where
  "list_tail m l = (if list_empty l then Some NULL else map_option lprev (load m (lhead l)))"

definition list_next :: "'a lmem \<Rightarrow> ptr \<Rightarrow> ptr option" where
  "list_next m node = map_option lnext (load m node)"

definition list_prev :: "'a lmem \<Rightarrow> ptr \<Rightarrow> ptr option" where
  "list_prev m node = map_option lprev (load m node)"

definition list_sentinel :: "list_t \<Rightarrow> ptr" where
  "list_sentinel l = lhead l"

text \<open>The move of a whole circle from the sentinel \<open>from\<close> to the sentinel \<open>dst\<close> that
  \<open>list_swap\<close> performs when one list is empty.\<close>

definition list_move :: "'a lmem \<Rightarrow> ptr \<Rightarrow> ptr \<Rightarrow> 'a lmem option" where
  "list_move m dst from = do {
     b \<leftarrow> load m from;
     m \<leftarrow> modify m dst (\<lambda>n. n\<lparr>lnext := lnext b\<rparr>);
     b \<leftarrow> load m from;
     m \<leftarrow> modify m dst (\<lambda>n. n\<lparr>lprev := lprev b\<rparr>);
     a \<leftarrow> load m dst;
     m \<leftarrow> modify m (lnext a) (\<lambda>n. n\<lparr>lprev := dst\<rparr>);
     a \<leftarrow> load m dst;
     m \<leftarrow> modify m (lprev a) (\<lambda>n. n\<lparr>lnext := dst\<rparr>);
     m \<leftarrow> modify m from (\<lambda>n. n\<lparr>lnext := from\<rparr>);
     m \<leftarrow> modify m from (\<lambda>n. n\<lparr>lprev := from\<rparr>);
     Some m }"

definition list_swap :: "'a lmem \<Rightarrow> list_t \<Rightarrow> list_t \<Rightarrow> ('a lmem \<times> list_t \<times> list_t) option" where
  "list_swap m a b =
     (if lhead a = lhead b then Some (m, a, b)
      else if list_nelts a = 0 \<and> list_nelts b = 0 then Some (m, a, b)
      else do {
        m \<leftarrow> (if list_nelts a = 0 then list_move m (lhead a) (lhead b)
             else if list_nelts b = 0 then list_move m (lhead b) (lhead a)
             else do {
               a0 \<leftarrow> load m (lhead a);
               b0 \<leftarrow> load m (lhead b);
               m \<leftarrow> modify m (lhead a) (\<lambda>n. n\<lparr>lnext := lnext b0\<rparr>);
               m \<leftarrow> modify m (lhead a) (\<lambda>n. n\<lparr>lprev := lprev b0\<rparr>);
               m \<leftarrow> modify m (lhead b) (\<lambda>n. n\<lparr>lnext := lnext a0\<rparr>);
               m \<leftarrow> modify m (lhead b) (\<lambda>n. n\<lparr>lprev := lprev a0\<rparr>);
               a1 \<leftarrow> load m (lhead a);
               m \<leftarrow> modify m (lnext a1) (\<lambda>n. n\<lparr>lprev := lhead a\<rparr>);
               a1 \<leftarrow> load m (lhead a);
               m \<leftarrow> modify m (lprev a1) (\<lambda>n. n\<lparr>lnext := lhead a\<rparr>);
               b1 \<leftarrow> load m (lhead b);
               m \<leftarrow> modify m (lnext b1) (\<lambda>n. n\<lparr>lprev := lhead b\<rparr>);
               b1 \<leftarrow> load m (lhead b);
               m \<leftarrow> modify m (lprev b1) (\<lambda>n. n\<lparr>lnext := lhead b\<rparr>);
               Some m });
        Some (m, a\<lparr>list_nelts := list_nelts b\<rparr>, b\<lparr>list_nelts := list_nelts a\<rparr>) })"

section \<open>Abstraction\<close>

definition lnx :: "'a lmem \<Rightarrow> ptr \<Rightarrow> ptr" where "lnx m p = lnext (the (m p))"

definition lpv :: "'a lmem \<Rightarrow> ptr \<Rightarrow> ptr" where "lpv m p = lprev (the (m p))"

text \<open>\<open>dlinked m h xs\<close>: from the sentinel \<open>h\<close> the next pointers run through \<open>xs\<close> back to
  \<open>h\<close>, the prev pointers run the same way backwards, and all nodes are distinct and
  allocated.\<close>

definition dlinked :: "'a lmem \<Rightarrow> ptr \<Rightarrow> ptr list \<Rightarrow> bool" where
  "dlinked m h xs \<longleftrightarrow>
     distinct (h # xs) \<and> NULL \<notin> set (h # xs) \<and> set (h # xs) \<subseteq> dom m \<and>
     map (lnx m) (h # xs) = xs @ [h] \<and> map (lpv m) (xs @ [h]) = h # xs"

definition list_rep :: "'a lmem \<Rightarrow> list_t \<Rightarrow> ptr list \<Rightarrow> bool" where
  "list_rep m l xs \<longleftrightarrow> dlinked m (lhead l) xs \<and> list_nelts l = of_nat (length xs)"

text \<open>What the list functions leave alone: the allocation, the fields of an embedding
  structure, and every node outside \<open>A\<close>.\<close>

definition lframe :: "ptr set \<Rightarrow> 'a lmem \<Rightarrow> 'a lmem \<Rightarrow> bool" where
  "lframe A m m' \<longleftrightarrow> (\<forall>p. p \<notin> A \<longrightarrow> m' p = m p) \<and>
     (\<forall>p. map_option list_node.more (m' p) = map_option list_node.more (m p))"


section \<open>Single pointer writes\<close>

definition set_lnext :: "'a lmem \<Rightarrow> ptr \<Rightarrow> ptr \<Rightarrow> 'a lmem" where
  "set_lnext m p v = m(p \<mapsto> (the (m p))\<lparr>lnext := v\<rparr>)"

definition set_lprev :: "'a lmem \<Rightarrow> ptr \<Rightarrow> ptr \<Rightarrow> 'a lmem" where
  "set_lprev m p v = m(p \<mapsto> (the (m p))\<lparr>lprev := v\<rparr>)"

named_theorems dl_simps \<open>execution of the list functions on allocated nodes\<close>

lemma load_dom [dl_simps]: "p \<noteq> NULL \<Longrightarrow> p \<in> dom m \<Longrightarrow> load m p = Some (the (m p))"
  by (auto simp: load_def)

lemma modify_lnext [dl_simps]:
  "p \<noteq> NULL \<Longrightarrow> p \<in> dom m \<Longrightarrow> modify m p (\<lambda>n. n\<lparr>lnext := v\<rparr>) = Some (set_lnext m p v)"
  by (auto simp: modify_def load_def set_lnext_def)

lemma modify_lprev [dl_simps]:
  "p \<noteq> NULL \<Longrightarrow> p \<in> dom m \<Longrightarrow> modify m p (\<lambda>n. n\<lparr>lprev := v\<rparr>) = Some (set_lprev m p v)"
  by (auto simp: modify_def load_def set_lprev_def)

lemma dom_set [dl_simps]:
  "dom (set_lnext m p v) = insert p (dom m)" "dom (set_lprev m p v) = insert p (dom m)"
  by (auto simp: set_lnext_def set_lprev_def)

lemma lnx_set [dl_simps]:
  "lnx (set_lnext m p v) = (lnx m)(p := v)" "lnx (set_lprev m p v) = lnx m"
  by (auto simp: set_lnext_def set_lprev_def lnx_def)

lemma lpv_set [dl_simps]:
  "lpv (set_lprev m p v) = (lpv m)(p := v)" "lpv (set_lnext m p v) = lpv m"
  by (auto simp: set_lnext_def set_lprev_def lpv_def)

lemma the_fields [dl_simps]: "lnext (the (m p)) = lnx m p" "lprev (the (m p)) = lpv m p"
  by (auto simp: lnx_def lpv_def)

lemma lframe_refl [simp]: "lframe A m m"
  by (simp add: lframe_def)

lemma lframe_set [intro]:
  "lframe A m m' \<Longrightarrow> p \<in> A \<Longrightarrow> p \<in> dom m' \<Longrightarrow> lframe A m (set_lnext m' p v)"
  "lframe A m m' \<Longrightarrow> p \<in> A \<Longrightarrow> p \<in> dom m' \<Longrightarrow> lframe A m (set_lprev m' p v)"
  by (auto simp: lframe_def set_lnext_def set_lprev_def) (metis option.map_sel option.simps(3,9) option.sel)+

lemma lframe_dom: "lframe A m m' \<Longrightarrow> dom m' = dom m"
  unfolding lframe_def dom_def by (metis option.map_disc_iff)

lemma dlinkedI:
  "distinct (h # xs) \<Longrightarrow> NULL \<notin> set (h # xs) \<Longrightarrow> set (h # xs) \<subseteq> dom m \<Longrightarrow>
   map (lnx m) (h # xs) = xs @ [h] \<Longrightarrow> map (lpv m) (xs @ [h]) = h # xs \<Longrightarrow> dlinked m h xs"
  by (simp add: dlinked_def)

lemma dlinked_bound: "dlinked m h xs \<Longrightarrow> length xs < 2 ^ 64"
  using distinct_ptrs_length [of "h # xs"] by (auto simp: dlinked_def)

lemma dlinked_frame: "dlinked m h xs \<Longrightarrow> \<forall>p \<in> set (h # xs). m' p = m p \<Longrightarrow> dlinked m' h xs"
  by (auto simp: dlinked_def lnx_def lpv_def dom_def cong: map_cong)

lemma dlinked_lframe:
  "dlinked m h xs \<Longrightarrow> lframe A m m' \<Longrightarrow> A \<inter> set (h # xs) = {} \<Longrightarrow> dlinked m' h xs"
  by (rule dlinked_frame) (auto simp: lframe_def)

section \<open>Correctness of the operations\<close>

lemma list_empty_rep [simp]: "list_rep m l xs \<Longrightarrow> list_empty l \<longleftrightarrow> xs = []"
  using dlinked_bound [of m "lhead l" xs]
  by (auto simp: list_rep_def list_empty_def of_nat_u64_eq_0)

lemma list_len_rep: "list_rep m l xs \<Longrightarrow> unat (list_len l) = length xs"
  using dlinked_bound [of m "lhead l" xs]
  by (auto simp: list_rep_def list_len_def unat_of_nat)

lemma dlinked_nonempty:
  assumes "dlinked m h xs"
  obtains us p s vs where "h # xs = us @ [p]" "xs @ [h] = s # vs"
    "map (lnx m) us = xs" "lnx m p = h" "map (lpv m) xs = us" "lpv m h = p"
    "lnx m h = s" "map (lnx m) xs = vs" "lpv m s = h" "map (lpv m) vs = xs"
proof -
  obtain us p where up: "h # xs = us @ [p]" by (metis append_butlast_last_id list.distinct(1))
  obtain s vs where sv: "xs @ [h] = s # vs" by (cases "xs @ [h]") auto
  have n: "map (lnx m) (us @ [p]) = xs @ [h]" "map (lnx m) (h # xs) = s # vs"
    and v: "map (lpv m) (xs @ [h]) = us @ [p]" "map (lpv m) (s # vs) = h # xs"
    using assms up sv by (auto simp: dlinked_def)
  show thesis using that [OF up sv] n v by simp
qed

lemma list_init_ok:
  assumes "lhead l \<noteq> NULL" and "lhead l \<in> dom m"
  shows "\<exists>m'. list_init m l = Some (m', l\<lparr>list_nelts := 0\<rparr>) \<and> list_rep m' (l\<lparr>list_nelts := 0\<rparr>) []
           \<and> lframe {lhead l} m m'"
proof -
  let ?m = "set_lnext (set_lprev m (lhead l) (lhead l)) (lhead l) (lhead l)"
  have "list_init m l = Some (?m, l\<lparr>list_nelts := 0\<rparr>)" "dlinked ?m (lhead l) []"
    using assms by (simp_all add: list_init_def dlinked_def dl_simps)
  moreover have "lframe {lhead l} m ?m"
    using assms by (intro lframe_set lframe_refl) (simp_all add: dl_simps)
  ultimately show ?thesis by (simp add: list_rep_def)
qed

lemma list_insert_tail_ok:
  assumes r: "list_rep m l xs" and x: "x \<notin> set (lhead l # xs)" "x \<noteq> NULL" "x \<in> dom m"
  shows "\<exists>m' l'. list_insert_tail m l x = Some (m', l') \<and> list_rep m' l' (xs @ [x])
           \<and> lhead l' = lhead l \<and> lframe (set (lhead l # x # xs)) m m'"
proof -
  let ?h = "lhead l"
  have d: "dlinked m ?h xs" using r by (simp add: list_rep_def)
  obtain us p s vs where c: "?h # xs = us @ [p]" "map (lnx m) us = xs" "lnx m p = ?h"
      "map (lpv m) xs = us" "lpv m ?h = p"
    using dlinked_nonempty [OF d] by metis
  have dist: "distinct (us @ [p])" "x \<notin> set (us @ [p])" and p: "p \<in> set (?h # xs)"
    using d x(1) unfolding dlinked_def c(1) by simp_all
  have s: "set (?h # xs) \<subseteq> dom m" "NULL \<notin> set (?h # xs)" "?h \<notin> set xs"
    using d by (simp_all add: dlinked_def)
  have pn: "p \<noteq> NULL" "p \<in> dom m" "p \<noteq> x" and hn: "?h \<noteq> NULL" "?h \<in> dom m" "?h \<noteq> x"
    using s p x by auto
  let ?m = "set_lprev (set_lnext (set_lnext (set_lprev m x p) x ?h) p x) ?h x"
  have run: "list_insert_tail m l x = Some (?m, l\<lparr>list_nelts := list_nelts l + 1\<rparr>)"
    using x(2,3) pn hn by (simp add: list_insert_tail_def dl_simps c(5))
  have nx: "map (lnx ?m) (us @ [p, x]) = xs @ [x, ?h]"
    using c dist x by (auto simp: dl_simps)
  have pv: "map (lpv ?m) (xs @ [x, ?h]) = us @ [p, x]"
    using x s(3) by (simp add: dl_simps c(4,5))
  have e: "?h # xs @ [x] = us @ [p, x]" using c(1) by simp
  have "dlinked ?m ?h (xs @ [x])"
  proof (rule dlinkedI)
    show "distinct (?h # xs @ [x])" "NULL \<notin> set (?h # xs @ [x])" "set (?h # xs @ [x]) \<subseteq> dom ?m"
      using d x by (auto simp: dlinked_def dl_simps)
    show "map (lnx ?m) (?h # xs @ [x]) = (xs @ [x]) @ [?h]" "map (lpv ?m) ((xs @ [x]) @ [?h]) = ?h # xs @ [x]"
      using nx pv by (simp_all add: e)
  qed
  moreover have "lframe (set (?h # x # xs)) m ?m"
    using x pn p s by (intro lframe_set lframe_refl) (auto simp: dl_simps)
  ultimately show ?thesis using run r by (auto simp: list_rep_def)
qed


lemma list_insert_head_ok:
  assumes r: "list_rep m l xs" and x: "x \<notin> set (lhead l # xs)" "x \<noteq> NULL" "x \<in> dom m"
  shows "\<exists>m' l'. list_insert_head m l x = Some (m', l') \<and> list_rep m' l' (x # xs)
           \<and> lhead l' = lhead l \<and> lframe (set (lhead l # x # xs)) m m'"
proof -
  let ?h = "lhead l"
  have d: "dlinked m ?h xs" using r by (simp add: list_rep_def)
  obtain s vs where c: "xs @ [?h] = s # vs" "lnx m ?h = s" "map (lnx m) xs = vs"
      "lpv m s = ?h" "map (lpv m) vs = xs"
    using dlinked_nonempty [OF d] by metis
  have s: "set (?h # xs) \<subseteq> dom m" "NULL \<notin> set (?h # xs)" "?h \<notin> set xs"
    using d by (auto simp: dlinked_def)
  have "set (s # vs) = set (?h # xs)" "distinct (s # vs)"
    using d arg_cong [OF c(1), of set] arg_cong [OF c(1), of distinct]
    by (auto simp: dlinked_def)
  then have sin: "s \<in> set (?h # xs)" "set vs \<subseteq> set (?h # xs)" "s \<notin> set vs" by auto
  then have sn: "s \<noteq> NULL" "s \<in> dom m" "s \<noteq> x" "s \<notin> set vs" "x \<notin> set vs" "s \<in> set (?h # xs)"
    and hn: "?h \<noteq> NULL" "?h \<in> dom m" "?h \<noteq> x"
    using s x by auto
  let ?m = "set_lnext (set_lprev (set_lprev (set_lnext m x s) x ?h) s x) ?h x"
  have run: "list_insert_head m l x = Some (?m, l\<lparr>list_nelts := list_nelts l + 1\<rparr>)"
    using x(2,3) sn hn by (simp add: list_insert_head_def dl_simps c(2))
  have nx: "map (lnx ?m) (?h # x # xs) = x # s # vs"
    using x s(3) by (auto simp: dl_simps c(3))
  have pv: "map (lpv ?m) (x # s # vs) = ?h # x # xs"
    using sn by (auto simp: dl_simps c(5))
  have "dlinked ?m ?h (x # xs)"
  proof (rule dlinkedI)
    show "distinct (?h # x # xs)" "NULL \<notin> set (?h # x # xs)" "set (?h # x # xs) \<subseteq> dom ?m"
      using d x by (auto simp: dlinked_def dl_simps)
    show "map (lnx ?m) (?h # x # xs) = (x # xs) @ [?h]" "map (lpv ?m) ((x # xs) @ [?h]) = ?h # x # xs"
      using nx pv by (simp_all add: c(1))
  qed
  moreover have "lframe (set (?h # x # xs)) m ?m"
    using x sn s by (intro lframe_set lframe_refl) (auto simp: dl_simps)
  ultimately show ?thesis using run r by (auto simp: list_rep_def)
qed

lemma list_remove_ok:
  assumes r: "list_rep m l (ys @ x # zs)"
  shows "\<exists>m' l'. list_remove m l x = Some (m', l') \<and> list_rep m' l' (ys @ zs)
           \<and> lhead l' = lhead l \<and> m' x \<noteq> None \<and> lframe (set (lhead l # ys @ x # zs)) m m'"
proof -
  let ?h = "lhead l"
  have d: "dlinked m ?h (ys @ x # zs)" using r by (simp add: list_rep_def)
  obtain us p where up: "?h # ys = us @ [p]" by (metis append_butlast_last_id list.distinct(1))
  obtain s vs where sv: "zs @ [?h] = s # vs" by (cases "zs @ [?h]") auto
  have len: "length us = length ys" using up by (metis length_append_singleton length_Cons nat.inject)
  have e: "?h # ys @ x # zs = us @ p # x # zs" "(ys @ x # zs) @ [?h] = ys @ x # s # vs"
    using up sv by auto
  have n: "map (lnx m) (us @ p # x # zs) = ys @ x # s # vs"
    and v: "map (lpv m) (ys @ x # s # vs) = us @ p # x # zs"
    using d unfolding dlinked_def e by blast+
  have dist: "distinct (us @ p # x # zs)" "distinct (ys @ x # s # vs)"
    using d unfolding dlinked_def e(1) [symmetric] e(2) [symmetric] by auto
  have mem: "set (us @ p # x # zs) \<subseteq> dom m" "NULL \<notin> set (us @ p # x # zs)"
    using d unfolding dlinked_def e(1) by auto
  have "s \<in> set (us @ p # x # zs)" using sv up by (cases zs) (auto simp: Cons_eq_append_conv)
  with mem have sn: "s \<noteq> NULL" "s \<in> dom m" by auto
  have c: "map (lnx m) us = ys" "lnx m p = x" "lnx m x = s" "map (lnx m) zs = vs"
    using n len by simp_all
  have b: "map (lpv m) ys = us" "lpv m x = p" "lpv m s = x" "map (lpv m) vs = zs"
    using v len by simp_all
  let ?m = "set_lnext (set_lprev (set_lprev (set_lnext m p s) s p) x NULL) x NULL"
  have run: "list_remove m l x = Some (?m, l\<lparr>list_nelts := list_nelts l - 1\<rparr>)"
    using mem sn dist by (simp add: list_remove_def dl_simps c(2,3) b(2,3))
  have nx: "map (lnx ?m) (us @ p # zs) = ys @ s # vs"
    using dist by (simp add: dl_simps c(1,4))
  have pv: "map (lpv ?m) (ys @ s # vs) = us @ p # zs"
    using dist by (auto simp: dl_simps b(1,4))
  have e': "?h # ys @ zs = us @ p # zs" "(ys @ zs) @ [?h] = ys @ s # vs" using up sv by auto
  have "dlinked ?m ?h (ys @ zs)"
  proof (rule dlinkedI)
    show "distinct (?h # ys @ zs)" "NULL \<notin> set (?h # ys @ zs)" "set (?h # ys @ zs) \<subseteq> dom ?m"
      using d by (auto simp: dlinked_def dl_simps)
    show "map (lnx ?m) (?h # ys @ zs) = (ys @ zs) @ [?h]" "map (lpv ?m) ((ys @ zs) @ [?h]) = ?h # ys @ zs"
      using nx pv unfolding e' by blast+
  qed
  moreover have "p \<in> set (?h # ys)" "s \<in> set (zs @ [?h])" unfolding up sv by auto
  then have "lframe (set (?h # ys @ x # zs)) m ?m"
    using mem sn by (intro lframe_set lframe_refl) (auto simp: dl_simps)
  ultimately show ?thesis using run r by (auto simp: list_rep_def set_lnext_def)
qed

lemma list_head_ok:
  assumes "list_rep m l xs"
  shows "list_head m l = Some (if xs = [] then NULL else hd xs)"
proof -
  have d: "dlinked m (lhead l) xs" using assms by (simp add: list_rep_def)
  then have "xs \<noteq> [] \<Longrightarrow> lnx m (lhead l) = hd xs" by (cases xs) (auto simp: dlinked_def)
  then show ?thesis
    using assms d by (simp add: list_head_def dlinked_def dl_simps)
qed

lemma list_tail_ok:
  assumes "list_rep m l xs"
  shows "list_tail m l = Some (if xs = [] then NULL else last xs)"
proof -
  have d: "dlinked m (lhead l) xs" using assms by (simp add: list_rep_def)
  then have "xs \<noteq> [] \<Longrightarrow> lpv m (lhead l) = last xs"
    by (cases xs rule: rev_cases) (auto simp: dlinked_def)
  then show ?thesis
    using assms d by (simp add: list_tail_def dlinked_def dl_simps)
qed

section \<open>Exchanging two lists\<close>

lemma dlinked_relink:
  assumes d: "dlinked m h xs" and ne: "xs \<noteq> []"
    and k: "k \<notin> set xs" "k \<noteq> NULL" "insert k (set xs) \<subseteq> dom m'"
    and kn: "lnx m' k = hd xs" "lpv m' k = last xs"
    and nx: "\<And>p. p \<in> set xs \<Longrightarrow> lnx m' p = (if p = last xs then k else lnx m p)"
    and pv: "\<And>p. p \<in> set xs \<Longrightarrow> lpv m' p = (if p = hd xs then k else lpv m p)"
  shows "dlinked m' k xs"
proof -
  obtain a as where a: "xs = a # as" using ne by (cases xs) auto
  obtain bs b where b: "xs = bs @ [b]" using ne by (cases xs rule: rev_cases) auto
  have dist: "distinct xs" using d by (simp add: dlinked_def)
  have "map (lnx m) (h # bs @ [b]) = (a # as) @ [h]" "map (lpv m) ((a # as) @ [h]) = h # bs @ [b]"
    using d a b by (simp_all add: dlinked_def)
  then have "map (lnx m) bs = as" "map (lpv m) as = bs" by simp_all
  moreover have "map (lnx m') bs = map (lnx m) bs" "lnx m' b = k"
    using dist nx unfolding b by (auto simp: map_eq_conv)
  moreover have "map (lpv m') as = map (lpv m) as" "lpv m' a = k"
    using dist pv unfolding a by (auto simp: map_eq_conv)
  moreover have "hd xs = a" "last xs = b" using a b by (metis list.sel(1), metis last_snoc)
  ultimately have "map (lnx m') (k # bs @ [b]) = (a # as) @ [k]"
    "map (lpv m') ((a # as) @ [k]) = k # bs @ [b]"
    using kn by simp_all
  then have "map (lnx m') (k # xs) = xs @ [k]" "map (lpv m') (xs @ [k]) = k # xs"
    unfolding a [symmetric] b [symmetric] .
  then show ?thesis
    using k d by (simp add: dlinked_def)
qed

lemma dlinked_ends:
  assumes "dlinked m h xs" and "xs \<noteq> []"
  shows "lnx m h = hd xs" "lpv m h = last xs" "hd xs \<in> set xs" "last xs \<in> set xs"
    "lpv m (hd xs) = h" "lnx m (last xs) = h"
    "h \<noteq> NULL" "h \<in> dom m" "set xs \<subseteq> dom m" "NULL \<notin> set xs" "h \<notin> set xs"
proof -
  show "lnx m h = hd xs" "hd xs \<in> set xs" "last xs \<in> set xs" "lpv m (hd xs) = h" 
    "h \<noteq> NULL" "h \<in> dom m" "set xs \<subseteq> dom m" "NULL \<notin> set xs" "h \<notin> set xs"
    using assms by (cases xs; auto simp: dlinked_def)+
  show "lpv m h = last xs" "lnx m (last xs) = h" 
    using assms by (cases xs rule: rev_cases; auto simp: dlinked_def)+
qed

lemma list_move_ok:
  assumes d: "dlinked m from xs" and ne: "xs \<noteq> []"
    and k: "dst \<notin> set (from # xs)" "dst \<noteq> NULL" "dst \<in> dom m"
  shows "\<exists>m'. list_move m dst from = Some m' \<and> dlinked m' dst xs \<and> dlinked m' from []
           \<and> lframe (set (dst # from # xs)) m m'"
proof -
  note e = dlinked_ends [OF d ne]
  let ?m1 = "set_lprev (set_lnext m dst (hd xs)) dst (last xs)"
  let ?m2 = "set_lnext (set_lprev ?m1 (hd xs) dst) (last xs) dst"
  let ?m3 = "set_lprev (set_lnext ?m2 from from) from from"
  have ends: "hd xs \<noteq> NULL" "hd xs \<in> dom m" "hd xs \<noteq> dst" "last xs \<noteq> NULL" "last xs \<in> dom m"
    "last xs \<noteq> dst" "hd xs \<noteq> from" "last xs \<noteq> from" "from \<noteq> dst"
    using e k by (metis subsetD list.set_intros)+
  have run: "list_move m dst from = Some ?m3"
    using e k ends by (simp add: list_move_def dl_simps)
  have "dlinked ?m3 dst xs"
    using d ne k e ends by (intro dlinked_relink [OF d ne]) (auto simp: dl_simps)
  moreover have "dlinked ?m3 from []"
    using e by (intro dlinkedI) (simp_all add: dl_simps)
  moreover have "lframe (set (dst # from # xs)) m ?m3"
    using e k ends by (intro lframe_set lframe_refl) (simp_all add: dl_simps)
  ultimately show ?thesis using run by blast
qed

lemma list_swap_ok:
  assumes a: "list_rep m a xs" and b: "list_rep m b ys"
    and disj: "set (lhead a # xs) \<inter> set (lhead b # ys) = {}"
  shows "\<exists>m' a' b'. list_swap m a b = Some (m', a', b') \<and> list_rep m' a' ys \<and> list_rep m' b' xs
     \<and> lhead a' = lhead a \<and> lhead b' = lhead b
     \<and> lframe (set (lhead a # xs) \<union> set (lhead b # ys)) m m'"
proof -
  have da: "dlinked m (lhead a) xs" and db: "dlinked m (lhead b) ys"
    and na: "list_nelts a = of_nat (length xs)" "list_nelts b = of_nat (length ys)"
    using a b by (auto simp: list_rep_def)
  have ea: "list_nelts a = 0 \<longleftrightarrow> xs = []" "list_nelts b = 0 \<longleftrightarrow> ys = []"
    using list_empty_rep [OF a] list_empty_rep [OF b] by (auto simp: list_empty_def)
  have hn: "lhead a \<noteq> NULL" "lhead a \<in> dom m" "lhead b \<noteq> NULL" "lhead b \<in> dom m"
    "lhead a \<noteq> lhead b" "lhead a \<notin> set ys" "lhead b \<notin> set xs"
    using da db disj by (auto simp: dlinked_def)
  consider "xs = []" "ys = []" | "xs = []" "ys \<noteq> []" | "xs \<noteq> []" "ys = []" | "xs \<noteq> []" "ys \<noteq> []"
    by blast
  then show ?thesis
  proof cases
    case 1
    then show ?thesis using a b ea hn by (simp add: list_swap_def)
  next
    case 2
    with hn obtain m' where "list_move m (lhead a) (lhead b) = Some m'" "dlinked m' (lhead a) ys"
      "dlinked m' (lhead b) []" "lframe (set (lhead a # lhead b # ys)) m m'"
      using list_move_ok [OF db, of "lhead a"] by auto
    with 2 ea hn na show ?thesis by (auto simp: list_swap_def list_rep_def insert_commute)
  next
    case 3
    with hn obtain m' where "list_move m (lhead b) (lhead a) = Some m'" "dlinked m' (lhead b) xs"
      "dlinked m' (lhead a) []" "lframe (set (lhead b # lhead a # xs)) m m'"
      using list_move_ok [OF da, of "lhead b"] by auto
    with 3 ea hn na show ?thesis by (auto simp: list_swap_def list_rep_def insert_commute)
  next
    case 4
    note e = dlinked_ends [OF da 4(1)] and f = dlinked_ends [OF db 4(2)]
    have ends: "hd xs \<noteq> NULL" "hd xs \<in> dom m" "last xs \<noteq> NULL" "last xs \<in> dom m"
      "hd ys \<noteq> NULL" "hd ys \<in> dom m" "last ys \<noteq> NULL" "last ys \<in> dom m"
      "hd xs \<noteq> lhead a" "hd xs \<noteq> lhead b" "last xs \<noteq> lhead a" "last xs \<noteq> lhead b"
      "hd ys \<noteq> lhead a" "hd ys \<noteq> lhead b" "last ys \<noteq> lhead a" "last ys \<noteq> lhead b"
      using e f hn by (metis subsetD)+
    let ?m1 = "set_lprev (set_lnext m (lhead a) (hd ys)) (lhead a) (last ys)"
    let ?m2 = "set_lprev (set_lnext ?m1 (lhead b) (hd xs)) (lhead b) (last xs)"
    let ?m3 = "set_lnext (set_lprev ?m2 (hd ys) (lhead a)) (last ys) (lhead a)"
    let ?m4 = "set_lnext (set_lprev ?m3 (hd xs) (lhead b)) (last xs) (lhead b)"
    have run: "list_swap m a b = Some (?m4, a\<lparr>list_nelts := list_nelts b\<rparr>, b\<lparr>list_nelts := list_nelts a\<rparr>)"
      using 4 ea e f hn ends by (simp add: list_swap_def dl_simps)
    have xy: "p \<in> set xs \<Longrightarrow> q \<in> set ys \<Longrightarrow> p \<noteq> q" for p q using disj by auto
    have ne: "hd xs \<noteq> hd ys" "hd xs \<noteq> last ys" "last xs \<noteq> hd ys" "last xs \<noteq> last ys"
      using xy e f by simp_all
    have "dlinked ?m4 (lhead a) ys"
      using e f hn ends ne xy [OF e(3)] xy [OF e(4)]
      by (intro dlinked_relink [OF db 4(2)]) (auto simp: dl_simps)
    moreover have "dlinked ?m4 (lhead b) xs"
      using e f hn ends ne xy [OF _ f(3)] xy [OF _ f(4)]
      by (intro dlinked_relink [OF da 4(1)]) (auto simp: dl_simps)
    moreover have "lframe (set (lhead a # xs) \<union> set (lhead b # ys)) m ?m4"
      using e f hn ends by (intro lframe_set lframe_refl) (simp_all add: dl_simps)
    ultimately show ?thesis using run na by (auto simp: list_rep_def)
  qed
qed

section \<open>Properties\<close>

text \<open>C4. Swapping two disjoint circular lists exchanges their contents and their lengths, keeps
  both sentinels in place, writes only to nodes of the two lists and never dereferences a
  null or dangling pointer, whichever of the two is empty.\<close>

theorem list_swap_exchanges:
  assumes "list_rep m a xs" and "list_rep m b ys"
    and "set (lhead a # xs) \<inter> set (lhead b # ys) = {}"
  shows "\<exists>m' a' b'. list_swap m a b = Some (m', a', b') \<and> list_rep m' a' ys \<and> list_rep m' b' xs
     \<and> lhead a' = lhead a \<and> lhead b' = lhead b
     \<and> lframe (set (lhead a # xs) \<union> set (lhead b # ys)) m m'"
  using list_swap_ok [OF assms] .

theorem list_swap_exchanges_witness:
  "\<exists>m' a' b'. list_swap [1 \<mapsto> \<lparr>lprev = 2, lnext = 2\<rparr>, 2 \<mapsto> \<lparr>lprev = 1, lnext = 1\<rparr>, 3 \<mapsto> \<lparr>lprev = 3, lnext = 3\<rparr>]
       \<lparr>lhead = 1, list_nelts = 1\<rparr> \<lparr>lhead = 3, list_nelts = 0\<rparr> = Some (m', a', b')
     \<and> list_rep m' a' [] \<and> list_rep m' b' [2]"
  using list_swap_exchanges
    [of "[1 \<mapsto> \<lparr>lprev = 2, lnext = 2\<rparr>, 2 \<mapsto> \<lparr>lprev = 1, lnext = 1\<rparr>, 3 \<mapsto> \<lparr>lprev = 3, lnext = 3\<rparr>]"
      "\<lparr>lhead = 1, list_nelts = 1\<rparr>" "[2]" "\<lparr>lhead = 3, list_nelts = 0\<rparr>" "[]"]
  by (force simp: list_rep_def dlinked_def lnx_def lpv_def)

end
