(* ===== verification/Fifo_Queue.thy ===== *)
theory Fifo_Queue
  imports Linked_List
begin

text \<open>
  The intrusive FIFO queue of \<open>src/container/queue.c\<close>, which repeats the circular list of
  \<open>list.c\<close> with its own structure, and the owning wrapper \<open>xylem_queue\<close> of
  \<open>src/container/xylem-queue.c\<close>. The wrapper node extends the list node by the client's
  data pointer. Memory comes from \<open>calloc\<close>: the pointer it returns is an argument of the
  model, \<open>NULL\<close> for a failed allocation.
\<close>

section \<open>The intrusive queue\<close>

record queue_t =
  qhead :: ptr
  queue_nelts :: u64

definition queue_init :: "'a lmem \<Rightarrow> queue_t \<Rightarrow> ('a lmem \<times> queue_t) option" where
  "queue_init m q = do {
     m \<leftarrow> modify m (qhead q) (\<lambda>n. n\<lparr>lprev := qhead q\<rparr>);
     m \<leftarrow> modify m (qhead q) (\<lambda>n. n\<lparr>lnext := qhead q\<rparr>);
     Some (m, q\<lparr>queue_nelts := 0\<rparr>) }"

definition queue_empty :: "queue_t \<Rightarrow> bool" where
  "queue_empty q = (queue_nelts q = 0)"

definition queue_len :: "queue_t \<Rightarrow> u64" where
  "queue_len q = queue_nelts q"

definition queue_enqueue :: "'a lmem \<Rightarrow> queue_t \<Rightarrow> ptr \<Rightarrow> ('a lmem \<times> queue_t) option" where
  "queue_enqueue m q node = do {
     h \<leftarrow> load m (qhead q);
     m \<leftarrow> modify m node (\<lambda>n. n\<lparr>lprev := lprev h\<rparr>);
     m \<leftarrow> modify m node (\<lambda>n. n\<lparr>lnext := qhead q\<rparr>);
     h \<leftarrow> load m (qhead q);
     m \<leftarrow> modify m (lprev h) (\<lambda>n. n\<lparr>lnext := node\<rparr>);
     m \<leftarrow> modify m (qhead q) (\<lambda>n. n\<lparr>lprev := node\<rparr>);
     Some (m, q\<lparr>queue_nelts := queue_nelts q + 1\<rparr>) }"

definition queue_dequeue :: "'a lmem \<Rightarrow> queue_t \<Rightarrow> (ptr \<times> 'a lmem \<times> queue_t) option" where
  "queue_dequeue m q =
     (if queue_empty q then Some (NULL, m, q)
      else do {
        h \<leftarrow> load m (qhead q);
        let node = lnext h;
        n \<leftarrow> load m node;
        m \<leftarrow> modify m (lnext n) (\<lambda>s. s\<lparr>lprev := qhead q\<rparr>);
        n \<leftarrow> load m node;
        m \<leftarrow> modify m (qhead q) (\<lambda>h. h\<lparr>lnext := lnext n\<rparr>);
        m \<leftarrow> modify m node (\<lambda>n. n\<lparr>lprev := NULL\<rparr>);
        m \<leftarrow> modify m node (\<lambda>n. n\<lparr>lnext := NULL\<rparr>);
        Some (node, m, q\<lparr>queue_nelts := queue_nelts q - 1\<rparr>) })"

definition queue_front :: "'a lmem \<Rightarrow> queue_t \<Rightarrow> ptr option" where
  "queue_front m q = (if queue_empty q then Some NULL else map_option lnext (load m (qhead q)))"

definition queue_back :: "'a lmem \<Rightarrow> queue_t \<Rightarrow> ptr option" where
  "queue_back m q = (if queue_empty q then Some NULL else map_option lprev (load m (qhead q)))"

definition queue_swap ::
  "'a lmem \<Rightarrow> queue_t \<Rightarrow> queue_t \<Rightarrow> ('a lmem \<times> queue_t \<times> queue_t) option" where
  "queue_swap m queue1 queue2 =
     (if qhead queue1 = qhead queue2 then Some (m, queue1, queue2)
      else if queue_nelts queue1 = 0 \<and> queue_nelts queue2 = 0 then Some (m, queue1, queue2)
      else do {
        m \<leftarrow> (if queue_nelts queue1 = 0 then list_move m (qhead queue1) (qhead queue2)
             else if queue_nelts queue2 = 0 then list_move m (qhead queue2) (qhead queue1)
             else do {
               a0 \<leftarrow> load m (qhead queue1);
               b0 \<leftarrow> load m (qhead queue2);
               m \<leftarrow> modify m (qhead queue1) (\<lambda>n. n\<lparr>lnext := lnext b0\<rparr>);
               m \<leftarrow> modify m (qhead queue1) (\<lambda>n. n\<lparr>lprev := lprev b0\<rparr>);
               m \<leftarrow> modify m (qhead queue2) (\<lambda>n. n\<lparr>lnext := lnext a0\<rparr>);
               m \<leftarrow> modify m (qhead queue2) (\<lambda>n. n\<lparr>lprev := lprev a0\<rparr>);
               a1 \<leftarrow> load m (qhead queue1);
               m \<leftarrow> modify m (lnext a1) (\<lambda>n. n\<lparr>lprev := qhead queue1\<rparr>);
               a1 \<leftarrow> load m (qhead queue1);
               m \<leftarrow> modify m (lprev a1) (\<lambda>n. n\<lparr>lnext := qhead queue1\<rparr>);
               b1 \<leftarrow> load m (qhead queue2);
               m \<leftarrow> modify m (lnext b1) (\<lambda>n. n\<lparr>lprev := qhead queue2\<rparr>);
               b1 \<leftarrow> load m (qhead queue2);
               m \<leftarrow> modify m (lprev b1) (\<lambda>n. n\<lparr>lnext := qhead queue2\<rparr>);
               Some m });
        Some (m, queue1\<lparr>queue_nelts := queue_nelts queue2\<rparr>,
                 queue2\<lparr>queue_nelts := queue_nelts queue1\<rparr>) })"

section \<open>The owning queue\<close>

record queue_wrap_node = list_node +
  queue_data :: ptr

type_synonym qmem = "queue_wrap_node mem"

text \<open>\<open>calloc\<close> of a wrapper node: \<open>p\<close> is the address it returns.\<close>

definition queue_wrap_alloc :: "qmem \<Rightarrow> ptr \<Rightarrow> ptr \<Rightarrow> qmem" where
  "queue_wrap_alloc m p data =
     (if p = NULL then m else m(p \<mapsto> \<lparr>lprev = NULL, lnext = NULL, queue_data = data\<rparr>))"

definition xylem_queue_create :: "qmem \<Rightarrow> ptr \<Rightarrow> (qmem \<times> queue_t option) option" where
  "xylem_queue_create m p =
     (if p = NULL then Some (m, None)
      else do {
        (m, q) \<leftarrow> queue_init (m(p \<mapsto> \<lparr>lprev = NULL, lnext = NULL, queue_data = NULL\<rparr>))
                           \<lparr>qhead = p, queue_nelts = 0\<rparr>;
        Some (m, Some q) })"

definition xylem_queue_empty :: "queue_t \<Rightarrow> bool" where
  "xylem_queue_empty q = queue_empty q"

definition xylem_queue_len :: "queue_t \<Rightarrow> u64" where
  "xylem_queue_len q = queue_len q"

definition xylem_queue_enqueue :: "qmem \<Rightarrow> queue_t \<Rightarrow> ptr \<Rightarrow> ptr \<Rightarrow> (int \<times> qmem \<times> queue_t) option" where
  "xylem_queue_enqueue m q p data =
     (if p = NULL then Some (-1, m, q)
      else do {
        (m, q) \<leftarrow> queue_enqueue (queue_wrap_alloc m p data) q p;
        Some (0, m, q) })"

definition xylem_queue_front :: "qmem \<Rightarrow> queue_t \<Rightarrow> ptr option" where
  "xylem_queue_front m q = do {
     n \<leftarrow> queue_front m q;
     if n = NULL then Some NULL else map_option queue_data (load m n) }"

definition xylem_queue_dequeue :: "qmem \<Rightarrow> queue_t \<Rightarrow> (qmem \<times> queue_t) option" where
  "xylem_queue_dequeue m q = do {
     (n, m, q) \<leftarrow> queue_dequeue m q;
     if n = NULL then Some (m, q) else do { m \<leftarrow> release m n; Some (m, q) } }"

text \<open>The loop of \<open>xylem_queue_clear\<close>, which runs until the queue is empty.\<close>

partial_function (option) xylem_queue_clear :: "qmem \<Rightarrow> queue_t \<Rightarrow> (qmem \<times> queue_t) option" where
  "xylem_queue_clear m q =
     (if queue_empty q then Some (m, q)
      else do { (m, q) \<leftarrow> xylem_queue_dequeue m q; xylem_queue_clear m q })"

definition xylem_queue_destroy :: "qmem \<Rightarrow> queue_t option \<Rightarrow> qmem option" where
  "xylem_queue_destroy m qo =
     (case qo of None \<Rightarrow> Some m
      | Some q \<Rightarrow> do { (m, q) \<leftarrow> xylem_queue_clear m q; release m (qhead q) })"

definition xylem_queue_swap ::
  "qmem \<Rightarrow> queue_t \<Rightarrow> queue_t \<Rightarrow> (qmem \<times> queue_t \<times> queue_t) option" where
  "xylem_queue_swap m a b = queue_swap m a b"

section \<open>Abstraction to lists\<close>

definition q_list :: "queue_t \<Rightarrow> list_t" where
  "q_list q = \<lparr>lhead = qhead q, list_nelts = queue_nelts q\<rparr>"

definition queue_rep :: "'a lmem \<Rightarrow> queue_t \<Rightarrow> ptr list \<Rightarrow> bool" where
  "queue_rep m q xs \<longleftrightarrow> list_rep m (q_list q) xs"

lemma q_list_simps [simp]: "lhead (q_list q) = qhead q" "list_nelts (q_list q) = queue_nelts q"
  by (simp_all add: q_list_def)

lemma queue_enqueue_eq:
  "queue_enqueue m q x =
     map_option (\<lambda>(m', l). (m', q\<lparr>queue_nelts := list_nelts l\<rparr>)) (list_insert_tail m (q_list q) x)"
  by (simp add: queue_enqueue_def list_insert_tail_def map_option_bind comp_def)

lemma queue_swap_eq:
  "queue_swap m p q =
     map_option (\<lambda>(m', a, b). (m', p\<lparr>queue_nelts := list_nelts a\<rparr>, q\<lparr>queue_nelts := list_nelts b\<rparr>))
       (list_swap m (q_list p) (q_list q))"
  by (simp add: queue_swap_def list_swap_def map_option_bind comp_def q_list_def)

lemma set_commute: "set_lprev (set_lnext m p v) q w = set_lnext (set_lprev m q w) p v"
  by (auto simp: set_lprev_def set_lnext_def fun_eq_iff)

lemma queue_empty_eq: "queue_empty q = list_empty (q_list q)"
  by (simp add: queue_empty_def list_empty_def)

lemma queue_empty_rep [simp]: "queue_rep m q xs \<Longrightarrow> queue_empty q \<longleftrightarrow> xs = []"
  by (simp add: queue_rep_def queue_empty_eq)

lemma queue_dequeue_eq:
  assumes "queue_rep m q (x # xs)"
  shows "queue_dequeue m q =
     map_option (\<lambda>(m', l). (x, m', q\<lparr>queue_nelts := list_nelts l\<rparr>)) (list_remove m (q_list q) x)"
proof -
  have d: "dlinked m (qhead q) (x # xs)" using assms by (simp add: queue_rep_def list_rep_def)
  note e = dlinked_ends [OF d]
  have hx: "qhead q \<noteq> NULL" "qhead q \<in> dom m" "x \<noteq> NULL" "x \<in> dom m" "qhead q \<noteq> x"
    "lnx m (qhead q) = x" "lpv m x = qhead q"
    using d by (auto simp: dlinked_def)
  have "lnx m x = hd (xs @ [qhead q])" using d by (cases xs) (auto simp: dlinked_def)
  then have "lnx m x \<in> set (qhead q # xs)" by (cases xs) auto
  then have s: "lnx m x \<noteq> NULL" "lnx m x \<in> dom m" "lnx m x \<noteq> x"
    using d by (auto simp: dlinked_def)
  show ?thesis
    using assms hx s
    by (simp add: queue_dequeue_def list_remove_def dl_simps set_commute)
qed

lemma queue_enqueue_ok:
  assumes "queue_rep m q xs" and "x \<notin> set (qhead q # xs)" "x \<noteq> NULL" "x \<in> dom m"
  shows "\<exists>m' q'. queue_enqueue m q x = Some (m', q') \<and> queue_rep m' q' (xs @ [x])
           \<and> qhead q' = qhead q \<and> lframe (set (qhead q # x # xs)) m m'"
  using list_insert_tail_ok [of m "q_list q" xs x] assms
  by (fastforce simp: queue_enqueue_eq queue_rep_def list_rep_def)

lemma queue_dequeue_ok:
  assumes "queue_rep m q (x # xs)"
  shows "\<exists>m' q'. queue_dequeue m q = Some (x, m', q') \<and> queue_rep m' q' xs \<and> qhead q' = qhead q
           \<and> m' x \<noteq> None \<and> lframe (set (qhead q # x # xs)) m m'"
  using list_remove_ok [of m "q_list q" "[]" x xs] queue_dequeue_eq [OF assms] assms
  by (fastforce simp: queue_rep_def list_rep_def)

section \<open>The queue as an instance of the FIFO contract\<close>

text \<open>The nodes the clients hand over: \<open>D\<close>, allocated and distinct from the sentinel.\<close>

definition queue_over :: "ptr set \<Rightarrow> 'a lmem \<times> queue_t \<Rightarrow> ptr list \<Rightarrow> bool" where
  "queue_over D s xs \<longleftrightarrow> queue_rep (fst s) (snd s) xs \<and> set xs \<subseteq> D \<and> D \<subseteq> dom (fst s)
     \<and> NULL \<notin> D \<and> qhead (snd s) \<notin> D"

definition queue_enq :: "'a lmem \<times> queue_t \<Rightarrow> ptr \<Rightarrow> (bool \<times> 'a lmem \<times> queue_t) option" where
  "queue_enq s x = map_option (Pair True) (queue_enqueue (fst s) (snd s) x)"

definition queue_deq :: "'a lmem \<times> queue_t \<Rightarrow> (ptr option \<times> 'a lmem \<times> queue_t) option" where
  "queue_deq s = map_option (\<lambda>(n, s). (if n = NULL then None else Some n, s))
                   (queue_dequeue (fst s) (snd s))"

interpretation queue_fifo:
  sequence "queue_over D" snoc "\<lambda>xs x. x \<in> D \<and> x \<notin> set xs" queue_enq queue_deq
  for D
proof
  fix s :: "'a lmem \<times> queue_t" and xs x
  assume s: "queue_over D s xs" and x: "x \<in> D \<and> x \<notin> set xs"
  then have "x \<notin> set (qhead (snd s) # xs)" "x \<noteq> NULL" "x \<in> dom (fst s)"
    by (auto simp: queue_over_def)
  with s obtain m' q' where "queue_enqueue (fst s) (snd s) x = Some (m', q')"
    "queue_rep m' q' (xs @ [x])" "qhead q' = qhead (snd s)" "dom m' = dom (fst s)"
    using queue_enqueue_ok [of "fst s" "snd s" xs x] by (auto simp: queue_over_def dest: lframe_dom)
  with s x show "\<exists>s'. queue_enq s x = Some (True, s') \<and> queue_over D s' (snoc xs x)"
    by (simp add: queue_over_def queue_enq_def snoc_def)
next
  fix s :: "'a lmem \<times> queue_t"
  assume "queue_over D s []"
  then show "queue_deq s = Some (None, s)"
    by (cases s) (auto simp: queue_over_def queue_deq_def queue_dequeue_def)
next
  fix s :: "'a lmem \<times> queue_t" and x xs
  assume s: "queue_over D s (x # xs)"
  then obtain m' q' where "queue_dequeue (fst s) (snd s) = Some (x, m', q')" "queue_rep m' q' xs"
    "qhead q' = qhead (snd s)" "dom m' = dom (fst s)"
    using queue_dequeue_ok [of "fst s" "snd s" x xs] by (auto simp: queue_over_def dest: lframe_dom)
  with s show "\<exists>s'. queue_deq s = Some (Some x, s') \<and> queue_over D s' xs"
    by (auto simp: queue_over_def queue_deq_def)
qed

section \<open>The owning queue\<close>

text \<open>\<open>xqueue_nodes m q ns ds\<close>: the wrapper nodes are \<open>ns\<close> and carry the data pointers \<open>ds\<close>.\<close>

definition xqueue_nodes :: "qmem \<Rightarrow> queue_t \<Rightarrow> ptr list \<Rightarrow> ptr list \<Rightarrow> bool" where
  "xqueue_nodes m q ns ds \<longleftrightarrow> queue_rep m q ns \<and> map (\<lambda>n. queue_data (the (m n))) ns = ds"

lemma more_queue_data:
  fixes n n' :: queue_wrap_node
  shows "list_node.more n = list_node.more n' \<Longrightarrow> queue_data n = queue_data n'"
  by (cases n; cases n') simp

lemma lframe_data:
  assumes "lframe A m m'" and "p \<in> dom (m :: qmem)"
  shows "queue_data (the (m' p)) = queue_data (the (m p))"
proof -
  have "map_option list_node.more (m' p) = map_option list_node.more (m p)"
    using assms(1) by (simp add: lframe_def)
  moreover obtain n where "m p = Some n" using assms(2) by blast
  moreover from calculation obtain n' where "m' p = Some n'" by auto
  ultimately show ?thesis using more_queue_data [of n' n] by simp
qed

lemma queue_rep_dom: "queue_rep m q xs \<Longrightarrow> insert (qhead q) (set xs) \<subseteq> dom m"
  by (auto simp: queue_rep_def list_rep_def dlinked_def)

lemma queue_rep_frame:
  "queue_rep m q xs \<Longrightarrow> \<forall>p \<in> set (qhead q # xs). m' p = m p \<Longrightarrow> queue_rep m' q xs"
  using dlinked_frame [of m "qhead q" xs m'] by (simp add: queue_rep_def list_rep_def)

lemma xylem_queue_enqueue_ok:
  assumes r: "xqueue_nodes m q ns ds" and p: "p \<noteq> NULL" "p \<notin> dom m"
  shows "\<exists>m' q'. xylem_queue_enqueue m q p d = Some (0, m', q')
           \<and> xqueue_nodes m' q' (ns @ [p]) (ds @ [d]) \<and> qhead q' = qhead q
           \<and> (\<forall>x. x \<notin> set (qhead q # p # ns) \<longrightarrow> m' x = m x)"
proof -
  let ?m = "queue_wrap_alloc m p d"
  have q: "queue_rep m q ns" using r by (simp add: xqueue_nodes_def)
  have np: "p \<notin> set (qhead q # ns)" using queue_rep_dom [OF q] p by auto
  have "queue_rep ?m q ns"
    using np p by (intro queue_rep_frame [OF q]) (auto simp: queue_wrap_alloc_def)
  then obtain m' q' where e: "queue_enqueue ?m q p = Some (m', q')" "queue_rep m' q' (ns @ [p])"
    "qhead q' = qhead q" "lframe (set (qhead q # p # ns)) ?m m'"
    using queue_enqueue_ok [of ?m q ns p] np p by (auto simp: queue_wrap_alloc_def)
  have "queue_data (the (m' n)) = queue_data (the (?m n))" if "n \<in> set (ns @ [p])" for n
  proof (rule lframe_data [OF e(4)])
    show "n \<in> dom ?m" using that queue_rep_dom [OF q] p by (auto simp: queue_wrap_alloc_def)
  qed
  moreover have "map (\<lambda>n. queue_data (the (?m n))) (ns @ [p]) = ds @ [d]"
    using r np p by (auto simp: xqueue_nodes_def queue_wrap_alloc_def split: if_splits)
  ultimately have "map (\<lambda>n. queue_data (the (m' n))) (ns @ [p]) = ds @ [d]"
    by (simp cong: map_cong)
  with e p show ?thesis
    by (auto simp: xylem_queue_enqueue_def xqueue_nodes_def lframe_def queue_wrap_alloc_def)
qed

lemma xylem_queue_front_ok:
  assumes "xqueue_nodes m q ns ds"
  shows "xylem_queue_front m q = Some (if ds = [] then NULL else hd ds)"
proof -
  have r: "queue_rep m q ns" and ds: "ds = map (\<lambda>n. queue_data (the (m n))) ns"
    using assms by (auto simp: xqueue_nodes_def)
  have "queue_front m q = list_head m (q_list q)"
    by (simp add: queue_front_def list_head_def queue_empty_eq)
  then have f: "queue_front m q = Some (if ns = [] then NULL else hd ns)"
    using r list_head_ok [of m "q_list q" ns] by (simp add: queue_rep_def)
  show ?thesis
  proof (cases ns)
    case (Cons n ns')
    then have "n \<noteq> NULL" "n \<in> dom m"
      using r by (auto simp: queue_rep_def list_rep_def dlinked_def)
    then show ?thesis using Cons ds f by (simp add: xylem_queue_front_def dl_simps)
  qed (use ds f in \<open>simp add: xylem_queue_front_def\<close>)
qed

lemma xylem_queue_dequeue_ok:
  assumes "xqueue_nodes m q (n # ns) ds"
  shows "\<exists>m' q'. xylem_queue_dequeue m q = Some (m', q') \<and> xqueue_nodes m' q' ns (tl ds)
           \<and> qhead q' = qhead q \<and> m' n = None
           \<and> (\<forall>x. x \<notin> set (qhead q # n # ns) \<longrightarrow> m' x = m x)"
proof -
  have r: "queue_rep m q (n # ns)" using assms by (simp add: xqueue_nodes_def)
  then obtain m1 q1 where e: "queue_dequeue m q = Some (n, m1, q1)" "queue_rep m1 q1 ns"
    "qhead q1 = qhead q" "m1 n \<noteq> None" "lframe (set (qhead q # n # ns)) m m1"
    using queue_dequeue_ok by blast
  let ?m = "m1(n := None)"
  have n: "n \<noteq> NULL" "n \<notin> set (qhead q # ns)"
    using r by (auto simp: queue_rep_def list_rep_def dlinked_def)
  then have "queue_rep ?m q1 ns"
    using e(3) by (intro queue_rep_frame [OF e(2)]) auto
  moreover have "queue_data (the (?m x)) = queue_data (the (m x))" if "x \<in> set ns" for x
    using that n lframe_data [OF e(5), of x] queue_rep_dom [OF r] by auto
  then have "map (\<lambda>n. queue_data (the (?m n))) ns = tl ds"
    using assms by (auto simp: xqueue_nodes_def simp del: fun_upd_apply)
  ultimately show ?thesis
    using e n by (auto simp: xylem_queue_dequeue_def release_def xqueue_nodes_def lframe_def)
qed

lemma xylem_queue_clear_ok:
  assumes "xqueue_nodes m q ns ds"
  shows "\<exists>m' q'. xylem_queue_clear m q = Some (m', q') \<and> xqueue_nodes m' q' [] []
           \<and> qhead q' = qhead q \<and> (\<forall>x \<in> set ns. m' x = None)
           \<and> (\<forall>x. x \<notin> set (qhead q # ns) \<longrightarrow> m' x = m x)"
  using assms
proof (induction ns arbitrary: m q ds)
  case Nil
  then show ?case by (auto simp: xylem_queue_clear.simps xqueue_nodes_def)
next
  case (Cons n ns)
  obtain m1 q1 where d: "xylem_queue_dequeue m q = Some (m1, q1)" "xqueue_nodes m1 q1 ns (tl ds)"
    "qhead q1 = qhead q" "m1 n = None" "\<forall>x. x \<notin> set (qhead q # n # ns) \<longrightarrow> m1 x = m x"
    using xylem_queue_dequeue_ok [OF Cons.prems] by blast
  obtain m2 q2 where c: "xylem_queue_clear m1 q1 = Some (m2, q2)" "xqueue_nodes m2 q2 [] []"
    "qhead q2 = qhead q1" "\<forall>x \<in> set ns. m2 x = None"
    "\<forall>x. x \<notin> set (qhead q1 # ns) \<longrightarrow> m2 x = m1 x"
    using Cons.IH [OF d(2)] by blast
  have r: "queue_rep m q (n # ns)" using Cons.prems by (simp add: xqueue_nodes_def)
  then have "n \<notin> set (qhead q # ns)" by (auto simp: queue_rep_def list_rep_def dlinked_def)
  moreover have "xylem_queue_clear m q = Some (m2, q2)"
    using r d(1) c(1) by (simp add: xylem_queue_clear.simps [of m q])
  ultimately show ?case using d c by auto
qed

lemma xylem_queue_destroy_ok:
  assumes "xqueue_nodes m q ns ds"
  shows "xylem_queue_destroy m (Some q) = Some (\<lambda>x. if x \<in> set (qhead q # ns) then None else m x)"
proof -
  obtain m' q' where c: "xylem_queue_clear m q = Some (m', q')" "xqueue_nodes m' q' [] []"
    "qhead q' = qhead q" "\<forall>x \<in> set ns. m' x = None" "\<forall>x. x \<notin> set (qhead q # ns) \<longrightarrow> m' x = m x"
    using xylem_queue_clear_ok [OF assms] by blast
  have "qhead q \<noteq> NULL" "m' (qhead q) \<noteq> None"
    using c(2,3) by (auto simp: xqueue_nodes_def queue_rep_def list_rep_def dlinked_def)
  then show ?thesis using c by (auto simp: xylem_queue_destroy_def release_def fun_eq_iff)
qed

section \<open>Properties\<close>

text \<open>C3. Every run of enqueue and dequeue operations on the intrusive queue, over nodes that are not
  queued twice, is memory safe and returns exactly what the same run returns on a list with
  insertion at the back and removal at the front; dequeue on an empty queue returns no node.\<close>

theorem queue_refines_fifo:
  assumes "queue_over D s xs" and "seq_legal snoc (\<lambda>xs x. x \<in> D \<and> x \<notin> set xs) xs ops"
  shows "\<exists>s'. seq_exec queue_enq queue_deq s ops =
      Some (fst (seq_abs snoc (\<lambda>xs x. x \<in> D \<and> x \<notin> set xs) xs ops), s')
    \<and> queue_over D s' (snd (seq_abs snoc (\<lambda>xs x. x \<in> D \<and> x \<notin> set xs) xs ops))"
  using queue_fifo.exec_legal [OF assms] .

theorem queue_refines_fifo_witness:
  "\<exists>s'. seq_exec queue_enq queue_deq
       ([1 \<mapsto> \<lparr>lprev = 1, lnext = 1\<rparr>, 2 \<mapsto> \<lparr>lprev = 0, lnext = 0\<rparr>, 3 \<mapsto> \<lparr>lprev = 0, lnext = 0\<rparr>],
        \<lparr>qhead = 1, queue_nelts = 0\<rparr>) [Put 2, Put 3, Take, Take, Take] =
     Some ([Accepted True, Accepted True, Taken (Some 2), Taken (Some 3), Taken None], s')"
  using queue_refines_fifo [of "{2, 3}"
      "([1 \<mapsto> \<lparr>lprev = 1, lnext = 1\<rparr>, 2 \<mapsto> \<lparr>lprev = 0, lnext = 0\<rparr>, 3 \<mapsto> \<lparr>lprev = 0, lnext = 0\<rparr>],
        \<lparr>qhead = 1, queue_nelts = 0\<rparr>)" "[]" "[Put 2, Put 3, Take, Take, Take]"]
  by (auto simp: queue_over_def queue_rep_def list_rep_def dlinked_def lnx_def lpv_def snoc_def)

text \<open>C11. Destroying an owning queue frees its sentinel and each of its wrapper nodes exactly once and
  nothing else: no leak, no double free, no access to freed memory.\<close>

theorem xylem_queue_destroy_frees:
  assumes "xqueue_nodes m q ns ds"
  shows "xylem_queue_destroy m (Some q) = Some (\<lambda>x. if x \<in> set (qhead q # ns) then None else m x)"
  using xylem_queue_destroy_ok [OF assms] .

theorem xylem_queue_destroy_frees_witness:
  "\<exists>m. xylem_queue_destroy
       [1 \<mapsto> \<lparr>lprev = 2, lnext = 2, queue_data = 0\<rparr>, 2 \<mapsto> \<lparr>lprev = 1, lnext = 1, queue_data = 9\<rparr>,
        7 \<mapsto> \<lparr>lprev = 0, lnext = 0, queue_data = 5\<rparr>] (Some \<lparr>qhead = 1, queue_nelts = 1\<rparr>) = Some m
     \<and> m 1 = None \<and> m 2 = None \<and> m 7 \<noteq> None"
  using xylem_queue_destroy_frees
    [of "[1 \<mapsto> \<lparr>lprev = 2, lnext = 2, queue_data = 0\<rparr>, 2 \<mapsto> \<lparr>lprev = 1, lnext = 1, queue_data = 9\<rparr>,
        7 \<mapsto> \<lparr>lprev = 0, lnext = 0, queue_data = 5\<rparr>]" "\<lparr>qhead = 1, queue_nelts = 1\<rparr>" "[2]" "[9]"]
  by (simp add: xqueue_nodes_def queue_rep_def list_rep_def dlinked_def lnx_def lpv_def)

end
