(* ===== verification/Lifo_Stack.thy ===== *)
theory Lifo_Stack
  imports Contracts
begin

text \<open>
  The intrusive LIFO of \<open>src/container/lifo.c\<close> and the owning \<open>xylem_stack\<close> of
  \<open>src/container/xylem-stack.c\<close>. As for the queue, the wrapper node extends the intrusive
  node and the address returned by \<open>calloc\<close> is an argument.
\<close>

section \<open>The intrusive stack\<close>

record lifo_node =
  fnext :: ptr

record lifo_t =
  lifo_top :: ptr
  lifo_nelts :: u64

type_synonym 'a fmem = "'a lifo_node_scheme mem"

definition lifo_init :: "lifo_t" where
  "lifo_init = \<lparr>lifo_top = NULL, lifo_nelts = 0\<rparr>"

definition lifo_empty :: "lifo_t \<Rightarrow> bool" where
  "lifo_empty l = (lifo_nelts l = 0)"

definition lifo_len :: "lifo_t \<Rightarrow> u64" where
  "lifo_len l = lifo_nelts l"

definition lifo_push :: "'a fmem \<Rightarrow> lifo_t \<Rightarrow> ptr \<Rightarrow> ('a fmem \<times> lifo_t) option" where
  "lifo_push m l node = do {
     m \<leftarrow> modify m node (\<lambda>n. n\<lparr>fnext := lifo_top l\<rparr>);
     Some (m, l\<lparr>lifo_top := node, lifo_nelts := lifo_nelts l + 1\<rparr>) }"

definition lifo_pop :: "'a fmem \<Rightarrow> lifo_t \<Rightarrow> (ptr \<times> 'a fmem \<times> lifo_t) option" where
  "lifo_pop m l =
     (if lifo_top l = NULL then Some (NULL, m, l)
      else do {
        let node = lifo_top l;
        n \<leftarrow> load m node;
        m \<leftarrow> modify m node (\<lambda>n. n\<lparr>fnext := NULL\<rparr>);
        Some (node, m, l\<lparr>lifo_top := fnext n, lifo_nelts := lifo_nelts l - 1\<rparr>) })"

definition lifo_peek :: "lifo_t \<Rightarrow> ptr" where
  "lifo_peek l = lifo_top l"

section \<open>The owning stack\<close>

record stack_wrap_node = lifo_node +
  stack_data :: ptr

type_synonym smem = "stack_wrap_node mem"

definition stack_wrap_alloc :: "smem \<Rightarrow> ptr \<Rightarrow> ptr \<Rightarrow> smem" where
  "stack_wrap_alloc m p data = (if p = NULL then m else m(p \<mapsto> \<lparr>fnext = NULL, stack_data = data\<rparr>))"

text \<open>\<open>xylem_stack_create\<close> with the address \<open>p\<close> of the control block, which holds no node and
  is not part of the node store.\<close>

definition xylem_stack_create :: "ptr \<Rightarrow> lifo_t option" where
  "xylem_stack_create p = (if p = NULL then None else Some lifo_init)"

definition xylem_stack_empty :: "lifo_t \<Rightarrow> bool" where
  "xylem_stack_empty s = lifo_empty s"

definition xylem_stack_len :: "lifo_t \<Rightarrow> u64" where
  "xylem_stack_len s = lifo_len s"

definition xylem_stack_push :: "smem \<Rightarrow> lifo_t \<Rightarrow> ptr \<Rightarrow> ptr \<Rightarrow> (int \<times> smem \<times> lifo_t) option" where
  "xylem_stack_push m s p data =
     (if p = NULL then Some (-1, m, s)
      else do { (m, s) \<leftarrow> lifo_push (stack_wrap_alloc m p data) s p; Some (0, m, s) })"

definition xylem_stack_peek :: "smem \<Rightarrow> lifo_t \<Rightarrow> ptr option" where
  "xylem_stack_peek m s =
     (let n = lifo_peek s in if n = NULL then Some NULL else map_option stack_data (load m n))"

definition xylem_stack_pop :: "smem \<Rightarrow> lifo_t \<Rightarrow> (smem \<times> lifo_t) option" where
  "xylem_stack_pop m s = do {
     (n, m, s) \<leftarrow> lifo_pop m s;
     if n = NULL then Some (m, s) else do { m \<leftarrow> release m n; Some (m, s) } }"

partial_function (option) xylem_stack_clear :: "smem \<Rightarrow> lifo_t \<Rightarrow> (smem \<times> lifo_t) option" where
  "xylem_stack_clear m s =
     (if lifo_empty s then Some (m, s)
      else do { (m, s) \<leftarrow> xylem_stack_pop m s; xylem_stack_clear m s })"

definition xylem_stack_destroy :: "smem \<Rightarrow> lifo_t option \<Rightarrow> smem option" where
  "xylem_stack_destroy m so =
     (case so of None \<Rightarrow> Some m | Some s \<Rightarrow> do { (m, s) \<leftarrow> xylem_stack_clear m s; Some m })"

section \<open>Abstraction\<close>

fun lifo_chain :: "'a fmem \<Rightarrow> ptr \<Rightarrow> ptr list \<Rightarrow> bool" where
  "lifo_chain m p [] = (p = NULL)"
| "lifo_chain m p (x # xs) = (p = x \<and> x \<noteq> NULL \<and> (\<exists>n. m x = Some n \<and> lifo_chain m (fnext n) xs))"

definition lifo_rep :: "'a fmem \<Rightarrow> lifo_t \<Rightarrow> ptr list \<Rightarrow> bool" where
  "lifo_rep m l xs \<longleftrightarrow> lifo_chain m (lifo_top l) xs \<and> distinct xs \<and> lifo_nelts l = of_nat (length xs)"

definition lifo_over :: "ptr set \<Rightarrow> 'a fmem \<times> lifo_t \<Rightarrow> ptr list \<Rightarrow> bool" where
  "lifo_over D s xs \<longleftrightarrow> lifo_rep (fst s) (snd s) xs \<and> D \<subseteq> dom (fst s) \<and> NULL \<notin> D"

definition lifo_put :: "'a fmem \<times> lifo_t \<Rightarrow> ptr \<Rightarrow> (bool \<times> 'a fmem \<times> lifo_t) option" where
  "lifo_put s x = map_option (Pair True) (lifo_push (fst s) (snd s) x)"

definition lifo_take :: "'a fmem \<times> lifo_t \<Rightarrow> (ptr option \<times> 'a fmem \<times> lifo_t) option" where
  "lifo_take s = map_option (\<lambda>(n, s). (if n = NULL then None else Some n, s))
                   (lifo_pop (fst s) (snd s))"

definition xstack_nodes :: "smem \<Rightarrow> lifo_t \<Rightarrow> ptr list \<Rightarrow> ptr list \<Rightarrow> bool" where
  "xstack_nodes m s ns ds \<longleftrightarrow> lifo_rep m s ns \<and> map (\<lambda>n. stack_data (the (m n))) ns = ds"

section \<open>Correctness\<close>

lemma lifo_chain_frame:
  "lifo_chain m p xs \<Longrightarrow> \<forall>x \<in> set xs. m' x = m x \<Longrightarrow> lifo_chain m' p xs"
  by (induction xs arbitrary: p) auto

lemma lifo_chain_nodes: "lifo_chain m p xs \<Longrightarrow> NULL \<notin> set xs \<and> set xs \<subseteq> dom m"
  by (induction xs arbitrary: p) auto

lemma lifo_rep_len: "lifo_rep m l xs \<Longrightarrow> unat (lifo_len l) = length xs"
  using distinct_ptrs_length [of xs] lifo_chain_nodes [of m "lifo_top l" xs]
  by (simp add: lifo_rep_def lifo_len_def unat_of_nat)

lemma lifo_empty_rep [simp]: "lifo_rep m l xs \<Longrightarrow> lifo_empty l \<longleftrightarrow> xs = []"
  using lifo_rep_len [of m l xs] by (auto simp: lifo_len_def lifo_empty_def unat_eq_0)

lemma lifo_push_ok:
  assumes "lifo_rep m l xs" and "x \<notin> set xs" "x \<noteq> NULL" "m x = Some n"
  shows "lifo_push m l x =
      Some (m(x \<mapsto> n\<lparr>fnext := lifo_top l\<rparr>), l\<lparr>lifo_top := x, lifo_nelts := lifo_nelts l + 1\<rparr>)"
    and "lifo_rep (m(x \<mapsto> n\<lparr>fnext := lifo_top l\<rparr>))
      (l\<lparr>lifo_top := x, lifo_nelts := lifo_nelts l + 1\<rparr>) (x # xs)"
  using assms by (auto simp: lifo_push_def store_simps lifo_rep_def intro: lifo_chain_frame)

lemma lifo_pop_ok:
  assumes "lifo_rep m l (x # xs)"
  shows "\<exists>n. m x = Some n \<and> lifo_pop m l =
      Some (x, m(x \<mapsto> n\<lparr>fnext := NULL\<rparr>), l\<lparr>lifo_top := fnext n, lifo_nelts := lifo_nelts l - 1\<rparr>)
      \<and> lifo_rep (m(x \<mapsto> n\<lparr>fnext := NULL\<rparr>)) (l\<lparr>lifo_top := fnext n, lifo_nelts := lifo_nelts l - 1\<rparr>) xs"
  using assms by (auto simp: lifo_pop_def store_simps lifo_rep_def elim!: lifo_chain_frame split: if_splits)

interpretation lifo_seq: sequence "lifo_over D" push "\<lambda>xs x. x \<in> D \<and> x \<notin> set xs" lifo_put lifo_take
  for D
proof
  fix s :: "'a fmem \<times> lifo_t" and xs x
  assume s: "lifo_over D s xs" and x: "x \<in> D \<and> x \<notin> set xs"
  then obtain n where "fst s x = Some n" "x \<noteq> NULL" by (auto simp: lifo_over_def)
  with s x show "\<exists>s'. lifo_put s x = Some (True, s') \<and> lifo_over D s' (push xs x)"
    using lifo_push_ok [of "fst s" "snd s" xs x n] by (auto simp: lifo_over_def lifo_put_def push_def)
next
  fix s :: "'a fmem \<times> lifo_t"
  assume "lifo_over D s []"
  then show "lifo_take s = Some (None, s)"
    by (cases s) (auto simp: lifo_over_def lifo_take_def lifo_pop_def lifo_rep_def)
next
  fix s :: "'a fmem \<times> lifo_t" and x xs
  assume s: "lifo_over D s (x # xs)"
  then have x: "x \<noteq> NULL" by (simp add: lifo_over_def lifo_rep_def)
  obtain m' l' where "lifo_pop (fst s) (snd s) = Some (x, m', l')" "lifo_rep m' l' xs"
    "dom m' = dom (fst s)"
    using lifo_pop_ok [of "fst s" "snd s" x xs] s by (fastforce simp: lifo_over_def)
  with s x show "\<exists>s'. lifo_take s = Some (Some x, s') \<and> lifo_over D s' xs"
    by (simp add: lifo_over_def lifo_take_def)
qed

lemma xylem_stack_push_ok:
  assumes r: "xstack_nodes m s ns ds" and p: "p \<noteq> NULL" "p \<notin> dom m"
  shows "\<exists>m' s'. xylem_stack_push m s p d = Some (0, m', s') \<and> xstack_nodes m' s' (p # ns) (d # ds)
           \<and> (\<forall>x. x \<noteq> p \<longrightarrow> m' x = m x)"
proof -
  let ?m = "stack_wrap_alloc m p d"
  have l: "lifo_rep m s ns" using r by (simp add: xstack_nodes_def)
  then have np: "p \<notin> set ns" using p lifo_chain_nodes [of m "lifo_top s" ns] by (auto simp: lifo_rep_def)
  have "lifo_rep ?m s ns"
    using l np lifo_chain_frame [of m "lifo_top s" ns ?m]
    by (auto simp: lifo_rep_def stack_wrap_alloc_def)
  note ok = lifo_push_ok [OF this np p(1), of "\<lparr>fnext = NULL, stack_data = d\<rparr>"]
  show ?thesis
    using ok r p np by (auto simp: xylem_stack_push_def xstack_nodes_def stack_wrap_alloc_def
        split: if_splits)
qed

lemma xylem_stack_pop_ok:
  assumes r: "xstack_nodes m s (n # ns) ds"
  shows "\<exists>s'. xylem_stack_pop m s = Some (m(n := None), s') \<and> xstack_nodes (m(n := None)) s' ns (tl ds)"
proof -
  have l: "lifo_rep m s (n # ns)" using r by (simp add: xstack_nodes_def)
  then obtain nd where "m n = Some nd" "lifo_pop m s = Some (n, m(n \<mapsto> nd\<lparr>fnext := NULL\<rparr>),
      s\<lparr>lifo_top := fnext nd, lifo_nelts := lifo_nelts s - 1\<rparr>)"
    "lifo_rep (m(n \<mapsto> nd\<lparr>fnext := NULL\<rparr>)) (s\<lparr>lifo_top := fnext nd, lifo_nelts := lifo_nelts s - 1\<rparr>) ns"
    using lifo_pop_ok by blast
  moreover have "n \<noteq> NULL" "n \<notin> set ns" using l by (auto simp: lifo_rep_def)
  ultimately show ?thesis
    using r by (auto simp: xylem_stack_pop_def release_def xstack_nodes_def lifo_rep_def
        intro: lifo_chain_frame split: if_splits)
qed

lemma xylem_stack_clear_ok:
  assumes "xstack_nodes m s ns ds"
  shows "\<exists>s'. xylem_stack_clear m s = Some (\<lambda>x. if x \<in> set ns then None else m x, s')
           \<and> xstack_nodes (\<lambda>x. if x \<in> set ns then None else m x) s' [] []"
  using assms
proof (induction ns arbitrary: m s ds)
  case Nil
  then show ?case by (auto simp: xylem_stack_clear.simps xstack_nodes_def)
next
  case (Cons n ns)
  obtain s1 where d: "xylem_stack_pop m s = Some (m(n := None), s1)"
    "xstack_nodes (m(n := None)) s1 ns (tl ds)"
    using xylem_stack_pop_ok [OF Cons.prems] by blast
  have "\<not> lifo_empty s" using Cons.prems by (auto simp: xstack_nodes_def)
  then have "xylem_stack_clear m s = xylem_stack_clear (m(n := None)) s1"
    using d(1) by (simp add: xylem_stack_clear.simps [of m s])
  moreover have "(\<lambda>x. if x \<in> set ns then None else (m(n := None)) x) =
      (\<lambda>x. if x \<in> set (n # ns) then None else m x)" by auto
  ultimately show ?case using Cons.IH [OF d(2)] by (simp only:)
qed

section \<open>Properties\<close>

text \<open>C12. Every run of push and pop operations on the intrusive stack, over nodes that are not
  pushed twice, is memory safe and returns exactly what the same run returns on a list with
  insertion and removal at the head.\<close>

theorem lifo_refines_stack:
  assumes "lifo_over D s xs" and "seq_legal push (\<lambda>xs x. x \<in> D \<and> x \<notin> set xs) xs ops"
  shows "\<exists>s'. seq_exec lifo_put lifo_take s ops =
      Some (fst (seq_abs push (\<lambda>xs x. x \<in> D \<and> x \<notin> set xs) xs ops), s')
    \<and> lifo_over D s' (snd (seq_abs push (\<lambda>xs x. x \<in> D \<and> x \<notin> set xs) xs ops))"
  using lifo_seq.exec_legal [OF assms] .

theorem lifo_refines_stack_witness:
  "\<exists>s'. seq_exec lifo_put lifo_take
       ([2 \<mapsto> \<lparr>fnext = 0\<rparr>, 3 \<mapsto> \<lparr>fnext = 0\<rparr>], lifo_init) [Put 2, Put 3, Take, Take, Take] =
     Some ([Accepted True, Accepted True, Taken (Some 3), Taken (Some 2), Taken None], s')"
  using lifo_refines_stack [of "{2, 3}" "([2 \<mapsto> \<lparr>fnext = 0\<rparr>, 3 \<mapsto> \<lparr>fnext = 0\<rparr>], lifo_init)" "[]"
      "[Put 2, Put 3, Take, Take, Take]"]
  by (auto simp: lifo_over_def lifo_rep_def lifo_init_def push_def)

end
