(* ===== verification/Binary_Heap.thy ===== *)
theory Binary_Heap
  imports Contracts
begin

text \<open>
  The intrusive binary min-heap of \<open>src/container/heap.c\<close> (the queue of the scheduler's
  timers) and the owning \<open>xylem_heap\<close> of \<open>src/container/xylem-heap.c\<close>. The nodes form a
  complete binary tree linked by left, right and parent pointers; the position of the last
  node is found from the binary digits of the element count.

  The comparator \<open>cmp\<close> reads the structure that embeds the node. It is a parameter of the
  model, a function of the two node addresses.
\<close>

section \<open>Data\<close>

record heap_node =
  hleft :: ptr
  hright :: ptr
  hparent :: ptr

record heap_t =
  heap_root :: ptr
  heap_nelts :: u64

type_synonym 'a hmem = "'a heap_node_scheme mem"

text \<open>The C code walks down with a pointer to the link it will overwrite, \<open>&heap->root\<close>,
  \<open>&node->left\<close> or \<open>&node->right\<close>.\<close>

datatype link = LRoot | LLeft ptr | LRight ptr

fun get_link :: "'a hmem \<Rightarrow> heap_t \<Rightarrow> link \<Rightarrow> ptr option" where
  "get_link m h LRoot = Some (heap_root h)"
| "get_link m h (LLeft p) = map_option hleft (load m p)"
| "get_link m h (LRight p) = map_option hright (load m p)"

fun set_link :: "'a hmem \<Rightarrow> heap_t \<Rightarrow> link \<Rightarrow> ptr \<Rightarrow> ('a hmem \<times> heap_t) option" where
  "set_link m h LRoot v = Some (m, h\<lparr>heap_root := v\<rparr>)"
| "set_link m h (LLeft p) v = map_option (\<lambda>m. (m, h)) (modify m p (\<lambda>n. n\<lparr>hleft := v\<rparr>))"
| "set_link m h (LRight p) v = map_option (\<lambda>m. (m, h)) (modify m p (\<lambda>n. n\<lparr>hright := v\<rparr>))"

section \<open>Operations\<close>

text \<open>The structure assignment \<open>*dst = *src\<close> of two heap nodes.\<close>

definition copy_links :: "'a heap_node_scheme \<Rightarrow> 'b heap_node_scheme \<Rightarrow> 'a heap_node_scheme" where
  "copy_links dst src = dst\<lparr>hleft := hleft src, hright := hright src, hparent := hparent src\<rparr>"

definition heap_swap_node :: "'a hmem \<Rightarrow> heap_t \<Rightarrow> ptr \<Rightarrow> ptr \<Rightarrow> ('a hmem \<times> heap_t) option" where
  "heap_swap_node m h parent child = do {
     t \<leftarrow> load m parent;
     c0 \<leftarrow> load m child;
     m \<leftarrow> modify m parent (\<lambda>n. copy_links n c0);
     m \<leftarrow> modify m child (\<lambda>n. copy_links n t);
     m \<leftarrow> modify m parent (\<lambda>n. n\<lparr>hparent := child\<rparr>);
     c \<leftarrow> load m child;
     (m, sibling) \<leftarrow>
       (if hleft c = child
        then do { m \<leftarrow> modify m child (\<lambda>n. n\<lparr>hleft := parent\<rparr>); Some (m, hright c) }
        else do { m \<leftarrow> modify m child (\<lambda>n. n\<lparr>hright := parent\<rparr>); Some (m, hleft c) });
     m \<leftarrow> (if sibling \<noteq> NULL then modify m sibling (\<lambda>n. n\<lparr>hparent := child\<rparr>) else Some m);
     p \<leftarrow> load m parent;
     m \<leftarrow> (if hleft p \<noteq> NULL then modify m (hleft p) (\<lambda>n. n\<lparr>hparent := parent\<rparr>) else Some m);
     p \<leftarrow> load m parent;
     m \<leftarrow> (if hright p \<noteq> NULL then modify m (hright p) (\<lambda>n. n\<lparr>hparent := parent\<rparr>) else Some m);
     c \<leftarrow> load m child;
     if hparent c = NULL then Some (m, h\<lparr>heap_root := child\<rparr>)
     else do {
       g \<leftarrow> load m (hparent c);
       if hleft g = parent
       then do { m \<leftarrow> modify m (hparent c) (\<lambda>n. n\<lparr>hleft := child\<rparr>); Some (m, h) }
       else do { m \<leftarrow> modify m (hparent c) (\<lambda>n. n\<lparr>hright := child\<rparr>); Some (m, h) } } }"

definition heap_init :: "heap_t" where
  "heap_init = \<lparr>heap_root = NULL, heap_nelts = 0\<rparr>"

text \<open>The loop that pushes the binary digits of \<open>n\<close> below the leading one onto \<open>path\<close> and
  counts them in \<open>k\<close>.\<close>

function heap_path :: "u64 \<Rightarrow> u64 \<Rightarrow> u64 \<Rightarrow> u64 \<times> u64" where
  "heap_path path k n =
     (if n \<ge> 2 then heap_path (push_bit 1 path OR (n AND 1)) (k + 1) (n div 2) else (path, k))"
  by pat_completeness auto
termination
proof (relation "measure (\<lambda>(path, k, n). unat n)")
  fix path k n :: u64
  assume "2 \<le> n"
  then show "((push_bit 1 path OR n AND 1, k + 1, n div 2), path, k, n)
      \<in> measure (\<lambda>(path, k, n). unat n)"
    by (auto simp: unat_div word_le_nat_alt)
qed auto

declare heap_path.simps [simp del]

text \<open>The walk along \<open>path\<close>: the link reached and the link before it.\<close>

function heap_walk ::
  "'a hmem \<Rightarrow> heap_t \<Rightarrow> u64 \<Rightarrow> u64 \<Rightarrow> link \<Rightarrow> link \<Rightarrow> (link \<times> link) option" where
  "heap_walk m h path k parent child =
     (if k > 0 then
        do { c \<leftarrow> get_link m h child;
             heap_walk m h (drop_bit 1 path) (k - 1) child
               (if path AND 1 \<noteq> 0 then LRight c else LLeft c) }
      else Some (parent, child))"
  by pat_completeness auto
termination
proof (relation "measure (\<lambda>(m, h, path, k, parent, child). unat k)")
  fix k :: u64
  assume "0 < k"
  then show "((m, h, p, k - 1, l, l'), m', h', p', k, l'', l''')
      \<in> measure (\<lambda>(m, h, path, k, parent, child). unat k)" for m h p l l' m' h' p' l'' l'''
    by (auto simp: unat_minus_one word_gt_0 unat_gt_0)
qed auto

declare heap_walk.simps [simp del]

text \<open>\<open>while (node->parent != NULL && cmp(node, node->parent) < 0) swap(node->parent, node)\<close>\<close>

partial_function (option) heap_up ::
  "(ptr \<Rightarrow> ptr \<Rightarrow> int) \<Rightarrow> 'a hmem \<Rightarrow> heap_t \<Rightarrow> ptr \<Rightarrow> ('a hmem \<times> heap_t) option" where
  "heap_up cmp m h node = do {
     n \<leftarrow> load m node;
     if hparent n \<noteq> NULL \<and> cmp node (hparent n) < 0
     then do { (m, h) \<leftarrow> heap_swap_node m h (hparent n) node; heap_up cmp m h node }
     else Some (m, h) }"

text \<open>The downward loop of \<open>heap_remove\<close>.\<close>

partial_function (option) heap_down ::
  "(ptr \<Rightarrow> ptr \<Rightarrow> int) \<Rightarrow> 'a hmem \<Rightarrow> heap_t \<Rightarrow> ptr \<Rightarrow> ('a hmem \<times> heap_t) option" where
  "heap_down cmp m h child = do {
     c \<leftarrow> load m child;
     let smallest = child;
     let smallest = (if hleft c \<noteq> NULL \<and> cmp (hleft c) smallest < 0 then hleft c else smallest);
     let smallest = (if hright c \<noteq> NULL \<and> cmp (hright c) smallest < 0 then hright c else smallest);
     if smallest = child then Some (m, h)
     else do { (m, h) \<leftarrow> heap_swap_node m h child smallest; heap_down cmp m h child } }"

definition heap_insert ::
  "(ptr \<Rightarrow> ptr \<Rightarrow> int) \<Rightarrow> 'a hmem \<Rightarrow> heap_t \<Rightarrow> ptr \<Rightarrow> ('a hmem \<times> heap_t) option" where
  "heap_insert cmp m h node = do {
     m \<leftarrow> modify m node (\<lambda>n. n\<lparr>hleft := NULL, hright := NULL, hparent := NULL\<rparr>);
     let (path, k) = heap_path 0 0 (1 + heap_nelts h);
     (parent, child) \<leftarrow> heap_walk m h path k LRoot LRoot;
     p \<leftarrow> get_link m h parent;
     m \<leftarrow> modify m node (\<lambda>n. n\<lparr>hparent := p\<rparr>);
     (m, h) \<leftarrow> set_link m h child node;
     heap_up cmp m (h\<lparr>heap_nelts := heap_nelts h + 1\<rparr>) node }"

text \<open>The part of \<open>heap_remove\<close> that puts \<open>c\<close> in the place of \<open>p\<close>.\<close>

definition heap_replace :: "'a hmem \<Rightarrow> heap_t \<Rightarrow> ptr \<Rightarrow> ptr \<Rightarrow> ('a hmem \<times> heap_t) option" where
  "heap_replace m h node child = do {
     n \<leftarrow> load m node;
     m \<leftarrow> modify m child (\<lambda>c. copy_links c n);
     c \<leftarrow> load m child;
     m \<leftarrow> (if hleft c \<noteq> NULL then modify m (hleft c) (\<lambda>x. x\<lparr>hparent := child\<rparr>) else Some m);
     m \<leftarrow> (if hright c \<noteq> NULL then modify m (hright c) (\<lambda>x. x\<lparr>hparent := child\<rparr>) else Some m);
     n \<leftarrow> load m node;
     if hparent n = NULL then Some (m, h\<lparr>heap_root := child\<rparr>)
     else do {
       g \<leftarrow> load m (hparent n);
       if hleft g = node
       then do { m \<leftarrow> modify m (hparent n) (\<lambda>x. x\<lparr>hleft := child\<rparr>); Some (m, h) }
       else do { m \<leftarrow> modify m (hparent n) (\<lambda>x. x\<lparr>hright := child\<rparr>); Some (m, h) } } }"

definition heap_remove ::
  "(ptr \<Rightarrow> ptr \<Rightarrow> int) \<Rightarrow> 'a hmem \<Rightarrow> heap_t \<Rightarrow> ptr \<Rightarrow> ('a hmem \<times> heap_t) option" where
  "heap_remove cmp m h node =
     (if heap_nelts h = 0 then Some (m, h)
      else do {
        let (path, k) = heap_path 0 0 (heap_nelts h);
        (_, mx) \<leftarrow> heap_walk m h path k LRoot LRoot;
        let h = h\<lparr>heap_nelts := heap_nelts h - 1\<rparr>;
        child \<leftarrow> get_link m h mx;
        (m, h) \<leftarrow> set_link m h mx NULL;
        if child = node
        then Some (m, if child = heap_root h then h\<lparr>heap_root := NULL\<rparr> else h)
        else do {
          (m, h) \<leftarrow> heap_replace m h node child;
          (m, h) \<leftarrow> heap_down cmp m h child;
          heap_up cmp m h child } })"

definition heap_dequeue ::
  "(ptr \<Rightarrow> ptr \<Rightarrow> int) \<Rightarrow> 'a hmem \<Rightarrow> heap_t \<Rightarrow> ('a hmem \<times> heap_t) option" where
  "heap_dequeue cmp m h =
     (if heap_root h = NULL then Some (m, h) else heap_remove cmp m h (heap_root h))"

definition heap_empty :: "heap_t \<Rightarrow> bool" where
  "heap_empty h = (heap_nelts h = 0)"

definition heap_peek :: "heap_t \<Rightarrow> ptr" where
  "heap_peek h = heap_root h"

section \<open>Views of the store\<close>

definition hl :: "'a hmem \<Rightarrow> ptr \<Rightarrow> ptr" where "hl m p = hleft (the (m p))"
definition hr :: "'a hmem \<Rightarrow> ptr \<Rightarrow> ptr" where "hr m p = hright (the (m p))"
definition hp :: "'a hmem \<Rightarrow> ptr \<Rightarrow> ptr" where "hp m p = hparent (the (m p))"

definition set_hl :: "'a hmem \<Rightarrow> ptr \<Rightarrow> ptr \<Rightarrow> 'a hmem" where
  "set_hl m p v = m(p \<mapsto> (the (m p))\<lparr>hleft := v\<rparr>)"
definition set_hr :: "'a hmem \<Rightarrow> ptr \<Rightarrow> ptr \<Rightarrow> 'a hmem" where
  "set_hr m p v = m(p \<mapsto> (the (m p))\<lparr>hright := v\<rparr>)"
definition set_hp :: "'a hmem \<Rightarrow> ptr \<Rightarrow> ptr \<Rightarrow> 'a hmem" where
  "set_hp m p v = m(p \<mapsto> (the (m p))\<lparr>hparent := v\<rparr>)"

text \<open>The tree as the array of its nodes in level order: \<open>nd xs i\<close> is node number \<open>i\<close>, counted from 1,
  and \<open>NULL\<close> outside the tree. The children of \<open>i\<close> are \<open>2 * i\<close> and \<open>2 * i + 1\<close>.\<close>

definition nd :: "ptr list \<Rightarrow> nat \<Rightarrow> ptr" where
  "nd xs i = (if 0 < i \<and> i \<le> length xs then xs ! (i - 1) else NULL)"

definition hlinks :: "'a hmem \<Rightarrow> ptr list \<Rightarrow> bool" where
  "hlinks m xs \<longleftrightarrow> distinct xs \<and> NULL \<notin> set xs \<and> set xs \<subseteq> dom m \<and>
     (\<forall>i. 0 < i \<and> i \<le> length xs \<longrightarrow> hl m (nd xs i) = nd xs (2 * i) \<and>
        hr m (nd xs i) = nd xs (2 * i + 1) \<and> hp m (nd xs i) = nd xs (i div 2))"

definition heap_rep :: "'a hmem \<Rightarrow> heap_t \<Rightarrow> ptr list \<Rightarrow> bool" where
  "heap_rep m h xs \<longleftrightarrow> hlinks m xs \<and> heap_root h = nd xs 1 \<and> heap_nelts h = of_nat (length xs)"

text \<open>Only the links of the nodes in \<open>A\<close> change; what embeds a node never does.\<close>

definition hframe :: "ptr set \<Rightarrow> 'a hmem \<Rightarrow> 'a hmem \<Rightarrow> bool" where
  "hframe A m m' \<longleftrightarrow> (\<forall>p. p \<notin> A \<longrightarrow> m' p = m p) \<and>
     (\<forall>p. map_option heap_node.more (m' p) = map_option heap_node.more (m p))"

definition lswap :: "ptr list \<Rightarrow> nat \<Rightarrow> nat \<Rightarrow> ptr list" where
  "lswap xs i j = xs[i - 1 := nd xs j, j - 1 := nd xs i]"

named_theorems hp_simps \<open>execution of the heap functions on allocated nodes\<close>

text \<open>The fields after \<open>heap_swap_node\<close> on parent \<open>p\<close> and child \<open>c\<close>: \<open>s\<close> is the sibling of
  \<open>c\<close>, \<open>l\<close> and \<open>r\<close> its children, \<open>g\<close> the parent of \<open>p\<close>.\<close>

definition swapped :: "'a hmem \<Rightarrow> 'a hmem \<Rightarrow> ptr \<Rightarrow> ptr \<Rightarrow> ptr \<Rightarrow> ptr \<Rightarrow> ptr \<Rightarrow> ptr \<Rightarrow> bool" where
  "swapped m m' p c s l r g \<longleftrightarrow> (\<forall>q. q \<noteq> NULL \<longrightarrow>
     hl m' q = (if q = p then l else if q = c then (if hl m p = c then p else hl m p)
                else if q = g \<and> hl m g = p then c else hl m q) \<and>
     hr m' q = (if q = p then r else if q = c then (if hl m p = c then hr m p else p)
                else if q = g \<and> hl m g \<noteq> p then c else hr m q) \<and>
     hp m' q = (if q = c then g else if q = p \<or> q = s then c
                else if q = l \<or> q = r then p else hp m q))"

text \<open>The digits of the walk, the first to be taken at the head.\<close>

fun bits_val :: "bool list \<Rightarrow> nat" where
  "bits_val [] = 0"
| "bits_val (b # bs) = of_bool b + 2 * bits_val bs"

fun descend :: "nat \<Rightarrow> bool list \<Rightarrow> nat" where
  "descend i [] = i"
| "descend i (b # bs) = descend (2 * i + of_bool b) bs"

definition slot :: "ptr list \<Rightarrow> nat \<Rightarrow> link" where
  "slot xs i = (if i \<le> 1 then LRoot else if even i then LLeft (nd xs (i div 2)) else LRight (nd xs (i div 2)))"

text \<open>The heap order, and the two weaker invariants while node \<open>i\<close> is on its way up or down.\<close>

definition is_heap :: "(ptr \<Rightarrow> 'k::linorder) \<Rightarrow> ptr list \<Rightarrow> bool" where
  "is_heap key xs \<longleftrightarrow> (\<forall>k. 1 < k \<and> k \<le> length xs \<longrightarrow> key (nd xs (k div 2)) \<le> key (nd xs k))"

definition up_inv :: "(ptr \<Rightarrow> 'k::linorder) \<Rightarrow> ptr list \<Rightarrow> nat \<Rightarrow> bool" where
  "up_inv key xs i \<longleftrightarrow> (\<forall>k. 1 < k \<and> k \<le> length xs \<longrightarrow>
     (k \<noteq> i \<longrightarrow> key (nd xs (k div 2)) \<le> key (nd xs k)) \<and>
     (k div 2 = i \<and> 1 < i \<longrightarrow> key (nd xs (i div 2)) \<le> key (nd xs k)))"

definition down_inv :: "(ptr \<Rightarrow> 'k::linorder) \<Rightarrow> ptr list \<Rightarrow> nat \<Rightarrow> bool" where
  "down_inv key xs i \<longleftrightarrow> (\<forall>k. 1 < k \<and> k \<le> length xs \<longrightarrow>
     (k \<noteq> i \<and> k div 2 \<noteq> i \<longrightarrow> key (nd xs (k div 2)) \<le> key (nd xs k)) \<and>
     (k div 2 = i \<and> 1 < i \<longrightarrow> key (nd xs (i div 2)) \<le> key (nd xs k)))"

text \<open>The comparator orders the nodes of \<open>A\<close> by a key.\<close>

definition compares :: "ptr set \<Rightarrow> (ptr \<Rightarrow> ptr \<Rightarrow> int) \<Rightarrow> (ptr \<Rightarrow> 'k::linorder) \<Rightarrow> bool" where
  "compares A cmp key \<longleftrightarrow> (\<forall>a \<in> A. \<forall>b \<in> A. cmp a b < 0 \<longleftrightarrow> key a < key b)"

definition smallest_child :: "(ptr \<Rightarrow> 'k::linorder) \<Rightarrow> ptr list \<Rightarrow> nat \<Rightarrow> nat" where
  "smallest_child key xs i =
     (let s = (if 2 * i \<le> length xs \<and> key (nd xs (2 * i)) < key (nd xs i) then 2 * i else i)
      in if 2 * i + 1 \<le> length xs \<and> key (nd xs (2 * i + 1)) < key (nd xs s) then 2 * i + 1 else s)"

text \<open>The fields after \<open>heap_replace\<close>.\<close>

definition replaced :: "'a hmem \<Rightarrow> 'a hmem \<Rightarrow> ptr \<Rightarrow> ptr \<Rightarrow> ptr \<Rightarrow> ptr \<Rightarrow> ptr \<Rightarrow> bool" where
  "replaced m m' p c l r g \<longleftrightarrow> (\<forall>q. q \<noteq> NULL \<longrightarrow>
     hl m' q = (if q = c then l else if q = g \<and> hl m g = p then c else hl m q) \<and>
     hr m' q = (if q = c then r else if q = g \<and> hl m g \<noteq> p then c else hr m q) \<and>
     hp m' q = (if q = c then g else if q = l \<or> q = r then c else hp m q))"

section \<open>Correctness\<close>

lemma h_load [hp_simps]: "p \<noteq> NULL \<Longrightarrow> p \<in> dom m \<Longrightarrow> load m p = Some (the (m p))"
  by (auto simp: load_def)

lemma h_modify [hp_simps]:
  assumes "p \<noteq> NULL" and "p \<in> dom m"
  shows "modify m p (\<lambda>n. n\<lparr>hleft := v\<rparr>) = Some (set_hl m p v)"
    "modify m p (\<lambda>n. n\<lparr>hright := v\<rparr>) = Some (set_hr m p v)"
    "modify m p (\<lambda>n. n\<lparr>hparent := v\<rparr>) = Some (set_hp m p v)"
    "modify m p (\<lambda>n. copy_links n c) =
       Some (set_hp (set_hr (set_hl m p (hleft c)) p (hright c)) p (hparent c))"
  using assms by (auto simp: modify_def load_def set_hl_def set_hr_def set_hp_def copy_links_def)

lemma h_dom [hp_simps]:
  "dom (set_hl m p v) = insert p (dom m)" "dom (set_hr m p v) = insert p (dom m)"
  "dom (set_hp m p v) = insert p (dom m)"
  by (auto simp: set_hl_def set_hr_def set_hp_def)

lemma h_sel [hp_simps]:
  "hl (set_hl m p v) = (hl m)(p := v)" "hl (set_hr m p v) = hl m" "hl (set_hp m p v) = hl m"
  "hr (set_hl m p v) = hr m" "hr (set_hr m p v) = (hr m)(p := v)" "hr (set_hp m p v) = hr m"
  "hp (set_hl m p v) = hp m" "hp (set_hr m p v) = hp m" "hp (set_hp m p v) = (hp m)(p := v)"
  by (auto simp: set_hl_def set_hr_def set_hp_def hl_def hr_def hp_def)

lemma h_the [hp_simps]:
  "hleft (the (m p)) = hl m p" "hright (the (m p)) = hr m p" "hparent (the (m p)) = hp m p"
  by (simp_all add: hl_def hr_def hp_def)

lemma hframe_refl [simp]: "hframe A m m"
  by (simp add: hframe_def)

lemma hframe_set:
  assumes "hframe A m m'" and "p \<in> A" and "p \<in> dom m'"
  shows "hframe A m (set_hl m' p v)" "hframe A m (set_hr m' p v)" "hframe A m (set_hp m' p v)"
  using assms by (auto simp: hframe_def set_hl_def set_hr_def set_hp_def dest!: spec [of _ p])

lemma nd_in: "0 < i \<Longrightarrow> i \<le> length xs \<Longrightarrow> nd xs i \<in> set xs"
  by (simp add: nd_def)

lemma nd_eq_iff:
  "distinct xs \<Longrightarrow> NULL \<notin> set xs \<Longrightarrow> 0 < i \<Longrightarrow> i \<le> length xs \<Longrightarrow> nd xs i = nd xs j \<longleftrightarrow> i = j"
  by (auto simp: nd_def nth_eq_iff_index_eq in_set_conv_nth)

lemma nd_NULL_iff: "NULL \<notin> set xs \<Longrightarrow> nd xs i = NULL \<longleftrightarrow> i = 0 \<or> length xs < i"
  by (auto simp: nd_def in_set_conv_nth)

lemma nd_lswap:
  assumes "0 < i" "i \<le> length xs" "0 < j" "j \<le> length xs"
  shows "nd (lswap xs i j) k = (if k = i then nd xs j else if k = j then nd xs i else nd xs k)"
  using assms by (cases i; cases j; cases k) (simp_all add: nd_def lswap_def nth_list_update)

lemma mset_lswap:
  assumes "0 < i" "i \<le> length xs" "0 < j" "j \<le> length xs"
  shows "mset (lswap xs i j) = mset xs"
  using assms mset_swap [of "j - 1" xs "i - 1"] by (simp add: lswap_def nd_def)

lemma length_lswap [simp]: "length (lswap xs i j) = length xs"
  by (simp add: lswap_def)

lemma heap_swap_node_run:
  assumes "p \<noteq> NULL" "c \<noteq> NULL" "p \<noteq> c" "p \<in> dom m" "c \<in> dom m"
    and s: "s = (if hl m p = c then hr m p else hl m p)" "s \<noteq> NULL \<Longrightarrow> s \<in> dom m \<and> s \<noteq> p \<and> s \<noteq> c"
    and l: "l = hl m c" "l \<noteq> NULL \<Longrightarrow> l \<in> dom m \<and> l \<noteq> p \<and> l \<noteq> c \<and> l \<noteq> s"
    and r: "r = hr m c" "r \<noteq> NULL \<Longrightarrow> r \<in> dom m \<and> r \<noteq> p \<and> r \<noteq> c \<and> r \<noteq> s \<and> r \<noteq> l"
    and g: "g = hp m p" "g \<noteq> NULL \<Longrightarrow> g \<in> dom m \<and> g \<noteq> p \<and> g \<noteq> c \<and> g \<noteq> s \<and> g \<noteq> l \<and> g \<noteq> r"
  shows "\<exists>m'. heap_swap_node m h p c =
      Some (m', if g = NULL then h\<lparr>heap_root := c\<rparr> else h) \<and> hframe ({p, c, s, l, r, g} - {NULL}) m m' \<and>
      swapped m m' p c s l r g"
proof -
  have d: "p \<in> dom m" "c \<in> dom m" and n: "p \<noteq> NULL" "c \<noteq> NULL" "p \<noteq> c" "c \<noteq> p" using assms by auto
  define m1 where "m1 = set_hp (set_hr (set_hl m p (hl m c)) p (hr m c)) p (hp m c)"
  define m2 where "m2 = set_hp (set_hr (set_hl m1 c (hl m p)) c (hr m p)) c (hp m p)"
  define m3 where "m3 = set_hp m2 p c"
  define m4 where "m4 = (if hl m p = c then set_hl m3 c p else set_hr m3 c p)"
  define m5 where "m5 = (if s = NULL then m4 else set_hp m4 s c)"
  define m6 where "m6 = (if l = NULL then m5 else set_hp m5 l p)"
  define m7 where "m7 = (if r = NULL then m6 else set_hp m6 r p)"
  define m8 where "m8 = (if g = NULL then m7 else if hl m g = p then set_hl m7 g c else set_hr m7 g c)"
  have m1: "modify m p (\<lambda>n. copy_links n (the (m c))) = Some m1" "dom m1 = dom m"
    using d n by (simp_all add: m1_def hp_simps insert_absorb)
  have m2: "modify m1 c (\<lambda>n. copy_links n (the (m p))) = Some m2" "dom m2 = dom m"
    using d n by (simp_all add: m2_def hp_simps insert_absorb m1)
  have m3: "modify m2 p (\<lambda>n. n\<lparr>hparent := c\<rparr>) = Some m3" "dom m3 = dom m"
    using d n by (simp_all add: m3_def hp_simps insert_absorb m2)
  have v3: "hl m3 = (hl m)(p := l, c := hl m p)" "hr m3 = (hr m)(p := r, c := hr m p)"
     "hp m3 = (hp m)(c := g, p := c)"
    using d n unfolding m3_def m2_def m1_def by (auto simp: hp_simps l r g)
  have m4: "(if hl m p = c then do { m' \<leftarrow> modify m3 c (\<lambda>n. n\<lparr>hleft := p\<rparr>); Some (m', hr m p) }
        else do { m' \<leftarrow> modify m3 c (\<lambda>n. n\<lparr>hright := p\<rparr>); Some (m', hl m p) }) = Some (m4, s)" "dom m4 = dom m"
    using d n by (simp_all add: m4_def hp_simps insert_absorb m3 s(1))
  have m5: "(if s \<noteq> NULL then modify m4 s (\<lambda>n. n\<lparr>hparent := c\<rparr>) else Some m4) = Some m5" "dom m5 = dom m"
    using s(2) by (auto simp add: m5_def hp_simps insert_absorb m4)
  have m6: "(if l \<noteq> NULL then modify m5 l (\<lambda>n. n\<lparr>hparent := p\<rparr>) else Some m5) = Some m6" "dom m6 = dom m"
    using l(2) by (auto simp add: m6_def hp_simps insert_absorb m5)
  have m7: "(if r \<noteq> NULL then modify m6 r (\<lambda>n. n\<lparr>hparent := p\<rparr>) else Some m6) = Some m7" "dom m7 = dom m"
    using r(2) by (auto simp add: m7_def hp_simps insert_absorb m6)
  have v7: "hl m7 = hl m4" "hr m7 = hr m4" "hl m6 = hl m4" "hr m6 = hr m4" "hl m5 = hl m4" "hr m5 = hr m4"
    by (simp_all add: m7_def m6_def m5_def hp_simps)
  have v4: "hl m4 = (hl m)(p := l, c := if hl m p = c then p else hl m p)" 
     "hr m4 = (hr m)(p := r, c := if hl m p = c then hr m p else p)"  "hp m4 = (hp m)(c := g, p := c)"
    by (simp_all add: m4_def hp_simps v3)
  have p7: "hp m7 q = (if q = c then g else if q = p \<or> q = s then c else if q = l \<or> q = r then p else hp m q)"
    if "q \<noteq> NULL" for q
    using that n s(2) l(2) r(2) by (auto simp: m7_def m6_def m5_def hp_simps v4)
  have m8: "(if g = NULL then Some (m7, h\<lparr>heap_root := c\<rparr>)
     else do {
       n \<leftarrow> load m7 g;
       if hleft n = p
       then do { m \<leftarrow> modify m7 g (\<lambda>n. n\<lparr>hleft := c\<rparr>); Some (m, h) }
       else do { m \<leftarrow> modify m7 g (\<lambda>n. n\<lparr>hright := c\<rparr>); Some (m, h) } }) =
     Some (m8, if g = NULL then h\<lparr>heap_root := c\<rparr> else h)" "dom m8 = dom m"
    using g(2) by (auto simp add: m8_def hp_simps insert_absorb m7 v7 v4)
  define A where "A = {p, c, s, l, r, g} - {NULL}"
  have A: "p \<in> A" "c \<in> A" "s \<noteq> NULL \<Longrightarrow> s \<in> A" "l \<noteq> NULL \<Longrightarrow> l \<in> A" "r \<noteq> NULL \<Longrightarrow> r \<in> A"
    "g \<noteq> NULL \<Longrightarrow> g \<in> A" using n by (auto simp: A_def)
  have "hframe A m m1" unfolding m1_def using A d by (simp add: hframe_set h_dom)
  then have "hframe A m m2" unfolding m2_def using A d by (simp add: hframe_set h_dom m1)
  then have "hframe A m m4" unfolding m4_def m3_def using A d by (simp add: hframe_set h_dom m2)
  then have "hframe A m m5" unfolding m5_def using s(2) A by (simp add: hframe_set m4)
  then have "hframe A m m6" unfolding m6_def using l(2) A by (simp add: hframe_set m5)
  then have "hframe A m m7" unfolding m7_def using r(2) A by (simp add: hframe_set m6)
  then have fr: "hframe A m m8" unfolding m8_def using g(2) A by (simp add: hframe_set m7)
  have run: "heap_swap_node m h p c = Some (m8, if g = NULL then h\<lparr>heap_root := c\<rparr> else h)"
    unfolding heap_swap_node_def
    using p7 [of c] by (simp add: h_load d n m1 m2 m3 h_the v3 v7 v4 m4(2) m4(1) m5 m6 m7 m8 cong: if_cong)
  have p8: "hp m8 = hp m7" by (simp add: m8_def hp_simps)
  have v8: "hl m8 q = (if q = p then l else if q = c then (if hl m p = c then p else hl m p)
                   else if q = g \<and> hl m g = p then c else hl m q)"
    "hr m8 q = (if q = p then r else if q = c then (if hl m p = c then hr m p else p)
                   else if q = g \<and> hl m g \<noteq> p then c else hr m q)" if "q \<noteq> NULL" for q
    using that n g(2) by (auto simp: m8_def hp_simps v7 v4)
  show ?thesis
    unfolding swapped_def
    by (intro exI [of _ m8] conjI allI impI run v8 fr [unfolded A_def] p7 [folded p8])
qed

lemma hframe_mono: "hframe A m m' \<Longrightarrow> A \<subseteq> B \<Longrightarrow> hframe B m m'"
  by (auto simp: hframe_def)

lemma hframe_trans: "hframe A m m' \<Longrightarrow> hframe A m' m'' \<Longrightarrow> hframe A m m''"
  by (simp add: hframe_def)

lemma hframe_dom: "hframe A m m' \<Longrightarrow> dom m' = dom m"
proof -
  assume f: "hframe A m m'"
  have "m' p = None \<longleftrightarrow> m p = None" for p
    using f unfolding hframe_def by (metis option.map_disc_iff)
  then show "dom m' = dom m" by (simp add: dom_def)
qed

lemma hlinksD:
  assumes "hlinks m xs"
  shows "distinct xs" "NULL \<notin> set xs" "set xs \<subseteq> dom m"
    "0 < k \<Longrightarrow> k \<le> length xs \<Longrightarrow> hl m (nd xs k) = nd xs (2 * k)"
    "0 < k \<Longrightarrow> k \<le> length xs \<Longrightarrow> hr m (nd xs k) = nd xs (2 * k + 1)"
    "0 < k \<Longrightarrow> k \<le> length xs \<Longrightarrow> hp m (nd xs k) = nd xs (k div 2)"
    "0 < k \<Longrightarrow> k \<le> length xs \<Longrightarrow> nd xs k \<in> dom m"
    "0 < k \<Longrightarrow> k \<le> length xs \<Longrightarrow> nd xs k \<noteq> NULL"
  using assms nd_in [of k xs] unfolding hlinks_def by (simp, simp, simp, simp, simp, simp, blast, metis)

lemma hl_eq_iff:
  assumes "hlinks m xs" "0 < k" "k \<le> length xs" "0 < i" "i \<le> length xs"
  shows "hl m (nd xs k) = nd xs i \<longleftrightarrow> i = 2 * k"
  using hlinksD(4) [OF assms(1-3)] nd_eq_iff [OF hlinksD(1,2) [OF assms(1)] assms(4,5), of "2 * k"]
  by metis

lemma hlinks_ne:
  assumes "hlinks m xs" "nd xs a \<noteq> NULL"
  shows "nd xs a \<in> dom m" "a \<noteq> b \<Longrightarrow> nd xs a \<noteq> nd xs b"
  using assms hlinksD [OF assms(1)] nd_eq_iff [of xs a b] nd_NULL_iff [of xs a] by auto

lemma heap_swap_node_links:
  assumes R: "hlinks m xs" and j: "0 < j" and ij: "i = 2 * j \<or> i = 2 * j + 1"
    and i: "i \<le> length xs" and gj: "j = 2 * g \<or> j = 2 * g + 1"
    and s: "s = (if i = 2 * j then 2 * j + 1 else 2 * j)"
  shows "\<exists>m'. heap_swap_node m h (nd xs j) (nd xs i) =
      Some (m', if nd xs g = NULL then h\<lparr>heap_root := nd xs i\<rparr> else h) \<and>
      hframe ({nd xs j, nd xs i, nd xs s, nd xs (2 * i), nd xs (2 * i + 1), nd xs g} - {NULL}) m m' \<and>
      swapped m m' (nd xs j) (nd xs i) (nd xs s) (nd xs (2 * i)) (nd xs (2 * i + 1)) (nd xs g)"
proof -
  let ?n = "nd xs"
  have jl: "j \<le> length xs" "j < i" "0 < i" using i j ij by auto
  note d = hlinksD [OF R] and dn = hlinks_ne(1) [OF R] and ne = hlinks_ne(2) [OF R]
  have lf: "hl m (?n j) = ?n i \<longleftrightarrow> i = 2 * j" using hl_eq_iff [OF R j jl(1,3) i] .
  show ?thesis
  proof (rule heap_swap_node_run)
    show "?n j \<noteq> NULL" "?n i \<noteq> NULL" "?n j \<in> dom m" "?n i \<in> dom m"
      using d(7,8) [OF j jl(1)] d(7,8) [OF jl(3) i] by simp_all
    show "?n j \<noteq> ?n i" using nd_eq_iff [OF d(1,2) j jl(1)] jl by simp
    show "?n s = (if hl m (?n j) = ?n i then hr m (?n j) else hl m (?n j))"
      using d(4,5) [OF j jl(1)] lf by (simp add: s)
    show "?n (2 * i) = hl m (?n i)" "?n (2 * i + 1) = hr m (?n i)" "?n g = hp m (?n j)"
      using d(4,5) [OF jl(3) i] d(6) [OF j jl(1)] gj by auto
    show "?n s \<in> dom m \<and> ?n s \<noteq> ?n j \<and> ?n s \<noteq> ?n i" if "?n s \<noteq> NULL"
      by (intro conjI dn [OF that] ne [OF that]) (use ij gj j in \<open>auto simp: s\<close>)+
    show "?n (2 * i) \<in> dom m \<and> ?n (2 * i) \<noteq> ?n j \<and> ?n (2 * i) \<noteq> ?n i \<and> ?n (2 * i) \<noteq> ?n s"
      if "?n (2 * i) \<noteq> NULL"
      by (intro conjI dn [OF that] ne [OF that]) (use ij gj j in \<open>auto simp: s\<close>)+
    show "?n (2 * i + 1) \<in> dom m \<and> ?n (2 * i + 1) \<noteq> ?n j \<and> ?n (2 * i + 1) \<noteq> ?n i
        \<and> ?n (2 * i + 1) \<noteq> ?n s \<and> ?n (2 * i + 1) \<noteq> ?n (2 * i)" if "?n (2 * i + 1) \<noteq> NULL"
      by (intro conjI dn [OF that] ne [OF that]) (use ij gj j in \<open>auto simp: s\<close>)+
    show "?n g \<in> dom m \<and> ?n g \<noteq> ?n j \<and> ?n g \<noteq> ?n i
        \<and> ?n g \<noteq> ?n s \<and> ?n g \<noteq> ?n (2 * i) \<and> ?n g \<noteq> ?n (2 * i + 1)"
      if "?n g \<noteq> NULL"
      by (intro conjI dn [OF that] ne [OF that]) (use ij gj j in \<open>auto simp: s\<close>)+
  qed
qed

lemma swapped_index:
  assumes R: "hlinks m xs" and j: "0 < j" and ij: "i = 2 * j \<or> i = 2 * j + 1"
    and i: "i \<le> length xs" and gj: "j = 2 * g \<or> j = 2 * g + 1"
    and s: "s = (if i = 2 * j then 2 * j + 1 else 2 * j)"
    and F: "swapped m m' (nd xs j) (nd xs i) (nd xs s) (nd xs (2 * i)) (nd xs (2 * i + 1)) (nd xs g)"
    and k: "0 < k" "k \<le> length xs"
  shows "hl m' (nd xs k) = (if k = j then nd xs (2 * i)
           else if k = i then (if i = 2 * j then nd xs j else nd xs (2 * j))
           else if 2 * k = j then nd xs i else nd xs (2 * k))"
    "hr m' (nd xs k) = (if k = j then nd xs (2 * i + 1)
           else if k = i then (if i = 2 * j then nd xs (2 * j + 1) else nd xs j)
           else if 2 * k + 1 = j then nd xs i else nd xs (2 * k + 1))"
    "hp m' (nd xs k) = (if k = i then nd xs g
           else if k = j \<or> k = 2 * j \<or> k = 2 * j + 1 then nd xs i
           else if k = 2 * i \<or> k = 2 * i + 1 then nd xs j else nd xs (k div 2))"
proof -
  let ?n = "nd xs"
  have jl: "j \<le> length xs" "j < i" "0 < i" using i j ij by auto
  note d = hlinksD [OF R] note eq = nd_eq_iff [OF d(1,2) k]
  have lf: "hl m (?n j) = ?n i \<longleftrightarrow> i = 2 * j" using hl_eq_iff [OF R j jl(1,3) i] .
  have lg: "hl m (?n g) = ?n j \<longleftrightarrow> j = 2 * g" if "1 < j"
    by (rule hl_eq_iff [OF R _ _ j jl(1)]) (use gj jl that in linarith)+
  have gk: "1 < j" if "k = g" using that k gj by linarith
  note F' = F [unfolded swapped_def, rule_format, OF d(8) [OF k], unfolded eq lf d(4-6) [OF k]]
  have "k = g \<and> hl m (?n g) = ?n j \<longleftrightarrow> 2 * k = j"
    by (cases "k = g") (use lg gk k gj in \<open>simp; linarith\<close>)+
  then show "hl m' (?n k) = (if k = j then ?n (2 * i)
           else if k = i then (if i = 2 * j then ?n j else ?n (2 * j))
           else if 2 * k = j then ?n i else ?n (2 * k))"
    using F' unfolding d(4) [OF j jl(1)] by simp
  have "k = g \<and> hl m (?n g) \<noteq> ?n j \<longleftrightarrow> 2 * k + 1 = j"
    by (cases "k = g") (use lg gk k gj in \<open>simp; linarith\<close>)+
  then show "hr m' (?n k) = (if k = j then ?n (2 * i + 1)
           else if k = i then (if i = 2 * j then ?n (2 * j + 1) else ?n j)
           else if 2 * k + 1 = j then ?n i else ?n (2 * k + 1))"
    using F' unfolding d(5) [OF j jl(1)] by simp
  show "hp m' (?n k) = (if k = i then ?n g
           else if k = j \<or> k = 2 * j \<or> k = 2 * j + 1 then ?n i
           else if k = 2 * i \<or> k = 2 * i + 1 then ?n j else ?n (k div 2))"
    using F' ij unfolding s by simp linarith
qed

lemma heap_swap_node_ok:
  assumes r: "heap_rep m h xs" and i: "1 < i" "i \<le> length xs"
  shows "\<exists>m' h'. heap_swap_node m h (nd xs (i div 2)) (nd xs i) = Some (m', h')
     \<and> heap_rep m' h' (lswap xs (i div 2) i) \<and> hframe (set xs) m m'"
proof -
  define j where "j = i div 2" define g where "g = j div 2"
  have j: "0 < j" "i = 2 * j \<or> i = 2 * j + 1" "j = 2 * g \<or> j = 2 * g + 1" "j \<le> length xs" "0 < i"
    using i by (auto simp: j_def g_def)
  have R: "hlinks m xs" "heap_root h = nd xs 1" "heap_nelts h = of_nat (length xs)"
    using r by (auto simp: heap_rep_def)
  obtain m' where run: "heap_swap_node m h (nd xs j) (nd xs i) =
      Some (m', if nd xs g = NULL then h\<lparr>heap_root := nd xs i\<rparr> else h)"
    and f0: "hframe ({nd xs j, nd xs i, nd xs (if i = 2 * j then 2 * j + 1 else 2 * j),
      nd xs (2 * i), nd xs (2 * i + 1), nd xs g} - {NULL}) m m'"
    and w: "swapped m m' (nd xs j) (nd xs i) (nd xs (if i = 2 * j then 2 * j + 1 else 2 * j))
      (nd xs (2 * i)) (nd xs (2 * i + 1)) (nd xs g)"
    using heap_swap_node_links [OF R(1) j(1,2) i(2) j(3) refl] by blast
  note x = swapped_index [OF R(1) j(1,2) i(2) j(3) refl w]
  have f: "hframe (set xs) m m'"
    by (rule hframe_mono [OF f0]) (auto simp: nd_NULL_iff [OF hlinksD(2) [OF R(1)]] intro!: nd_in)
  let ?x = "lswap xs j i"
  note J = j
  have ne: "j \<noteq> i" "i \<noteq> j" "2 * i \<noteq> j" "2 * i + 1 \<noteq> j" "i div 2 = j" "j div 2 = g" "g \<noteq> j" "g \<noteq> i"
    using j by (auto simp: j_def g_def)
  have nx: "nd ?x k = (if k = j then nd xs i else if k = i then nd xs j else nd xs k)" for k
    using nd_lswap j i by simp
  have "hl m' (nd ?x k) = nd ?x (2 * k) \<and> hr m' (nd ?x k) = nd ?x (2 * k + 1)
      \<and> hp m' (nd ?x k) = nd ?x (k div 2)" if k: "0 < k" "k \<le> length xs" for k
  proof -
    consider (j) "k = j" | (i) "k = i" | (other) "k \<noteq> j" "k \<noteq> i" by blast
    then show ?thesis
    proof cases
      case j
      then show ?thesis using x [OF J(5) i(2)] ne J(1,2) unfolding nx by (cases "i = 2 * j") simp_all
    next
      case i
      then show ?thesis using x [OF J(1,4)] ne J(5) by (simp add: nx)
    next
      case other
      have "2 * k \<noteq> i" "2 * k + 1 \<noteq> i" "k = 2 * j \<or> k = 2 * j + 1 \<longleftrightarrow> k div 2 = j"
        "k = 2 * i \<or> k = 2 * i + 1 \<longleftrightarrow> k div 2 = i" using other J(2) by auto
      then show ?thesis using x [OF k] other ne k by (simp add: nx)
    qed
  qed
  moreover have "mset ?x = mset xs" using mset_lswap j i by simp
  then have "set ?x = set xs" "distinct ?x = distinct xs"
    by (metis set_mset_mset, metis mset_eq_imp_distinct_iff)
  ultimately have "hlinks m' ?x"
    using hlinksD(1-3) [OF R(1)] hframe_dom [OF f] by (simp add: hlinks_def)
  moreover have "nd xs g = NULL \<longleftrightarrow> j = 1"
    using nd_NULL_iff [OF hlinksD(2) [OF R(1)], of g] j by auto
  ultimately show ?thesis
    using run f R(2,3) j i unfolding j_def [symmetric] by (auto simp: heap_rep_def nx)
qed
lemma descend_ge: "i * 2 ^ length bs \<le> descend i bs"
proof (induction bs arbitrary: i)
  case (Cons b bs)
  have "i * 2 ^ length (b # bs) \<le> (2 * i + of_bool b) * 2 ^ length bs" by (simp add: add_mult_distrib)
  then show ?case using Cons.IH [of "2 * i + of_bool b"] unfolding descend.simps by (rule le_trans)
qed simp

lemma bits_val_lt: "bits_val bs < 2 ^ length bs"
  by (induction bs) (auto simp: of_bool_def)

lemma push_bit_or:
  fixes w n :: u64
  shows "push_bit 1 w OR (n AND 1) = 2 * w + of_bool (odd n)"
proof -
  have "push_bit 1 w AND (n AND 1) = 0" 
    by (simp add: and_one_eq mod_2_eq_odd)
  then have "push_bit 1 w OR (n AND 1) = push_bit 1 w + (n AND 1)"
    by (metis add_0 word_plus_and_or)
  then show ?thesis by (simp add: and_one_eq push_bit_eq_mult mod_2_eq_odd)
qed

lemma heap_path_ok:
  assumes "0 < n" "descend n bs < 2 ^ 64"
  shows "\<exists>bs'. heap_path (of_nat (bits_val bs)) (of_nat (length bs)) (of_nat n) =
      (of_nat (bits_val bs'), of_nat (length bs')) \<and> descend 1 bs' = descend n bs"
  using assms
proof (induction n arbitrary: bs rule: less_induct)
  case (less n)
  have "n \<le> n * 2 ^ length bs" by simp
  then have n: "n < 2 ^ 64" using descend_ge [of n bs] less.prems(2) by linarith
  then have u: "unat (of_nat n :: u64) = n" by (simp add: unat_of_nat)
  show ?case
  proof (cases "2 \<le> n")
    case False
    then have "n = 1" using less.prems by simp
    then show ?thesis by (subst heap_path.simps) (auto simp: word_le_nat_alt)
  next
    case True
    let ?b = "odd n"
    have e: "descend (n div 2) (?b # bs) = descend n bs" by (simp)
    have w: "(2::u64) \<le> of_nat n" using True u by (simp add: word_le_nat_alt)
    have o: "odd (of_nat n :: u64) = odd n" by simp
    have dv: "(of_nat n :: u64) div 2 = of_nat (n div 2)"
      using u n by (intro word_unat_eq_iff [THEN iffD2]) (simp add: unat_div unat_of_nat)
    obtain bs' where "heap_path (of_nat (bits_val (?b # bs))) (of_nat (length (?b # bs))) (of_nat (n div 2)) =
      (of_nat (bits_val bs'), of_nat (length bs'))" "descend 1 bs' = descend n bs"
      using less.IH [of "n div 2" "?b # bs"] e True less.prems by auto
    moreover have "heap_path (of_nat (bits_val bs)) (of_nat (length bs)) (of_nat n) =
      heap_path (of_nat (bits_val (?b # bs))) (of_nat (length (?b # bs))) (of_nat (n div 2))"
      unfolding heap_path.simps [of "of_nat (bits_val bs)" "of_nat (length bs)"] push_bit_or dv o
      using w by (simp add: algebra_simps)
    ultimately show ?thesis by auto
  qed
qed

lemma descend_mono: "i \<le> descend i bs"
proof -
  have "i \<le> i * 2 ^ length bs" by simp
  then show ?thesis using descend_ge le_trans by blast
qed

lemma get_slot:
  assumes "heap_rep m h xs" "0 < i" "i div 2 \<le> length xs"
  shows "get_link m h (slot xs i) = Some (nd xs i)"
proof (cases "i = 1")
  case True
  then show ?thesis using assms by (simp add: slot_def heap_rep_def)
next
  case False
  then have i: "0 < i div 2" using assms by auto
  have R: "hlinks m xs" using assms by (simp add: heap_rep_def)
  note d = hlinksD(4,5,7,8) [OF R i assms(3)]
  have "even i \<Longrightarrow> 2 * (i div 2) = i" "odd i \<Longrightarrow> 2 * (i div 2) + 1 = i" by auto
  then show ?thesis using False i d by (auto simp: slot_def h_load h_the)
qed

lemma heap_walk_ok:
  assumes "heap_rep m h xs"
  shows "0 < i \<Longrightarrow> descend i bs div 2 \<le> length xs \<Longrightarrow> descend i bs < 2 ^ 64 \<Longrightarrow>
    heap_walk m h (of_nat (bits_val bs)) (of_nat (length bs)) (slot xs (i div 2)) (slot xs i) =
      Some (slot xs (descend i bs div 2), slot xs (descend i bs))"
proof (induction bs arbitrary: i)
  case Nil
  then show ?case by (subst heap_walk.simps) simp
next
  case (Cons b bs)
  let ?i = "2 * i + of_bool b"
  let ?v = "bits_val (b # bs)"
  have "length (b # bs) < 2 ^ length (b # bs)" by (rule less_exp)
  moreover have "2 ^ length (b # bs) \<le> i * 2 ^ length (b # bs)" using Cons.prems(1) by simp
  ultimately have lt: "length (b # bs) < 2 ^ 64" "?v < 2 ^ 64"
    using descend_ge [of i "b # bs"] bits_val_lt [of "b # bs"] Cons.prems(3) by linarith+
  then have u: "unat (of_nat ?v :: u64) = ?v" by (simp add: unat_of_nat del: bits_val.simps)
  have k: "(of_nat (length (b # bs)) :: u64) \<noteq> 0" using of_nat_u64_eq_0 [OF lt(1)] by simp
  have "?i \<le> descend i (b # bs)" using descend_mono [of ?i bs] by simp
  then have "i \<le> descend i (b # bs) div 2" by linarith
  then have g: "get_link m h (slot xs i) = Some (nd xs i)"
    using get_slot [OF assms Cons.prems(1)] Cons.prems(2) by linarith
  have a: "(of_nat ?v :: u64) AND 1 \<noteq> 0 \<longleftrightarrow> b" by (simp add: and_one_eq mod_2_eq_odd)
  have "unat (drop_bit 1 (of_nat ?v :: u64)) = ?v div 2"
    unfolding unat_drop_bit_eq u by (simp add: drop_bit_eq_div)
  also have "\<dots> = unat (of_nat (bits_val bs) :: u64)" using lt(2) by (simp add: unat_of_nat)
  finally have dr: "drop_bit 1 (of_nat ?v :: u64) = of_nat (bits_val bs)" by (rule word_unat_eq_iff [THEN iffD2])
  have sl: "(if b then LRight (nd xs i) else LLeft (nd xs i)) = slot xs ?i"
    using Cons.prems(1) by (simp add: slot_def)
  have "heap_walk m h (of_nat ?v) (of_nat (length (b # bs))) (slot xs (i div 2)) (slot xs i) =
    heap_walk m h (of_nat (bits_val bs)) (of_nat (length bs)) (slot xs i) (slot xs ?i)"
    unfolding heap_walk.simps [of m h "of_nat ?v"] g dr a sl bind.simps using k by (simp add: word_gt_0)
  moreover have "?i div 2 = i" by simp
  ultimately show ?case using Cons.IH [of ?i] Cons.prems by simp
qed

lemma up_inv_step:
  assumes u: "up_inv key xs i" and i: "i = 2 * j \<or> i = 2 * j + 1" "0 < j" "i \<le> length xs"
    and lt: "key (nd xs i) < key (nd xs j)"
  shows "up_inv key (lswap xs j i) j"
proof -
  have J: "j \<le> length xs" "0 < i" "j < i" using i by auto
  have nx: "nd (lswap xs j i) k = (if k = j then nd xs i else if k = i then nd xs j else nd xs k)" for k
    using nd_lswap i J by simp
  have u1: "key (nd xs (k div 2)) \<le> key (nd xs k)" if "1 < k" "k \<le> length xs" "k \<noteq> i" for k
    using u that by (simp add: up_inv_def)
  have d: "i div 2 = j" "1 < i" "j div 2 \<noteq> j" "j div 2 \<noteq> i" "j \<noteq> i" "i \<noteq> j" using i by auto
  have u2: "key (nd xs j) \<le> key (nd xs k)" if "1 < k" "k \<le> length xs" "k div 2 = i" for k
    using u that d(1,2) by (auto simp: up_inv_def)
  show ?thesis unfolding up_inv_def length_lswap
  proof (intro allI impI, elim conjE)
    fix k assume k: "1 < k" "k \<le> length xs"
    consider "k = i" | "k \<noteq> i" "k div 2 = j" | "k div 2 = i" | "k \<noteq> i" "k div 2 \<noteq> i" "k div 2 \<noteq> j" by blast
    then show "(k \<noteq> j \<longrightarrow> key (nd (lswap xs j i) (k div 2)) \<le> key (nd (lswap xs j i) k)) \<and>
      (k div 2 = j \<and> 1 < j \<longrightarrow> key (nd (lswap xs j i) (j div 2)) \<le> key (nd (lswap xs j i) k))"
      using lt u1 [of k] u1 [of j] u2 [of k] k d J by cases (auto simp: nx)
  qed
qed

lemma down_inv_step:
  assumes u: "down_inv key xs i" and c: "c = 2 * i \<or> c = 2 * i + 1" "0 < i" "c \<le> length xs"
    and lt: "key (nd xs c) < key (nd xs i)"
    and sm: "\<And>k. 1 < k \<Longrightarrow> k \<le> length xs \<Longrightarrow> k div 2 = i \<Longrightarrow> key (nd xs c) \<le> key (nd xs k)"
  shows "down_inv key (lswap xs i c) c"
proof -
  have J: "i \<le> length xs" "0 < c" "i < c" using c by auto
  have nx: "nd (lswap xs i c) k = (if k = i then nd xs c else if k = c then nd xs i else nd xs k)" for k
    using nd_lswap c J by simp
  have u1: "key (nd xs (k div 2)) \<le> key (nd xs k)"
    if "1 < k" "k \<le> length xs" "k \<noteq> i" "k div 2 \<noteq> i" for k
    using u that by (simp add: down_inv_def)
  have d: "c div 2 = i" "i div 2 \<noteq> i" "i div 2 \<noteq> c" "i \<noteq> c" "c \<noteq> i" using c by auto
  have u2: "key (nd xs (i div 2)) \<le> key (nd xs c)" if "1 < i"
    using u that d J c by (auto simp: down_inv_def)
  show ?thesis unfolding down_inv_def length_lswap
  proof (intro allI impI, elim conjE)
    fix k assume k: "1 < k" "k \<le> length xs"
    consider "k = i" | "k \<noteq> i" "k div 2 = i" | "k \<noteq> i" "k div 2 = c" | "k \<noteq> i" "k div 2 \<noteq> i" "k div 2 \<noteq> c" by blast
    then show "(k \<noteq> c \<and> k div 2 \<noteq> c \<longrightarrow> key (nd (lswap xs i c) (k div 2)) \<le> key (nd (lswap xs i c) k)) \<and>
      (k div 2 = c \<and> 1 < c \<longrightarrow> key (nd (lswap xs i c) (c div 2)) \<le> key (nd (lswap xs i c) k))"
      using u1 [of k] u2 sm [of k] k d J by cases (auto simp: nx)
  qed
qed

lemma down_inv_end:
  assumes "down_inv key xs i"
    and "\<And>k. 1 < k \<Longrightarrow> k \<le> length xs \<Longrightarrow> k div 2 = i \<Longrightarrow> key (nd xs i) \<le> key (nd xs k)"
  shows "up_inv key xs i"
  using assms by (auto simp: down_inv_def up_inv_def)

lemma up_inv_end:
  assumes "up_inv key xs i" and "i = 1 \<or> key (nd xs (i div 2)) \<le> key (nd xs i)"
  shows "is_heap key xs"
  using assms by (auto simp: up_inv_def is_heap_def)

lemma compares_nd:
  assumes "compares A cmp key" "set xs \<subseteq> A" "0 < j" "j \<le> length xs" "0 < k" "k \<le> length xs"
  shows "cmp (nd xs j) (nd xs k) < 0 \<longleftrightarrow> key (nd xs j) < key (nd xs k)"
  using assms(1,2) nd_in [OF assms(3,4)] nd_in [OF assms(5,6)] unfolding compares_def by blast

lemma heap_up_ok:
  assumes "compares A cmp key"
  shows "heap_rep m h xs \<Longrightarrow> set xs \<subseteq> A \<Longrightarrow> 0 < i \<Longrightarrow> i \<le> length xs \<Longrightarrow> up_inv key xs i \<Longrightarrow>
    \<exists>m' h' ys. heap_up cmp m h (nd xs i) = Some (m', h') \<and> heap_rep m' h' ys \<and>
      mset ys = mset xs \<and> is_heap key ys \<and> hframe (set xs) m m'"
proof (induction i arbitrary: m h xs rule: less_induct)
  case (less i)
  have R: "hlinks m xs" using less.prems by (simp add: heap_rep_def)
  note d = hlinksD [OF R] hlinksD(4-8) [OF R less.prems(3,4)]
  have P: "nd xs (i div 2) \<noteq> NULL \<longleftrightarrow> 1 < i" using less.prems nd_NULL_iff [OF d(2)] by auto
  have C: "cmp (nd xs i) (nd xs (i div 2)) < 0 \<longleftrightarrow> key (nd xs i) < key (nd xs (i div 2))" if "1 < i"
    using that less.prems(3,4) by (intro compares_nd [OF assms less.prems(2)]) auto
  show ?case
  proof (cases "1 < i \<and> key (nd xs i) < key (nd xs (i div 2))")
    case False
    then have "is_heap key xs" using less.prems by (intro up_inv_end [of key xs i]) auto
    then show ?thesis using False less.prems d P C
      by (subst heap_up.simps) (auto simp: h_load h_the)
  next
    case True
    let ?j = "i div 2" and ?y = "lswap xs (i div 2) i"
    obtain m1 h1 where s: "heap_swap_node m h (nd xs ?j) (nd xs i) = Some (m1, h1)"
      "heap_rep m1 h1 ?y" "hframe (set xs) m m1"
      using heap_swap_node_ok less.prems True by blast
    have j: "0 < ?j" "?j < i" "?j \<le> length xs" "i = 2 * ?j \<or> i = 2 * ?j + 1" using True less.prems by auto
    have u: "up_inv key ?y ?j" using up_inv_step less.prems True j by blast
    have n: "nd ?y ?j = nd xs i" using nd_lswap j less.prems by simp
    have M: "mset ?y = mset xs" using mset_lswap j less.prems by simp
    have "set ?y = set xs" using M by (metis set_mset_mset)
    moreover have "set ?y \<subseteq> A" using calculation less.prems(2) by simp
    ultimately obtain m' h' ys where r: "heap_up cmp m1 h1 (nd xs i) = Some (m', h')" "heap_rep m' h' ys"
      "mset ys = mset xs" "is_heap key ys" "hframe (set xs) m1 m'"
      using less.IH [OF j(2) s(2) _ j(1) _ u] j(3) n M by auto
    then have "heap_up cmp m h (nd xs i) = Some (m', h')"
      using True d P C s by (subst heap_up.simps) (auto simp: h_load h_the)
    then show ?thesis using r hframe_trans [OF s(3)] by blast
  qed
qed

lemma smallest_child_le:
  assumes "1 < k" "k \<le> length xs" "k div 2 = i"
  shows "key (nd xs (smallest_child key xs i)) \<le> key (nd xs k)"
proof -
  have "k = 2 * i \<or> k = 2 * i + 1" using assms by auto
  then show ?thesis using assms by (auto simp: smallest_child_def Let_def)
qed

lemma smallest_child_cases:
  "smallest_child key xs i \<noteq> i \<Longrightarrow> (smallest_child key xs i = 2 * i \<or> smallest_child key xs i = 2 * i + 1)
     \<and> smallest_child key xs i \<le> length xs \<and> key (nd xs (smallest_child key xs i)) < key (nd xs i)"
  by (auto simp: smallest_child_def Let_def split: if_splits)

lemma heap_down_step:
  assumes R: "hlinks m xs" and c: "compares A cmp key" "set xs \<subseteq> A" and i: "0 < i" "i \<le> length xs"
  shows "heap_down cmp m h (nd xs i) =
    (let k = smallest_child key xs i in
     if k = i then Some (m, h)
     else do { (m, h) \<leftarrow> heap_swap_node m h (nd xs i) (nd xs k); heap_down cmp m h (nd xs i) })"
proof -
  note d = hlinksD(4,5,7,8) [OF R i]
  have ni: "i \<noteq> 2 * i" "i \<noteq> Suc (2 * i)" using i by auto
  have ne: "nd xs (2 * i) \<noteq> nd xs i" "nd xs (Suc (2 * i)) \<noteq> nd xs i"
    using nd_eq_iff [OF hlinksD(1,2) [OF R] i] ni by metis+
  have nl: "nd xs (2 * i) \<noteq> NULL \<longleftrightarrow> 2 * i \<le> length xs"
    "nd xs (Suc (2 * i)) \<noteq> NULL \<longleftrightarrow> Suc (2 * i) \<le> length xs"
    using i by (simp_all add: nd_NULL_iff [OF hlinksD(2) [OF R]] not_less)
  have e: "load m (nd xs i) = Some (the (m (nd xs i)))"
    "hleft (the (m (nd xs i))) = nd xs (2 * i)" "hright (the (m (nd xs i))) = nd xs (Suc (2 * i))"
    using d by (simp_all add: h_load h_the)
  have c': "j \<le> length xs \<and> cmp (nd xs j) (nd xs k) < 0 \<longleftrightarrow>
      j \<le> length xs \<and> key (nd xs j) < key (nd xs k)"
    if "0 < j" "0 < k" "k \<le> length xs" for j k using that compares_nd [OF c, of j k] by blast
  show ?thesis
    unfolding heap_down.simps [of cmp m] e bind.simps Let_def nl smallest_child_def
    by (cases "2 * i \<le> length xs"; cases "key (nd xs (2 * i)) < key (nd xs i)";
        cases "Suc (2 * i) \<le> length xs") (use ne i c' [of "2 * i" i] c' [of "Suc (2 * i)" i]
          c' [of "Suc (2 * i)" "2 * i"] in simp_all)
qed

lemma heap_down_ok:
  assumes "compares A cmp key"
  shows "heap_rep m h xs \<Longrightarrow> set xs \<subseteq> A \<Longrightarrow> 0 < i \<Longrightarrow> i \<le> length xs \<Longrightarrow> down_inv key xs i \<Longrightarrow>
    \<exists>m' h' ys j. heap_down cmp m h (nd xs i) = Some (m', h') \<and> heap_rep m' h' ys \<and>
      mset ys = mset xs \<and> 0 < j \<and> j \<le> length ys \<and> nd ys j = nd xs i \<and> up_inv key ys j \<and>
      hframe (set xs) m m'"
proof (induction "length xs - i" arbitrary: i m h xs rule: less_induct)
  case less
  have R: "hlinks m xs" using less.prems by (simp add: heap_rep_def)
  note step = heap_down_step [OF R assms less.prems(2,3,4)]
  let ?c = "smallest_child key xs i"
  show ?case
  proof (cases "?c = i")
    case True
    then have "up_inv key xs i"
      using less.prems smallest_child_le [of _ xs i key] by (intro down_inv_end) auto
    then show ?thesis using step True less.prems by auto
  next
    case False
    note k = smallest_child_cases [OF False]
    let ?y = "lswap xs i ?c"
    have c: "1 < ?c" "?c \<le> length xs" "?c div 2 = i" "0 < ?c" using k less.prems by auto
    obtain m1 h1 where s: "heap_swap_node m h (nd xs i) (nd xs ?c) = Some (m1, h1)"
      "heap_rep m1 h1 ?y" "hframe (set xs) m m1"
      using heap_swap_node_ok [OF less.prems(1) c(1,2)] c(3) by auto
    have u: "down_inv key ?y ?c"
      using less.prems k smallest_child_le [of _ xs i key] by (intro down_inv_step) auto
    have n: "nd ?y ?c = nd xs i" using nd_lswap c k less.prems by simp
    have M: "mset ?y = mset xs" using mset_lswap c k less.prems by simp
    then have S: "set ?y = set xs" by (metis set_mset_mset)
    have lt: "length ?y - ?c < length xs - i" using k less.prems(3) c(2) by (simp, linarith)
    obtain m' h' ys j where r: "heap_down cmp m1 h1 (nd xs i) = Some (m', h')" "heap_rep m' h' ys"
      "mset ys = mset xs" "0 < j" "j \<le> length ys" "nd ys j = nd xs i" "up_inv key ys j"
      "hframe (set xs) m1 m'"
      using less.hyps [OF lt s(2) _ c(4) _ u] c(2) less.prems(2) unfolding n M S length_lswap by blast
    have "heap_down cmp m h (nd xs i) = Some (m', h')" using step False s r by simp
    then show ?thesis using r hframe_trans [OF s(3)] by blast
  qed
qed

lemma nd_snoc: "nd (xs @ [x]) k = (if k = length xs + 1 then x else nd xs k)"
  by (auto simp: nd_def nth_append)

lemma hlinks_same:
  assumes "hlinks m xs" "\<And>q. q \<in> set xs \<Longrightarrow> hl m' q = hl m q \<and> hr m' q = hr m q \<and> hp m' q = hp m q"
    "dom m \<subseteq> dom m'"
  shows "hlinks m' xs"
  using assms nd_in unfolding hlinks_def by (metis (no_types, lifting) subset_trans)

lemma set_slot:
  assumes R: "hlinks m xs" "set xs \<subseteq> A" and i: "1 < i" "i div 2 \<le> length xs"
  shows "\<exists>m'. set_link m h (slot xs i) v = Some (m', h) \<and> hframe A m m' \<and>
    hl m' = (if even i then (hl m)(nd xs (i div 2) := v) else hl m) \<and>
    hr m' = (if even i then hr m else (hr m)(nd xs (i div 2) := v)) \<and> hp m' = hp m"
proof -
  have j: "0 < i div 2" using i by auto
  note d = hlinksD(7,8) [OF R(1) j i(2)]
  have "nd xs (i div 2) \<in> A" using nd_in [OF j i(2)] R(2) by blast
  then show ?thesis using d i by (auto simp: slot_def h_modify h_sel intro!: hframe_set)
qed

lemma hlinks_snoc:
  assumes R: "hlinks m xs" and x: "x \<notin> set xs" "x \<noteq> NULL" "x \<in> dom m"
    and f: "hl m x = NULL" "hr m x = NULL" "hp m x = nd xs ((length xs + 1) div 2)"
    and m': "hl m' = (if even (length xs + 1) then (hl m)(nd xs ((length xs + 1) div 2) := x) else hl m)"
     "hr m' = (if even (length xs + 1) then hr m else (hr m)(nd xs ((length xs + 1) div 2) := x))"
     "hp m' = hp m" "dom m' = dom m" and n: "xs \<noteq> []"
  shows "hlinks m' (xs @ [x])"
proof -
  let ?n = "length xs + 1"
  have j: "0 < ?n div 2" "?n div 2 \<le> length xs" using n by (cases xs; simp)+
  note eq = nd_eq_iff [OF hlinksD(1,2) [OF R] j]
  have nx: "nd xs (?n div 2) \<noteq> x" using nd_in [OF j] x(1) by metis
  have "hl m' (nd (xs @ [x]) k) = nd (xs @ [x]) (2 * k) \<and> hr m' (nd (xs @ [x]) k) = nd (xs @ [x]) (2 * k + 1)
     \<and> hp m' (nd (xs @ [x]) k) = nd (xs @ [x]) (k div 2)" if k: "0 < k" "k \<le> length xs + 1" for k
  proof (cases "k = ?n")
    case True
    have "nd xs (2 * ?n) = NULL" "nd xs (2 * ?n + 1) = NULL" by (simp_all add: nd_def)
    moreover have "2 * ?n \<noteq> ?n" "2 * ?n + 1 \<noteq> ?n" "?n div 2 \<noteq> ?n" by auto
    ultimately show ?thesis using True f nx unfolding m' nd_snoc by (auto simp: fun_upd_def)
  next
    case False
    then have k': "k \<le> length xs" using k by simp
    have "nd xs k = nd xs (?n div 2) \<longleftrightarrow> k = ?n div 2" using eq [of k] by auto
    moreover have "even ?n \<Longrightarrow> k = ?n div 2 \<longleftrightarrow> 2 * k = ?n" "odd ?n \<Longrightarrow> k = ?n div 2 \<longleftrightarrow> 2 * k + 1 = ?n"
      "even ?n \<Longrightarrow> 2 * k + 1 \<noteq> ?n" "odd ?n \<Longrightarrow> 2 * k \<noteq> ?n" "k div 2 \<noteq> ?n" using k' by presburger+
    ultimately show ?thesis using False hlinksD(4-6) [OF R k(1) k'] unfolding m' nd_snoc
      by (cases "even ?n") (simp_all del: even_Suc even_add odd_add)
  qed
  then show ?thesis using hlinksD(1-3) [OF R] x m'(4) by (simp add: hlinks_def)
qed

lemma heap_locate:
  assumes r: "heap_rep m h xs" and t: "0 < t" "t \<le> length xs + 1" "t < 2 ^ 64"
  shows "\<exists>path k. heap_path 0 0 (of_nat t) = (path, k) \<and>
    heap_walk m h path k LRoot LRoot = Some (slot xs (t div 2), slot xs t)"
proof -
  obtain bs where b: "heap_path 0 0 (of_nat t) = (of_nat (bits_val bs), of_nat (length bs))" "descend 1 bs = t"
    using heap_path_ok [of t "[]"] t by auto
  have "t div 2 \<le> length xs" using t by linarith
  then show ?thesis using heap_walk_ok [OF r, of 1 bs] b t by (simp add: slot_def)
qed

lemma get_slot_parent:
  assumes r: "heap_rep m h xs" and t: "t = length xs + 1"
  shows "get_link m h (slot xs (t div 2)) = Some (nd xs (t div 2))"
proof (cases "t div 2 = 0")
  case True
  then have "t \<le> 1" by auto
  then show ?thesis using r t True by (cases xs) (auto simp: slot_def heap_rep_def nd_def)
next
  case False
  then show ?thesis using get_slot [OF r, of "t div 2"] t by simp
qed

lemma modify_clear:
  assumes "p \<noteq> NULL" and "p \<in> dom m"
  shows "modify m p (\<lambda>n. n\<lparr>hleft := a, hright := b, hparent := c\<rparr>) =
    Some (set_hp (set_hr (set_hl m p a) p b) p c)"
  using assms by (auto simp: modify_def load_def set_hl_def set_hr_def set_hp_def)

lemma heap_insert_prefix:
  assumes r: "heap_rep m h xs" and x: "x \<notin> set xs" "x \<noteq> NULL" "x \<in> dom m"
  shows "\<exists>m' h'. heap_insert cmp m h x = heap_up cmp m' h' x \<and> heap_rep m' h' (xs @ [x]) \<and>
    hframe (insert x (set xs)) m m'"
proof -
  let ?n = "length xs + 1" and ?A = "insert x (set xs)"
  define m1 where "m1 = set_hp (set_hr (set_hl m x NULL) x NULL) x NULL"
  define m2 where "m2 = set_hp m1 x (nd xs (?n div 2))"
  have d: "distinct (x # xs)" "NULL \<notin> set (x # xs)" using r x by (auto simp: heap_rep_def hlinks_def)
  have R: "hlinks m xs" "heap_root h = nd xs 1" "heap_nelts h = of_nat (length xs)" using r by (auto simp: heap_rep_def)
  have n64: "?n < 2 ^ 64" using distinct_ptrs_length [OF d] by simp
  have v: "dom m1 = dom m" "dom m2 = dom m" "hframe ?A m m1" "hframe ?A m m2"
    using x by (simp_all add: m1_def m2_def h_dom insert_absorb hframe_set)
  have l1: "hlinks m1 xs" by (rule hlinks_same [OF R(1)]) (use x in \<open>auto simp: m1_def h_sel h_dom\<close>)
  have l2: "hlinks m2 xs" by (rule hlinks_same [OF l1]) (use x in \<open>auto simp: m2_def h_sel h_dom\<close>)
  have r1: "heap_rep m1 h xs" using l1 R by (simp add: heap_rep_def)
  obtain path k where w: "heap_path 0 0 (of_nat ?n) = (path, k)"
      "heap_walk m1 h path k LRoot LRoot = Some (slot xs (?n div 2), slot xs ?n)"
    using heap_locate [OF r1 _ _ n64] by auto
  have m1: "modify m x (\<lambda>n. n\<lparr>hleft := NULL, hright := NULL, hparent := NULL\<rparr>) = Some m1"
    unfolding m1_def using modify_clear x by blast
  have m2: "modify m1 x (\<lambda>n. n\<lparr>hparent := nd xs (?n div 2)\<rparr>) = Some m2"
    using x v by (simp add: m2_def h_modify)
  have run: "heap_insert cmp m h x = do {
     (m, h) \<leftarrow> set_link m2 h (slot xs ?n) x;
     heap_up cmp m (h\<lparr>heap_nelts := heap_nelts h + 1\<rparr>) x }"
    using m1 m2 w get_slot_parent [OF r1 refl] R(3) by (simp add: heap_insert_def)
  show ?thesis
  proof (cases xs)
    case Nil
    have "heap_rep m2 (h\<lparr>heap_root := x, heap_nelts := heap_nelts h + 1\<rparr>) (xs @ [x])"
      using Nil R(3) x v unfolding m2_def m1_def by (auto simp: heap_rep_def hlinks_def nd_def h_sel h_dom)
    then show ?thesis using run v Nil by (auto simp: slot_def)
  next
    case Cons
    then have j: "1 < ?n" "?n div 2 \<le> length xs" by auto
    obtain m3 where s: "set_link m2 h (slot xs ?n) x = Some (m3, h)" "hframe ?A m2 m3"
      "hl m3 = (if even ?n then (hl m2)(nd xs (?n div 2) := x) else hl m2)"
      "hr m3 = (if even ?n then hr m2 else (hr m2)(nd xs (?n div 2) := x))" "hp m3 = hp m2"
      using set_slot [OF l2 subset_insertI j] by blast
    have "hlinks m3 (xs @ [x])"
      by (rule hlinks_snoc [OF l2 x(1,2) _ _ _ _ s(3,4,5) hframe_dom [OF s(2)]])
        (use x v Cons in \<open>simp_all add: m2_def m1_def h_sel\<close>)
    then have "heap_rep m3 (h\<lparr>heap_nelts := heap_nelts h + 1\<rparr>) (xs @ [x])"
      using R Cons by (simp add: heap_rep_def nd_def)
    then show ?thesis using run s hframe_trans [OF v(4) s(2)] by auto
  qed
qed

lemma up_inv_snoc: "is_heap key xs \<Longrightarrow> up_inv key (xs @ [x]) (length xs + 1)"
  unfolding up_inv_def is_heap_def nd_snoc by auto

lemma heap_insert_ok:
  assumes "compares A cmp key" "heap_rep m h xs" "is_heap key xs" "x \<notin> set xs" "x \<noteq> NULL" "x \<in> dom m"
    and A: "insert x (set xs) \<subseteq> A"
  shows "\<exists>m' h' ys. heap_insert cmp m h x = Some (m', h') \<and> heap_rep m' h' ys \<and>
    mset ys = add_mset x (mset xs) \<and> is_heap key ys \<and> hframe (insert x (set xs)) m m'"
proof -
  obtain m1 h1 where p: "heap_insert cmp m h x = heap_up cmp m1 h1 x" "heap_rep m1 h1 (xs @ [x])"
    "hframe (insert x (set xs)) m m1" using heap_insert_prefix assms by blast
  have "nd (xs @ [x]) (length xs + 1) = x" by (simp add: nd_snoc)
  then obtain m' h' ys where q: "heap_up cmp m1 h1 x = Some (m', h')" "heap_rep m' h' ys"
    "mset ys = mset (xs @ [x])" "is_heap key ys" "hframe (set (xs @ [x])) m1 m'"
    using heap_up_ok [OF assms(1) p(2) _ _ _ up_inv_snoc [OF assms(3)]] A by auto
  then have "hframe (insert x (set xs)) m1 m'" by simp
  then show ?thesis using p q hframe_trans by fastforce
qed

lemma nd_update: "0 < i \<Longrightarrow> i \<le> length xs \<Longrightarrow> nd (xs[i - 1 := x]) k = (if k = i then x else nd xs k)"
  by (cases i; cases k) (simp_all add: nd_def nth_list_update)

text \<open>Unlinking the last node.\<close>

lemma hlinks_butlast:
  assumes R: "hlinks m (ys @ [x])" and n: "ys \<noteq> []"
    and m': "hl m' = (if even (length ys + 1) then (hl m)(nd ys ((length ys + 1) div 2) := NULL) else hl m)"
     "hr m' = (if even (length ys + 1) then hr m else (hr m)(nd ys ((length ys + 1) div 2) := NULL))"
     "hp m' = hp m" "dom m' = dom m"
  shows "hlinks m' ys"
proof -
  let ?n = "length ys + 1"
  have D: "distinct ys" "NULL \<notin> set ys" "set ys \<subseteq> dom m" using hlinksD(1-3) [OF R] by auto
  have j: "0 < ?n div 2" "?n div 2 \<le> length ys" using n by (cases ys; simp)+
  have "hl m' (nd ys k) = nd ys (2 * k) \<and> hr m' (nd ys k) = nd ys (2 * k + 1)
     \<and> hp m' (nd ys k) = nd ys (k div 2)" if k: "0 < k" "k \<le> length ys" for k
  proof -
    have e: "nd ys k = nd ys (?n div 2) \<longleftrightarrow> k = ?n div 2" using nd_eq_iff [OF D(1,2) k] by simp
    have l: "hl m (nd ys k) = (if 2 * k = ?n then x else nd ys (2 * k))"
      "hr m (nd ys k) = (if 2 * k + 1 = ?n then x else nd ys (2 * k + 1))"
      "hp m (nd ys k) = nd ys (k div 2)"
      using hlinksD(4-6) [OF R k(1)] k unfolding nd_snoc by auto
    have N: "nd ys ?n = NULL" by (simp add: nd_def)
    have "even ?n \<Longrightarrow> k = ?n div 2 \<longleftrightarrow> 2 * k = ?n" "odd ?n \<Longrightarrow> k = ?n div 2 \<longleftrightarrow> 2 * k + 1 = ?n"
      "even ?n \<Longrightarrow> 2 * k + 1 \<noteq> ?n" "odd ?n \<Longrightarrow> 2 * k \<noteq> ?n" by presburger+
    then show ?thesis using l N e unfolding m' fun_upd_apply
      by (cases "even ?n"; cases "2 * k = ?n"; cases "2 * k + 1 = ?n") (simp_all del: even_Suc even_add odd_add)
  qed
  then show ?thesis using D m'(4) by (simp add: hlinks_def)
qed

lemma replace_index:
  assumes R: "hlinks m xs" and i: "0 < i" "i \<le> length xs" and c: "c \<notin> set xs" "c \<noteq> NULL" "c \<in> dom m"
    and F: "replaced m m' (nd xs i) c (nd xs (2 * i)) (nd xs (2 * i + 1)) (nd xs (i div 2))"
    and D: "dom m' = dom m"
  shows "hlinks m' (xs[i - 1 := c])"
proof -
  let ?x = "xs[i - 1 := c]"
  note nx = nd_update [OF i, of c]
  have nc: "nd xs k \<noteq> c" "c \<noteq> nd xs k" for k using c nd_in [of k xs] by (auto simp: nd_def)
  note E = nd_eq_iff [OF hlinksD(1,2) [OF R]]
  have "hl m' (nd ?x k) = nd ?x (2 * k) \<and> hr m' (nd ?x k) = nd ?x (2 * k + 1)
     \<and> hp m' (nd ?x k) = nd ?x (k div 2)" if k: "0 < k" "k \<le> length xs" for k
  proof (cases "k = i")
    case True
    have "2 * i \<noteq> i" "2 * i + 1 \<noteq> i" "i div 2 \<noteq> i" using i by auto
    then show ?thesis using True F c(2) unfolding replaced_def nx by simp
  next
    case False
    have e: "nd xs k = nd xs (i div 2) \<longleftrightarrow> k = i div 2" "nd xs k = nd xs (2 * i) \<longleftrightarrow> k = 2 * i"
      "nd xs k = nd xs (2 * i + 1) \<longleftrightarrow> k = 2 * i + 1" using E [OF k] by simp_all
    have g: "k = i div 2 \<and> hl m (nd xs (i div 2)) = nd xs i \<longleftrightarrow> i = 2 * k"
      "k = i div 2 \<and> hl m (nd xs (i div 2)) \<noteq> nd xs i \<longleftrightarrow> i = 2 * k + 1"
      using hl_eq_iff [OF R k i] by (cases "k = i div 2"; auto)+
    have p: "k = 2 * i \<or> k = 2 * i + 1 \<longleftrightarrow> k div 2 = i" by auto
    show ?thesis using False F [unfolded replaced_def, rule_format, OF hlinksD(8) [OF R k]] g
      hlinksD(4-6) [OF R k] p unfolding nx e by (simp add: nc)
  qed
  moreover have "distinct ?x" "set ?x \<subseteq> insert c (set xs)"
    using hlinksD(1) [OF R] c by (auto simp: distinct_list_update set_update_subset_insert)
  ultimately show ?thesis using c D hlinksD(2,3) [OF R] by (auto simp: hlinks_def)
qed


lemma heap_replace_run:
  assumes n: "p \<noteq> NULL" "c \<noteq> NULL" "p \<noteq> c" "c \<noteq> p" and d: "p \<in> dom m" "c \<in> dom m"
    and l: "l = hl m p" "l \<noteq> NULL \<Longrightarrow> l \<in> dom m \<and> l \<noteq> p \<and> l \<noteq> c"
    and r: "r = hr m p" "r \<noteq> NULL \<Longrightarrow> r \<in> dom m \<and> r \<noteq> p \<and> r \<noteq> c"
    and g: "g = hp m p" "g \<noteq> NULL \<Longrightarrow> g \<in> dom m \<and> g \<noteq> p \<and> g \<noteq> c \<and> g \<noteq> l \<and> g \<noteq> r"
    and A: "c \<in> A" "l \<noteq> NULL \<Longrightarrow> l \<in> A" "r \<noteq> NULL \<Longrightarrow> r \<in> A" "g \<noteq> NULL \<Longrightarrow> g \<in> A"
  shows "\<exists>m'. heap_replace m h p c = Some (m', if g = NULL then h\<lparr>heap_root := c\<rparr> else h) \<and>
      hframe A m m' \<and> replaced m m' p c l r g"
proof -
  define m1 where "m1 = set_hp (set_hr (set_hl m c l) c r) c g"
  define m2 where "m2 = (if l = NULL then m1 else set_hp m1 l c)"
  define m3 where "m3 = (if r = NULL then m2 else set_hp m2 r c)"
  define m4 where "m4 = (if g = NULL then m3 else if hl m g = p then set_hl m3 g c else set_hr m3 g c)"
  have m1: "modify m c (\<lambda>n. copy_links n (the (m p))) = Some m1" "dom m1 = dom m"
    using d n l(1) r(1) g(1) by (simp_all add: m1_def hp_simps insert_absorb)
  have m2: "(if l \<noteq> NULL then modify m1 l (\<lambda>x. x\<lparr>hparent := c\<rparr>) else Some m1) = Some m2" "dom m2 = dom m"
    using l(2) by (auto simp: m2_def hp_simps insert_absorb m1)
  have m3: "(if r \<noteq> NULL then modify m2 r (\<lambda>x. x\<lparr>hparent := c\<rparr>) else Some m2) = Some m3" "dom m3 = dom m"
    using r(2) by (auto simp: m3_def hp_simps insert_absorb m2)
  have v: "hl m1 = (hl m)(c := l)" "hr m1 = (hr m)(c := r)" "hl m2 = (hl m)(c := l)" "hr m2 = (hr m)(c := r)"
    "hl m3 = (hl m)(c := l)" "hr m3 = (hr m)(c := r)"
    by (simp_all add: m1_def m2_def m3_def hp_simps)
  have p3: "hp m3 q = (if q = c then g else if q = l \<or> q = r then c else hp m q)" if "q \<noteq> NULL" for q
    using that l(2) r(2) n by (auto simp: m3_def m2_def m1_def hp_simps)
  have hp3: "hp m3 p = g" using p3 [OF n(1)] n l(2) r(2) g(1) by auto
  have m4: "(if g = NULL then Some (m3, h\<lparr>heap_root := c\<rparr>)
     else do {
       x \<leftarrow> load m3 g;
       if hleft x = p
       then do { m \<leftarrow> modify m3 g (\<lambda>x. x\<lparr>hleft := c\<rparr>); Some (m, h) }
       else do { m \<leftarrow> modify m3 g (\<lambda>x. x\<lparr>hright := c\<rparr>); Some (m, h) } }) =
     Some (m4, if g = NULL then h\<lparr>heap_root := c\<rparr> else h)"
    using g(2) by (auto simp: m4_def hp_simps m3 v)
  have run: "heap_replace m h p c = Some (m4, if g = NULL then h\<lparr>heap_root := c\<rparr> else h)"
    unfolding heap_replace_def
    by (simp add: h_load d n m1 h_the v m2 m3 hp3 m4 cong: if_cong)
  have "hframe A m m1" unfolding m1_def using A d by (simp add: hframe_set h_dom)
  then have "hframe A m m2" unfolding m2_def using l(2) A by (simp add: hframe_set m1)
  then have "hframe A m m3" unfolding m3_def using r(2) A by (simp add: hframe_set m2)
  then have fr: "hframe A m m4" unfolding m4_def using g(2) A by (simp add: hframe_set m3)
  have p4: "hp m4 = hp m3" by (simp add: m4_def hp_simps)
  have v4: "hl m4 q = (if q = c then l else if q = g \<and> hl m g = p then c else hl m q)"
    "hr m4 q = (if q = c then r else if q = g \<and> hl m g \<noteq> p then c else hr m q)" if "q \<noteq> NULL" for q
    using that n g(2) by (auto simp: m4_def hp_simps v)
  show ?thesis unfolding replaced_def
    by (intro exI [of _ m4] conjI allI impI run fr v4 p3 [folded p4])
qed

lemma heap_replace_ok:
  assumes r: "heap_rep m h xs" and i: "0 < i" "i \<le> length xs" and c: "c \<notin> set xs" "c \<noteq> NULL" "c \<in> dom m"
  shows "\<exists>m' h'. heap_replace m h (nd xs i) c = Some (m', h') \<and> heap_rep m' h' (xs[i - 1 := c]) \<and>
    hframe (insert c (set xs)) m m'"
proof -
  have R: "hlinks m xs" "heap_root h = nd xs 1" "heap_nelts h = of_nat (length xs)" using r by (auto simp: heap_rep_def)
  note d = hlinksD(4-8) [OF R(1) i] and ne = hlinks_ne [OF R(1)]
  have ni: "2 * i \<noteq> i" "2 * i + 1 \<noteq> i" "i div 2 \<noteq> i" "i div 2 \<noteq> 2 * i" "i div 2 \<noteq> 2 * i + 1" using i by auto
  have nc: "nd xs k \<noteq> c" "c \<noteq> nd xs k" for k using c nd_in [of k xs] by (auto simp: nd_def)
  have ins: "nd xs k \<noteq> NULL \<Longrightarrow> nd xs k \<in> insert c (set xs)" for k
    using nd_in [of k xs] nd_NULL_iff [OF hlinksD(2) [OF R(1)], of k] by auto
  have "\<exists>m'. heap_replace m h (nd xs i) c =
      Some (m', if nd xs (i div 2) = NULL then h\<lparr>heap_root := c\<rparr> else h) \<and>
    hframe (insert c (set xs)) m m' \<and>
    replaced m m' (nd xs i) c (nd xs (2 * i)) (nd xs (2 * i + 1)) (nd xs (i div 2))"
    by (rule heap_replace_run) (use d nc c ins ne ni in simp_all)
  then obtain m' where m': "heap_replace m h (nd xs i) c =
      Some (m', if nd xs (i div 2) = NULL then h\<lparr>heap_root := c\<rparr> else h)"
    "hframe (insert c (set xs)) m m'"
    "replaced m m' (nd xs i) c (nd xs (2 * i)) (nd xs (2 * i + 1)) (nd xs (i div 2))"
    by blast
  then have "hlinks m' (xs[i - 1 := c])" using replace_index [OF R(1) i c] hframe_dom by blast
  moreover have "nd xs (i div 2) = NULL \<longleftrightarrow> i = 1"
    using nd_NULL_iff [OF hlinksD(2) [OF R(1)], of "i div 2"] i by auto
  moreover have "nd (xs[i - 1 := c]) 1 = (if i = 1 then c else nd xs 1)"
    using nd_update [OF i, of c 1] by auto
  ultimately show ?thesis using m' R(2,3) by (auto simp: heap_rep_def)
qed


lemma heap_unlink_last:
  assumes r: "heap_rep m h (ys @ [x])"
  shows "\<exists>path k mx m' h'. heap_path 0 0 (heap_nelts h) = (path, k) \<and>
    heap_walk m h path k LRoot LRoot = Some mx \<and>
    get_link m (h\<lparr>heap_nelts := heap_nelts h - 1\<rparr>) (snd mx) = Some x \<and>
    set_link m (h\<lparr>heap_nelts := heap_nelts h - 1\<rparr>) (snd mx) NULL = Some (m', h') \<and>
    heap_rep m' h' ys \<and> hframe (set (ys @ [x])) m m'"
proof -
  let ?xs = "ys @ [x]" and ?h = "h\<lparr>heap_nelts := heap_nelts h - 1\<rparr>" and ?n = "length ys + 1"
  have R: "hlinks m ?xs" "heap_root h = nd ?xs 1" "heap_nelts h = of_nat ?n" using r by (auto simp: heap_rep_def)
  have n64: "?n < 2 ^ 64" using distinct_ptrs_length [OF hlinksD(1,2) [OF R(1)]] by simp
  obtain path k where w: "heap_path 0 0 (of_nat ?n) = (path, k)"
      "heap_walk m h path k LRoot LRoot = Some (slot ?xs (?n div 2), slot ?xs ?n)"
    using heap_locate [OF r, of ?n] n64 by auto
  have "get_link m ?h (slot ?xs ?n) = get_link m h (slot ?xs ?n)" by (simp add: slot_def)
  then have g: "get_link m ?h (slot ?xs ?n) = Some x"
    using get_slot [OF r, of ?n] by (simp add: nd_snoc)
  have "\<exists>m' h'. set_link m ?h (slot ?xs ?n) NULL = Some (m', h') \<and> heap_rep m' h' ys \<and> hframe (set ?xs) m m'"
  proof (cases "ys = []")
    case True
    then show ?thesis using R by (auto simp: slot_def heap_rep_def hlinks_def nd_def)
  next
    case False
    then have j: "1 < ?n" "?n div 2 \<le> length ?xs" by auto
    have "?n div 2 \<noteq> ?n" by simp
    then have e: "nd ?xs (?n div 2) = nd ys (?n div 2)" unfolding nd_snoc by (rule if_not_P)
    obtain m' where s: "set_link m ?h (slot ?xs ?n) NULL = Some (m', ?h)" "hframe (set ?xs) m m'"
      "hl m' = (if even ?n then (hl m)(nd ys (?n div 2) := NULL) else hl m)"
      "hr m' = (if even ?n then hr m else (hr m)(nd ys (?n div 2) := NULL))" "hp m' = hp m"
      using set_slot [OF R(1) subset_refl j, of ?h NULL] unfolding e by blast
    have "hlinks m' ys" by (rule hlinks_butlast [OF R(1) False s(3,4,5) hframe_dom [OF s(2)]])
    moreover have "nd ?xs 1 = nd ys 1" using False by (simp add: nd_snoc)
    ultimately show ?thesis using s R by (auto simp: heap_rep_def)
  qed
  then show ?thesis using w g R(3) by auto
qed

lemma is_heap_butlast:
  assumes "is_heap key (ys @ [x])"
  shows "is_heap key ys"
  unfolding is_heap_def
proof (intro allI impI, elim conjE)
  fix k assume k: "1 < k" "k \<le> length ys"
  then have "key (nd (ys @ [x]) (k div 2)) \<le> key (nd (ys @ [x]) k)"
    using assms by (simp add: is_heap_def)
  then show "key (nd ys (k div 2)) \<le> key (nd ys k)" using k by (simp add: nd_snoc split: if_splits)
qed

lemma nd_obtain:
  assumes "p \<in> set ys"
  obtains i where "0 < i" "i \<le> length ys" "p = nd ys i"
proof -
  obtain j where "j < length ys" "p = ys ! j" using assms by (metis in_set_conv_nth)
  then show thesis using that [of "Suc j"] by (simp add: nd_def)
qed

lemma down_inv_replace:
  assumes h: "is_heap key (ys @ [x])" and i: "0 < i" "i \<le> length ys"
  shows "down_inv key (ys[i - 1 := x]) i"
proof -
  have H: "key (nd ys (k div 2)) \<le> key (nd ys k)" if "1 < k" "k \<le> length ys" for k
    using is_heap_butlast [OF h] that by (simp add: is_heap_def)
  have nx: "nd (ys[i - 1 := x]) k = (if k = i then x else nd ys k)" for k by (rule nd_update [OF i])
  have "key (nd ys (i div 2)) \<le> key (nd ys k)" if "1 < k" "k \<le> length ys" "k div 2 = i" "1 < i" for k
    using H [of k] H [of i] that i by auto
  then show ?thesis using H i unfolding down_inv_def nx by auto
qed

lemma mset_replace:
  assumes "0 < i" "i \<le> length ys"
  shows "mset (ys[i - 1 := x]) = mset (ys @ [x]) - {#nd ys i#}"
  using assms mset_update [of "i - 1" ys x] by (simp add: nd_def)


lemma heap_remove_ok:
  assumes c: "compares A cmp key" "set xs \<subseteq> A" and r: "heap_rep m h xs" and h: "is_heap key xs"
    and x: "p \<in> set xs"
  shows "\<exists>m' h' ys. heap_remove cmp m h p = Some (m', h') \<and> heap_rep m' h' ys \<and>
    mset ys = mset xs - {#p#} \<and> is_heap key ys \<and> hframe (set xs) m m'"
proof -
  obtain ys z where xs: "xs = ys @ [z]" using x by (cases xs rule: rev_cases) auto
  note r' = r [unfolded xs]
  have R: "hlinks m (ys @ [z])" "heap_nelts h = of_nat (length ys + 1)" using r' by (auto simp: heap_rep_def)
  note D = hlinksD(1-3) [OF R(1)]
  have n0: "heap_nelts h \<noteq> 0"
    unfolding R(2) using of_nat_u64_eq_0 distinct_ptrs_length [OF D(1,2)] by (metis Suc_eq_plus1 length_append_singleton nat.simps(3))
  obtain path k q mx m1 h1 where u: "heap_path 0 0 (heap_nelts h) = (path, k)"
    "heap_walk m h path k LRoot LRoot = Some (q, mx)"
    "get_link m (h\<lparr>heap_nelts := heap_nelts h - 1\<rparr>) mx = Some z"
    "set_link m (h\<lparr>heap_nelts := heap_nelts h - 1\<rparr>) mx NULL = Some (m1, h1)"
    "heap_rep m1 h1 ys" "hframe (set xs) m m1"
    using heap_unlink_last [OF r'] xs by auto
  have run: "heap_remove cmp m h p = (if z = p
        then Some (m1, if z = heap_root h1 then h1\<lparr>heap_root := NULL\<rparr> else h1)
        else do { (m, h) \<leftarrow> heap_replace m1 h1 p z; (m, h) \<leftarrow> heap_down cmp m h z; heap_up cmp m h z })"
    using n0 u(1-4) by (simp add: heap_remove_def Let_def)
  show ?thesis
  proof (cases "z = p")
    case True
    have "z \<notin> set ys" "z \<noteq> NULL" using D by auto
    then have "z \<noteq> heap_root h1" using u(5) nd_in [of 1 ys] by (cases ys) (auto simp: heap_rep_def nd_def)
    moreover have "is_heap key ys" using h is_heap_butlast xs by blast
    ultimately show ?thesis using run True u xs by auto
  next
    case False
    then have "p \<in> set ys" using x xs by simp
    then obtain i where i: "0 < i" "i \<le> length ys" "p = nd ys i" by (rule nd_obtain)
    let ?ys = "ys[i - 1 := z]"
    obtain m2 h2 where a: "heap_replace m1 h1 p z = Some (m2, h2)" "heap_rep m2 h2 ?ys" "hframe (set xs) m1 m2"
      using heap_replace_ok [OF u(5) i(1,2), of z] D hframe_dom [OF u(6)] unfolding i(3) xs by auto
    have M: "mset ?ys = mset xs - {#p#}" using mset_replace [OF i(1,2)] i(3) xs by simp
    have nz: "nd ?ys i = z" using nd_update [OF i(1,2)] by simp
    have dn: "down_inv key ?ys i" using down_inv_replace i h xs by blast
    have S: "set ?ys \<subseteq> set xs" using xs set_update_subset_insert [of ys "i - 1" z] by auto
    then have A: "set ?ys \<subseteq> A" using c(2) by blast
    obtain m3 h3 zs j where b: "heap_down cmp m2 h2 z = Some (m3, h3)" "heap_rep m3 h3 zs"
      "mset zs = mset ?ys" "0 < j" "j \<le> length zs" "nd zs j = z" "up_inv key zs j" "hframe (set ?ys) m2 m3"
      using heap_down_ok [OF c(1) a(2) A i(1) _ dn] i(2) unfolding nz length_list_update by blast
    have Z: "set zs = set ?ys" using b(3) by (metis set_mset_mset)
    then have A': "set zs \<subseteq> A" using A by simp
    obtain m4 h4 ws where e: "heap_up cmp m3 h3 z = Some (m4, h4)" "heap_rep m4 h4 ws" "mset ws = mset zs"
      "is_heap key ws" "hframe (set zs) m3 m4"
      using heap_up_ok [OF c(1) b(2) A' b(4,5,7)] unfolding b(6) by blast
    have "hframe (set xs) m2 m3" "hframe (set xs) m3 m4"
      using b(8) e(5) hframe_mono S Z by metis+
    then have "hframe (set xs) m m4" using u(6) a(3) hframe_trans by blast
    then show ?thesis using run False a b e M by auto
  qed
qed

end
