(* ===== verification/Xylem_Heap.thy ===== *)
theory Xylem_Heap
  imports Binary_Heap
begin

text \<open>
  The heap of \<open>heap.c\<close> as an instance of the priority queue contract, and the owning
  \<open>xylem_heap\<close> of \<open>src/container/xylem-heap.c\<close>. The wrapper node extends the intrusive node
  by the client's data pointer and comparator; the address returned by \<open>calloc\<close> is an argument.
\<close>

section \<open>The owning heap\<close>

type_synonym data_cmp = "ptr \<Rightarrow> ptr \<Rightarrow> int"

record heap_wrap_node = heap_node +
  heap_data :: ptr
  heap_node_cmp :: data_cmp

record xylem_heap_t =
  xh_heap :: heap_t
  xh_cmp :: data_cmp

type_synonym wmem = "heap_wrap_node mem"

text \<open>The bridge reads the two nodes; the heap functions never change what it reads.\<close>

definition heap_cmp_bridge :: "wmem \<Rightarrow> ptr \<Rightarrow> ptr \<Rightarrow> int" where
  "heap_cmp_bridge m a b = heap_node_cmp (the (m a)) (heap_data (the (m a))) (heap_data (the (m b)))"

definition xylem_heap_create :: "ptr \<Rightarrow> data_cmp \<Rightarrow> xylem_heap_t option" where
  "xylem_heap_create p cmp = (if p = NULL then None else Some \<lparr>xh_heap = heap_init, xh_cmp = cmp\<rparr>)"

definition xylem_heap_empty :: "xylem_heap_t \<Rightarrow> bool" where
  "xylem_heap_empty h = heap_empty (xh_heap h)"

definition xylem_heap_len :: "xylem_heap_t \<Rightarrow> u64" where
  "xylem_heap_len h = heap_nelts (xh_heap h)"

definition xylem_heap_insert ::
  "wmem \<Rightarrow> xylem_heap_t \<Rightarrow> ptr \<Rightarrow> ptr \<Rightarrow> (int \<times> wmem \<times> xylem_heap_t) option" where
  "xylem_heap_insert m h p data =
     (if p = NULL then Some (-1, m, h)
      else do {
        let m = m(p \<mapsto> \<lparr>hleft = NULL, hright = NULL, hparent = NULL,
                      heap_data = data, heap_node_cmp = xh_cmp h\<rparr>);
        (m, hh) \<leftarrow> heap_insert (heap_cmp_bridge m) m (xh_heap h) p;
        Some (0, m, h\<lparr>xh_heap := hh\<rparr>) })"

definition xylem_heap_root :: "wmem \<Rightarrow> xylem_heap_t \<Rightarrow> ptr option" where
  "xylem_heap_root m h =
     (let n = heap_peek (xh_heap h) in if n = NULL then Some NULL else map_option heap_data (load m n))"

definition xylem_heap_dequeue :: "wmem \<Rightarrow> xylem_heap_t \<Rightarrow> (wmem \<times> xylem_heap_t) option" where
  "xylem_heap_dequeue m h =
     (let n = heap_peek (xh_heap h) in
      if n = NULL then Some (m, h)
      else do {
        (m, hh) \<leftarrow> heap_dequeue (heap_cmp_bridge m) m (xh_heap h);
        m \<leftarrow> release m n;
        Some (m, h\<lparr>xh_heap := hh\<rparr>) })"

partial_function (option) xylem_heap_clear :: "wmem \<Rightarrow> xylem_heap_t \<Rightarrow> (wmem \<times> xylem_heap_t) option" where
  "xylem_heap_clear m h =
     (if heap_empty (xh_heap h) then Some (m, h)
      else do { (m, h) \<leftarrow> xylem_heap_dequeue m h; xylem_heap_clear m h })"

definition xylem_heap_destroy :: "wmem \<Rightarrow> xylem_heap_t option \<Rightarrow> wmem option" where
  "xylem_heap_destroy m ho =
     (case ho of None \<Rightarrow> Some m | Some h \<Rightarrow> do { (m, h) \<leftarrow> xylem_heap_clear m h; Some m })"

section \<open>Abstraction\<close>

text \<open>The intrusive heap over a set \<open>D\<close> of allocated nodes the comparator orders by \<open>key\<close>.\<close>

definition heap_over ::
  "ptr set \<Rightarrow> (ptr \<Rightarrow> ptr \<Rightarrow> int) \<Rightarrow> (ptr \<Rightarrow> 'k::linorder) \<Rightarrow> 'a hmem \<times> heap_t \<Rightarrow> ptr multiset \<Rightarrow> bool" where
  "heap_over D cmp key s M \<longleftrightarrow> (\<exists>xs. heap_rep (fst s) (snd s) xs \<and> mset xs = M \<and> is_heap key xs \<and>
     set xs \<subseteq> D) \<and> D \<subseteq> dom (fst s) \<and> NULL \<notin> D \<and> compares D cmp key"

definition heap_put :: "(ptr \<Rightarrow> ptr \<Rightarrow> int) \<Rightarrow> 'a hmem \<times> heap_t \<Rightarrow> ptr \<Rightarrow> ('a hmem \<times> heap_t) option" where
  "heap_put cmp s x = heap_insert cmp (fst s) (snd s) x"

definition heap_take :: "(ptr \<Rightarrow> ptr \<Rightarrow> int) \<Rightarrow> 'a hmem \<times> heap_t \<Rightarrow> (ptr option \<times> 'a hmem \<times> heap_t) option" where
  "heap_take cmp s =
     (let n = heap_peek (snd s) in
      map_option (Pair (if n = NULL then None else Some n)) (heap_dequeue cmp (fst s) (snd s)))"

text \<open>\<open>xheap_nodes key m h ns\<close>: the wrapper nodes are \<open>ns\<close>, ordered by the key of their data.\<close>

definition xheap_nodes :: "(ptr \<Rightarrow> 'k::linorder) \<Rightarrow> wmem \<Rightarrow> xylem_heap_t \<Rightarrow> ptr list \<Rightarrow> bool" where
  "xheap_nodes key m h ns \<longleftrightarrow> heap_rep m (xh_heap h) ns \<and>
     is_heap (\<lambda>n. key (heap_data (the (m n)))) ns \<and> (\<forall>n \<in> set ns. heap_node_cmp (the (m n)) = xh_cmp h) \<and>
     (\<forall>a b. xh_cmp h a b < 0 \<longleftrightarrow> key a < key b)"

section \<open>The root is the minimum\<close>

lemma is_heap_root:
  assumes "is_heap key xs"
  shows "0 < k \<Longrightarrow> k \<le> length xs \<Longrightarrow> key (nd xs 1) \<le> key (nd xs k)"
proof (induction k rule: less_induct)
  case (less k)
  show ?case
  proof (cases "k = 1")
    case False
    then have k: "1 < k" "0 < k div 2" "k div 2 < k" "k div 2 \<le> length xs" using less.prems by auto
    then have "key (nd xs (k div 2)) \<le> key (nd xs k)" using assms less.prems by (simp add: is_heap_def)
    then show ?thesis using less.IH [OF k(3,2,4)] by (rule order_trans [rotated])
  qed simp
qed

lemma heap_root_least:
  assumes "heap_rep m h xs" "is_heap key xs" "xs \<noteq> []"
  shows "heap_root h \<in> set xs" "heap_root h \<noteq> NULL" "y \<in> set xs \<Longrightarrow> key (heap_root h) \<le> key y"
proof -
  have r: "heap_root h = nd xs 1" and l: "hlinks m xs" "1 \<le> length xs"
    using assms by (auto simp: heap_rep_def Suc_le_eq)
  show "heap_root h \<in> set xs" "heap_root h \<noteq> NULL"
    using r nd_in [of 1 xs] hlinksD(2) [OF l(1)] l(2) by auto
  assume "y \<in> set xs"
  then obtain i where "0 < i" "i \<le> length xs" "y = nd xs i" by (rule nd_obtain)
  then show "key (heap_root h) \<le> key y" using is_heap_root [OF assms(2)] r by simp
qed

lemma heap_rep_Nil: "heap_rep m h [] \<Longrightarrow> heap_root h = NULL \<and> heap_empty h"
  by (simp add: heap_rep_def nd_def heap_empty_def)

lemma heap_empty_rep [simp]: "heap_rep m h xs \<Longrightarrow> heap_empty h \<longleftrightarrow> xs = []"
  using of_nat_u64_eq_0 [of "length xs"] distinct_ptrs_length [of xs] hlinksD(1,2) [of m xs]
  by (auto simp: heap_rep_def heap_empty_def)

interpretation heap_pq:
  priority_queue "heap_over D cmp key" key "\<lambda>M x. x \<in> D \<and> x \<notin># M" "heap_put cmp" "heap_take cmp"
  for D cmp and key :: "ptr \<Rightarrow> 'k::linorder"
proof
  fix s :: "'a hmem \<times> heap_t" and M x
  assume s: "heap_over D cmp key s M" and x: "x \<in> D \<and> x \<notin># M"
  obtain xs where xs: "heap_rep (fst s) (snd s) xs" "mset xs = M" "is_heap key xs" "set xs \<subseteq> D"
    using s by (auto simp: heap_over_def)
  have "x \<notin> set xs" "x \<noteq> NULL" "x \<in> dom (fst s)" "insert x (set xs) \<subseteq> D" "compares D cmp key"
    using s x xs by (auto simp: heap_over_def)
  then obtain m' h' ys where "heap_insert cmp (fst s) (snd s) x = Some (m', h')" "heap_rep m' h' ys"
    "mset ys = add_mset x (mset xs)" "is_heap key ys" "dom m' = dom (fst s)"
    using heap_insert_ok [of D cmp key "fst s" "snd s" xs x] xs(1,3) by (meson hframe_dom)
  moreover have "set ys = insert x (set xs)"
    using calculation(3) by (metis set_mset_add_mset_insert set_mset_mset)
  ultimately have "heap_put cmp s x = Some (m', h')" "heap_over D cmp key (m', h') (add_mset x M)"
    using s x xs(2,4) by (auto simp: heap_put_def heap_over_def intro!: exI [of _ ys])
  then show "\<exists>s'. heap_put cmp s x = Some s' \<and> heap_over D cmp key s' (add_mset x M)" by blast
next
  fix s :: "'a hmem \<times> heap_t"
  assume "heap_over D cmp key s {#}"
  then show "heap_take cmp s = Some (None, s)"
    using heap_rep_Nil [of "fst s" "snd s"]
    by (cases s) (auto simp: heap_over_def heap_take_def heap_peek_def heap_dequeue_def)
next
  fix s :: "'a hmem \<times> heap_t" and M
  assume s: "heap_over D cmp key s M" and M: "M \<noteq> {#}"
  obtain xs where xs: "heap_rep (fst s) (snd s) xs" "mset xs = M" "is_heap key xs" "set xs \<subseteq> D"
    using s by (auto simp: heap_over_def)
  then have ne: "xs \<noteq> []" using M by auto
  note r = heap_root_least [OF xs(1,3) ne]
  obtain m' h' ys where y: "heap_remove cmp (fst s) (snd s) (heap_root (snd s)) = Some (m', h')"
    "heap_rep m' h' ys" "mset ys = mset xs - {#heap_root (snd s)#}" "is_heap key ys" "dom m' = dom (fst s)"
    using heap_remove_ok [of D cmp key xs "fst s" "snd s" "heap_root (snd s)"] s xs(1,3,4) r(1)
    unfolding heap_over_def by (meson hframe_dom)
  have "set ys \<subseteq> D" using y(3) xs(4) by (metis in_diffD set_mset_mset subset_eq)
  then have "heap_over D cmp key (m', h') (M - {#heap_root (snd s)#})"
    using s xs(2) y(2-5) by (auto simp: heap_over_def intro!: exI [of _ ys])
  moreover have "heap_take cmp s = Some (Some (heap_root (snd s)), m', h')"
    using r(2) y(1) by (simp add: heap_take_def heap_peek_def heap_dequeue_def)
  moreover have "heap_root (snd s) \<in># M" "\<forall>y \<in># M. key (heap_root (snd s)) \<le> key y"
    using r(1,3) xs(2) by auto
  ultimately show "\<exists>x s'. heap_take cmp s = Some (Some x, s') \<and> x \<in># M \<and> (\<forall>y \<in># M. key x \<le> key y) \<and>
      heap_over D cmp key s' (M - {#x#})" by blast
qed

section \<open>The owning heap\<close>

lemma more_heap_data:
  fixes n n' :: heap_wrap_node
  shows "heap_node.more n = heap_node.more n' \<Longrightarrow>
    heap_data n = heap_data n' \<and> heap_node_cmp n = heap_node_cmp n'"
  by (cases n; cases n') simp

lemma hframe_data:
  assumes "hframe A m m'" and "p \<in> dom (m :: wmem)"
  shows "heap_data (the (m' p)) = heap_data (the (m p))"
    "heap_node_cmp (the (m' p)) = heap_node_cmp (the (m p))"
proof -
  have e: "map_option heap_node.more (m' p) = map_option heap_node.more (m p)"
    using assms(1) by (simp add: hframe_def)
  obtain n where n: "m p = Some n" using assms(2) by blast
  then obtain n' where "m' p = Some n'" using e by auto
  then show "heap_data (the (m' p)) = heap_data (the (m p))"
    "heap_node_cmp (the (m' p)) = heap_node_cmp (the (m p))"
    using e n more_heap_data [of n' n] by simp_all
qed

lemma is_heap_cong:
  assumes "\<And>x. x \<in> set xs \<Longrightarrow> f x = g x"
  shows "is_heap f xs \<longleftrightarrow> is_heap g xs"
proof -
  have "f (nd xs k) = g (nd xs k)" if "0 < k" "k \<le> length xs" for k
    using assms nd_in that by blast
  moreover have "0 < k div 2 \<and> k div 2 \<le> length xs \<and> 0 < k" if "1 < k" "k \<le> length xs" for k
    using that by auto
  ultimately show ?thesis unfolding is_heap_def by (metis (no_types, lifting))
qed

lemma heap_rep_frame:
  assumes "heap_rep m h xs" "\<forall>p \<in> set xs. m' p = m p"
  shows "heap_rep m' h xs"
proof -
  have l: "hlinks m xs" using assms(1) by (simp add: heap_rep_def)
  have e: "m' (nd xs k) = m (nd xs k)" if "0 < k" "k \<le> length xs" for k
    using assms(2) nd_in that by blast
  have "p \<in> dom m'" if "p \<in> set xs" for p
  proof -
    have "m' p = m p" "p \<in> dom m" using that assms(2) hlinksD(3) [OF l] by blast+
    then show ?thesis by (simp add: dom_def)
  qed
  then have "set xs \<subseteq> dom m'" by blast
  moreover have "hl m' (nd xs k) = hl m (nd xs k) \<and> hr m' (nd xs k) = hr m (nd xs k) \<and> hp m' (nd xs k) = hp m (nd xs k)"
    if "0 < k" "k \<le> length xs" for k using e [OF that] by (simp add: hl_def hr_def hp_def)
  ultimately have "hlinks m' xs" using l by (simp add: hlinks_def)
  then show ?thesis using assms(1) by (simp add: heap_rep_def)
qed

lemma bridge_compares:
  assumes "\<And>n. n \<in> A \<Longrightarrow> heap_node_cmp (the (m n)) = c" "\<forall>a b. c a b < 0 \<longleftrightarrow> key a < key b"
  shows "compares A (heap_cmp_bridge m) (\<lambda>n. key (heap_data (the (m n))))"
  using assms by (simp add: compares_def heap_cmp_bridge_def)

lemma xylem_heap_insert_ok:
  assumes r: "xheap_nodes key m h ns" and p: "p \<noteq> NULL" "p \<notin> dom m"
  shows "\<exists>m' h' ns'. xylem_heap_insert m h p d = Some (0, m', h') \<and> xheap_nodes key m' h' ns' \<and>
    mset ns' = add_mset p (mset ns) \<and> heap_data (the (m' p)) = d \<and>
    (\<forall>n \<in> set ns. heap_data (the (m' n)) = heap_data (the (m n))) \<and>
    (\<forall>x. x \<notin> set ns \<and> x \<noteq> p \<longrightarrow> m' x = m x)"
proof -
  let ?n = "\<lparr>hleft = NULL, hright = NULL, hparent = NULL, heap_data = d, heap_node_cmp = xh_cmp h\<rparr>"
  let ?m = "m(p \<mapsto> ?n)" and ?k = "\<lambda>m n. key (heap_data (the (m n)))"
  have R: "heap_rep m (xh_heap h) ns" "is_heap (?k m) ns"
    and C: "\<And>n. n \<in> set ns \<Longrightarrow> heap_node_cmp (the (m n)) = xh_cmp h" "\<forall>a b. xh_cmp h a b < 0 \<longleftrightarrow> key a < key b"
    using r by (auto simp: xheap_nodes_def)
  have dn: "set ns \<subseteq> dom m" using R(1) by (auto simp: heap_rep_def hlinks_def)
  then have np: "p \<notin> set ns" using p by blast
  then have R1: "heap_rep ?m (xh_heap h) ns" by (intro heap_rep_frame [OF R(1)]) auto
  have "?k ?m x = ?k m x" if "x \<in> set ns" for x using np that by auto
  then have K1: "is_heap (?k ?m) ns" using R(2) is_heap_cong [of ns "?k ?m" "?k m"] by blast
  have cm: "compares (insert p (set ns)) (heap_cmp_bridge ?m) (?k ?m)"
    using C np by (intro bridge_compares [where c = "xh_cmp h"]) auto
  obtain m' hh ns' where i: "heap_insert (heap_cmp_bridge ?m) ?m (xh_heap h) p = Some (m', hh)"
    "heap_rep m' hh ns'" "mset ns' = add_mset p (mset ns)" "is_heap (?k ?m) ns'"
    "hframe (insert p (set ns)) ?m m'"
    using heap_insert_ok [OF cm R1 K1 np p(1)] by auto
  have S: "set ns' = insert p (set ns)" using i(3) by (metis set_mset_add_mset_insert set_mset_mset)
  have d: "heap_data (the (m' n)) = heap_data (the (?m n))"
    "heap_node_cmp (the (m' n)) = heap_node_cmp (the (?m n))" if "n \<in> insert p (set ns)" for n
  proof -
    have "n \<in> dom ?m" using that dn by auto
    then show "heap_data (the (m' n)) = heap_data (the (?m n))"
      "heap_node_cmp (the (m' n)) = heap_node_cmp (the (?m n))" using hframe_data [OF i(5)] by blast+
  qed
  have K2: "is_heap (?k m') ns'" using i(4) d(1) is_heap_cong [of ns' "?k m'" "?k ?m"] unfolding S by metis
  have O: "m' x = ?m x" if "x \<notin> insert p (set ns)" for x using i(5) that unfolding hframe_def by blast
  have "xheap_nodes key m' (h\<lparr>xh_heap := hh\<rparr>) ns'"
    using i(2) K2 C S d np by (auto simp: xheap_nodes_def)
  moreover have "xylem_heap_insert m h p d = Some (0, m', h\<lparr>xh_heap := hh\<rparr>)"
    using i(1) p(1) by (simp add: xylem_heap_insert_def Let_def)
  ultimately show ?thesis using i(3) d np O by auto
qed

lemma xylem_heap_root_ok:
  assumes "xheap_nodes key m h ns" "ns \<noteq> []"
  shows "\<exists>n \<in> set ns. heap_root (xh_heap h) = n \<and> xylem_heap_root m h = Some (heap_data (the (m n))) \<and>
    (\<forall>y \<in> set ns. key (heap_data (the (m n))) \<le> key (heap_data (the (m y))))"
proof -
  have R: "heap_rep m (xh_heap h) ns" "is_heap (\<lambda>n. key (heap_data (the (m n)))) ns"
    using assms by (auto simp: xheap_nodes_def)
  note l = heap_root_least [OF R assms(2)]
  have "heap_root (xh_heap h) \<in> dom m" using R(1) l(1) by (auto simp: heap_rep_def hlinks_def)
  then show ?thesis using l by (auto simp: xylem_heap_root_def heap_peek_def Let_def load_def)
qed

lemma xylem_heap_dequeue_ok:
  assumes r: "xheap_nodes key m h ns" and ne: "ns \<noteq> []"
  shows "\<exists>m' h' ns'. xylem_heap_dequeue m h = Some (m', h') \<and> xheap_nodes key m' h' ns' \<and>
    mset ns' = mset ns - {#heap_root (xh_heap h)#} \<and> heap_root (xh_heap h) \<in> set ns \<and>
    m' (heap_root (xh_heap h)) = None \<and>
    (\<forall>n \<in> set ns'. heap_data (the (m' n)) = heap_data (the (m n))) \<and> (\<forall>x. x \<notin> set ns \<longrightarrow> m' x = m x)"
proof -
  let ?k = "\<lambda>m n. key (heap_data (the (m n)))" and ?r = "heap_root (xh_heap h)"
  have R: "heap_rep m (xh_heap h) ns" "is_heap (?k m) ns"
    and C: "\<And>n. n \<in> set ns \<Longrightarrow> heap_node_cmp (the (m n)) = xh_cmp h" "\<forall>a b. xh_cmp h a b < 0 \<longleftrightarrow> key a < key b"
    using r by (auto simp: xheap_nodes_def)
  note l = heap_root_least [OF R ne]
  have dn: "set ns \<subseteq> dom m" "distinct ns" using R(1) by (auto simp: heap_rep_def hlinks_def)
  have cm: "compares (set ns) (heap_cmp_bridge m) (?k m)"
    using C by (intro bridge_compares [where c = "xh_cmp h"]) auto
  obtain m1 hh ns' where i: "heap_remove (heap_cmp_bridge m) m (xh_heap h) ?r = Some (m1, hh)"
    "heap_rep m1 hh ns'" "mset ns' = mset ns - {#?r#}" "is_heap (?k m) ns'" "hframe (set ns) m m1"
    using heap_remove_ok [OF cm subset_refl R l(1)] by blast
  let ?m = "m1(?r := None)"
  have S: "set ns' = set ns - {?r}"
    using i(3) dn(2) by (metis distinct_remove1 mset_remove1 set_mset_mset set_remove1_eq mset_eq_setD)
  then have R2: "heap_rep ?m hh ns'" by (intro heap_rep_frame [OF i(2)]) auto
  have d: "heap_data (the (?m n)) = heap_data (the (m n))"
    "heap_node_cmp (the (?m n)) = heap_node_cmp (the (m n))" if "n \<in> set ns'" for n
  proof -
    have "n \<in> dom m" "?m n = m1 n" using that dn S by auto
    then show "heap_data (the (?m n)) = heap_data (the (m n))"
      "heap_node_cmp (the (?m n)) = heap_node_cmp (the (m n))" using hframe_data [OF i(5)] by simp_all
  qed
  have K2: "is_heap (?k ?m) ns'" using i(4) d(1) is_heap_cong [of ns' "?k ?m" "?k m"] by metis
  have O: "m1 x = m x" if "x \<notin> set ns" for x using i(5) that unfolding hframe_def by blast
  have "m1 ?r \<noteq> None" using hframe_dom [OF i(5)] dn l(1) by blast
  then have "xylem_heap_dequeue m h = Some (?m, h\<lparr>xh_heap := hh\<rparr>)"
    using i(1) l(2) by (simp add: xylem_heap_dequeue_def heap_peek_def heap_dequeue_def Let_def release_def)
  moreover have "xheap_nodes key ?m (h\<lparr>xh_heap := hh\<rparr>) ns'"
    using R2 K2 C S d by (auto simp: xheap_nodes_def)
  moreover have "?m x = m x" if "x \<notin> set ns" for x using O [OF that] that l(1) by auto
  moreover have "?m ?r = None" by simp
  ultimately show ?thesis using i(3) l(1) d(1) by blast
qed

lemma xylem_heap_clear_ok:
  assumes "xheap_nodes key m h ns"
  shows "\<exists>h'. xylem_heap_clear m h = Some (\<lambda>x. if x \<in> set ns then None else m x, h') \<and> xylem_heap_empty h'"
  using assms
proof (induction "length ns" arbitrary: m h ns)
  case 0
  then show ?case by (auto simp: xylem_heap_clear.simps xheap_nodes_def xylem_heap_empty_def)
next
  case (Suc n)
  let ?r = "heap_root (xh_heap h)"
  have ne: "ns \<noteq> []" "\<not> heap_empty (xh_heap h)" using Suc by (auto simp: xheap_nodes_def)
  obtain m1 h1 ns1 where d: "xylem_heap_dequeue m h = Some (m1, h1)" "xheap_nodes key m1 h1 ns1"
    "mset ns1 = mset ns - {#?r#}" "?r \<in> set ns" "m1 ?r = None" "\<forall>x. x \<notin> set ns \<longrightarrow> m1 x = m x"
    using xylem_heap_dequeue_ok [OF Suc.prems ne(1)] by blast
  have "length ns1 = n"
    using d(3,4) Suc.hyps(2) by (metis diff_Suc_1 mset_remove1 length_remove1 size_mset)
  then obtain h' where c: "xylem_heap_clear m1 h1 = Some (\<lambda>x. if x \<in> set ns1 then None else m1 x, h')"
    "xylem_heap_empty h'" using Suc.hyps(1) [OF _ d(2)] by blast
  have S: "insert ?r (set ns1) = set ns"
    using d(3,4) by (metis insert_DiffM set_mset_add_mset_insert set_mset_mset)
  have "(\<lambda>x. if x \<in> set ns1 then None else m1 x) = (\<lambda>x. if x \<in> set ns then None else m x)"
  proof
    fix x
    have "x \<in> set ns \<longleftrightarrow> x = ?r \<or> x \<in> set ns1" using S by blast
    then show "(if x \<in> set ns1 then None else m1 x) = (if x \<in> set ns then None else m x)"
      using d(5,6) by auto
  qed
  then show ?case using c d(1) ne(2) by (simp add: xylem_heap_clear.simps [of m h])
qed

section \<open>Properties\<close>

text \<open>C1. Filling an empty heap with distinct allocated nodes and then dequeuing as often returns the
  nodes in ascending order of the key the comparator decides by, each once, and leaves the
  heap empty; no step dereferences a null or dangling pointer.\<close>

theorem heap_sorts:
  assumes "heap_over D cmp key s {#}" and "distinct xs" and "set xs \<subseteq> D"
  shows "\<exists>s' ys s''. pq_fill (heap_put cmp) s xs = Some s' \<and>
    pq_drain (heap_take cmp) (length xs) s' = Some (ys, s'') \<and>
    mset ys = mset xs \<and> sorted (map key ys) \<and> heap_over D cmp key s'' {#}"
  by (rule heap_pq.sorts [OF assms(1)]) (use assms(2,3) in auto)

theorem heap_sorts_witness:
  "\<exists>s' ys s''. pq_fill (heap_put (\<lambda>a b. sint a - sint b))
       ([2 \<mapsto> \<lparr>hleft = 0, hright = 0, hparent = 0\<rparr>, 3 \<mapsto> \<lparr>hleft = 0, hright = 0, hparent = 0\<rparr>], heap_init) [3, 2] = Some s' \<and>
     pq_drain (heap_take (\<lambda>a b. sint a - sint b)) (length [3::ptr, 2]) s' = Some (ys, s'') \<and>
     mset ys = {#3, 2#} \<and> sorted (map sint ys)"
proof -
  have "heap_over {2, 3} (\<lambda>a b. sint a - sint b) sint
     ([2 \<mapsto> \<lparr>hleft = 0, hright = 0, hparent = 0\<rparr>, 3 \<mapsto> \<lparr>hleft = 0, hright = 0, hparent = 0\<rparr>], heap_init) {#}"
    by (auto simp: heap_over_def heap_rep_def hlinks_def heap_init_def nd_def is_heap_def compares_def)
  from heap_sorts [OF this, of "[3, 2]"] show ?thesis by (simp add: add_mset_commute) blast
qed

text \<open>C2. Removing any node of a heap, not only the root, terminates without an invalid access, unlinks
  exactly that node, keeps the complete-tree shape and the heap order, and leaves nodes outside the
  heap and the structures that embed the nodes alone.\<close>

theorem heap_remove_correct:
  assumes "compares (set xs) cmp key" and "heap_rep m h xs" and "is_heap key xs" and "p \<in> set xs"
  shows "\<exists>m' h' ys. heap_remove cmp m h p = Some (m', h') \<and> heap_rep m' h' ys \<and>
    mset ys = mset xs - {#p#} \<and> is_heap key ys \<and> hframe (set xs) m m'"
  using heap_remove_ok [OF assms(1) subset_refl assms(2-4)] .

theorem heap_remove_correct_witness:
  "\<exists>m' h' ys. heap_remove (\<lambda>a b. sint a - sint b)
       [2 \<mapsto> \<lparr>hleft = 3, hright = 0, hparent = 0\<rparr>, 3 \<mapsto> \<lparr>hleft = 0, hright = 0, hparent = 2\<rparr>]
       \<lparr>heap_root = 2, heap_nelts = 2\<rparr> 2 = Some (m', h') \<and> heap_rep m' h' ys \<and> mset ys = {#3#}"
proof -
  have "heap_rep [2 \<mapsto> \<lparr>hleft = 3, hright = 0, hparent = 0\<rparr>, 3 \<mapsto> \<lparr>hleft = 0, hright = 0, hparent = 2\<rparr>]
     \<lparr>heap_root = 2, heap_nelts = 2\<rparr> [2, 3]"
    by (auto simp: heap_rep_def hlinks_def nd_def hl_def hr_def hp_def le_Suc_eq)
  moreover have "is_heap sint [2, 3]" "compares (set [2, 3]) (\<lambda>a b. sint a - sint b) sint"
    by (auto simp: is_heap_def nd_def compares_def le_Suc_eq)
  ultimately show ?thesis
    using heap_remove_correct [of "[2, 3]" "\<lambda>a b. sint a - sint b" sint] by fastforce
qed

text \<open>C13. Inserting into and clearing an owning heap: the insert stores the data in a new node, keeps the
  order of all data and returns 0; clearing then frees all the wrapper nodes, and only them.\<close>

theorem xylem_heap_insert_clear:
  assumes "xheap_nodes key m h ns" and "p \<noteq> NULL" and "p \<notin> dom m"
  shows "\<exists>m' h' ns' h''. xylem_heap_insert m h p d = Some (0, m', h') \<and> xheap_nodes key m' h' ns' \<and>
    mset ns' = add_mset p (mset ns) \<and> heap_data (the (m' p)) = d \<and>
    (\<forall>n. n \<in> set ns \<longrightarrow> heap_data (the (m' n)) = heap_data (the (m n))) \<and>
    xylem_heap_clear m' h' = Some (\<lambda>x. if x \<in> set ns then None else m x, h'') \<and> xylem_heap_empty h''"
proof -
  obtain m' h' ns' where i: "xylem_heap_insert m h p d = Some (0, m', h')" "xheap_nodes key m' h' ns'"
    "mset ns' = add_mset p (mset ns)" "heap_data (the (m' p)) = d"
    "\<forall>n \<in> set ns. heap_data (the (m' n)) = heap_data (the (m n))"
    "\<forall>x. x \<notin> set ns \<and> x \<noteq> p \<longrightarrow> m' x = m x"
    using xylem_heap_insert_ok [OF assms] by blast
  obtain h'' where c: "xylem_heap_clear m' h' = Some (\<lambda>x. if x \<in> set ns' then None else m' x, h'')"
    "xylem_heap_empty h''" using xylem_heap_clear_ok [OF i(2)] by blast
  have "x \<in> set ns' \<longleftrightarrow> x = p \<or> x \<in> set ns" for x
    using i(3) by (metis insert_iff set_mset_add_mset_insert set_mset_mset)
  then have "(\<lambda>x. if x \<in> set ns' then None else m' x) = (\<lambda>x. if x \<in> set ns then None else m x)"
    using i(6) assms(3) by (intro ext) (auto simp: dom_def)
  then show ?thesis using i c by (auto intro!: exI [of _ ns'])
qed

theorem xylem_heap_insert_clear_witness:
  "\<exists>m' h' ns'. xylem_heap_insert Map.empty \<lparr>xh_heap = heap_init, xh_cmp = (\<lambda>a b. sint a - sint b)\<rparr> 4 9 = Some (0, m', h')
     \<and> xheap_nodes sint m' h' ns' \<and> mset ns' = {#4#} \<and> heap_data (the (m' 4)) = 9"
proof -
  have "xheap_nodes sint Map.empty \<lparr>xh_heap = heap_init, xh_cmp = (\<lambda>a b. sint a - sint b)\<rparr> []"
    by (auto simp: xheap_nodes_def heap_rep_def hlinks_def heap_init_def nd_def is_heap_def)
  from xylem_heap_insert_clear [OF this, of 4 9] show ?thesis by auto
qed

end
