(* ===== verification/Word_Bits.thy ===== *)
theory Word_Bits
  imports Prelude "HOL-Library.Signed_Division"
begin

text \<open>
  Facts on the bits of machine words that the codecs, the hash functions and the ring buffers
  share: joining a low part and a shifted high part, masks as remainders, splitting a word
  into bytes and back.
\<close>

section \<open>Masks and shifts as arithmetic\<close>

lemma or_eq_add:
  fixes a b :: "'w::len word"
  assumes "a AND b = 0"
  shows "a OR b = a + b"
  using word_plus_and_or [of a b] assms by simp

lemma ucast_eq_of_nat: "ucast (a :: 'v::len word) = (of_nat (unat a) :: 'w::len word)"
  by simp

lemma unat_of_nat_small: "n < 2 ^ LENGTH('w) \<Longrightarrow> unat (of_nat n :: 'w::len word) = n"
  by (simp add: unat_of_nat)

lemma unat_less: "unat (w :: 'w::len word) < 2 ^ LENGTH('w)"
  by (rule unsigned_less)

lemma bit_lt: "unat (a :: 'w::len word) < 2 ^ s \<Longrightarrow> bit a n \<Longrightarrow> n < s"
proof (rule ccontr)
  assume a: "unat a < 2 ^ s" "bit a n" "\<not> n < s"
  have "(2::nat) ^ n \<le> unat a"
  proof (rule ccontr)
    assume "\<not> 2 ^ n \<le> unat a"
    then have "unat a div 2 ^ n = 0" by simp
    then have "\<not> bit (unat a) n" by (simp add: bit_iff_odd)
    then show False using a(2) by (simp add: bit_unsigned_iff)
  qed
  moreover have "(2::nat) ^ s \<le> 2 ^ n" using a(3) by simp
  ultimately show False using a(1) by linarith
qed

lemma low_high_disjoint:
  assumes "unat (a :: 'w::len word) < 2 ^ s"
  shows "a AND push_bit s b = 0"
proof (rule bit_eqI)
  fix n
  show "bit (a AND push_bit s b) n = bit 0 n"
    using bit_lt [OF assms, of n] by (auto simp: bit_and_iff bit_push_bit_iff)
qed

lemma unat_push_bit:
  assumes "unat (b :: 'w::len word) * 2 ^ s < 2 ^ LENGTH('w)"
  shows "unat (push_bit s b) = unat b * 2 ^ s"
  using assms unfolding unsigned_push_bit_eq by (simp add: push_bit_eq_mult take_bit_eq_mod)

text \<open>A low part below \<open>2 ^ s\<close> joined with a high part shifted by \<open>s\<close>.\<close>

lemma unat_or_push_bit:
  assumes "unat (a :: 'w::len word) < 2 ^ s" and "unat a + unat b * 2 ^ s < 2 ^ LENGTH('w)"
  shows "unat (a OR push_bit s b) = unat a + unat b * 2 ^ s"
proof -
  have p: "unat (push_bit s b) = unat b * 2 ^ s" using assms(2) by (intro unat_push_bit) linarith
  have "unat (a + push_bit s b) = unat a + unat (push_bit s b)"
    using assms(2) p by (simp add: unat_word_ariths)
  then show ?thesis using or_eq_add [OF low_high_disjoint [OF assms(1)]] p by simp
qed

lemma unat_and_mask: "unat (a AND mask n :: 'w::len word) = unat a mod 2 ^ n"
  unfolding take_bit_eq_mask [symmetric] unsigned_take_bit_eq by (simp add: take_bit_eq_mod)

lemma unat_drop_bit: "unat (drop_bit n (a :: 'w::len word)) = unat a div 2 ^ n"
  unfolding unat_drop_bit_eq by (simp add: drop_bit_eq_div)

text \<open>Testing the top bit of a byte.\<close>

lemma and_80: "(b AND 0x80 :: u8) = 0 \<longleftrightarrow> unat b < 128"
proof -
  have "(b AND 2 ^ 7 :: u8) = 0 \<longleftrightarrow> \<not> bit b 7" by (rule and_exp_eq_0_iff_not_bit)
  moreover have "bit b 7 \<longleftrightarrow> bit (unat b) 7" by (simp add: bit_unsigned_iff)
  moreover have "bit (unat b) 7 \<longleftrightarrow> 128 \<le> unat b"
  proof -
    have "unat b < 256" using unsigned_less [of b] by simp
    then have "unat b div 128 = (if 128 \<le> unat b then 1 else 0)"
      using div_nat_eqI [of 128 1 "unat b"] by (cases "128 \<le> unat b") simp_all
    then show ?thesis by (simp add: bit_iff_odd)
  qed
  ultimately show ?thesis by (simp add: not_le)
qed

section \<open>All bytes\<close>

lemma u8_exhaust:
  assumes "list_all (\<lambda>n. P (of_nat n)) [0..<256]"
  shows "P (b :: u8)"
proof -
  have "unat b < 256" using unsigned_less [of b] by simp
  then have "unat b \<in> set [0..<256]" by simp
  then have "P (of_nat (unat b))" using assms unfolding list_all_iff by blast
  then show ?thesis by simp
qed

lemma u8_exhaust_int:
  assumes "list_all (\<lambda>n. P (of_int n)) [0..255]"
  shows "P (b :: u8)"
proof -
  have "uint b \<in> set [0..255]" using uint_bounded [of b] by simp
  then have "P (of_int (uint b))" using assms unfolding list_all_iff by blast
  then show ?thesis by simp
qed

section \<open>Big-endian bytes\<close>

lemma bit_byte_at:
  "bit (push_bit k (ucast (ucast (drop_bit k w) :: u8)) :: 'w::len word) n \<longleftrightarrow> k \<le> n \<and> n < k + 8 \<and> bit (w :: 'w word) n"
  using bit_imp_le_length [of w n] by (auto simp: bit_push_bit_iff bit_ucast_iff bit_drop_bit_eq)

lemma bit_byte_low: "bit (ucast (ucast w :: u8) :: 'w::len word) n \<longleftrightarrow> n < 8 \<and> bit (w :: 'w word) n"
  using bit_imp_le_length [of w n] by (auto simp: bit_ucast_iff)

lemma be_join16:
  "push_bit 8 (ucast (ucast (drop_bit 8 w) :: u8)) OR ucast (ucast w :: u8) = (w :: u16)"
  by (rule bit_word_eqI) (simp add: bit_or_iff bit_byte_at bit_byte_low, linarith)

lemma be_join32:
  "push_bit 24 (ucast (ucast (drop_bit 24 w) :: u8)) OR push_bit 16 (ucast (ucast (drop_bit 16 w) :: u8)) OR
   push_bit 8 (ucast (ucast (drop_bit 8 w) :: u8)) OR ucast (ucast w :: u8) = (w :: u32)"
  by (rule bit_word_eqI) (simp add: bit_or_iff bit_byte_at bit_byte_low, linarith)

lemma be_join64:
  "push_bit 56 (ucast (ucast (drop_bit 56 w) :: u8)) OR push_bit 48 (ucast (ucast (drop_bit 48 w) :: u8)) OR
   push_bit 40 (ucast (ucast (drop_bit 40 w) :: u8)) OR push_bit 32 (ucast (ucast (drop_bit 32 w) :: u8)) OR
   push_bit 24 (ucast (ucast (drop_bit 24 w) :: u8)) OR push_bit 16 (ucast (ucast (drop_bit 16 w) :: u8)) OR
   push_bit 8 (ucast (ucast (drop_bit 8 w) :: u8)) OR ucast (ucast w :: u8) = (w :: u64)"
  by (rule bit_word_eqI) (simp add: bit_or_iff bit_byte_at bit_byte_low, linarith)

end
