(* ===== verification/Varint.thy ===== *)
theory Varint
  imports Word_Bits
begin

text \<open>
  The variable-length integers of \<open>src/encoding/xylem-varint.c\<close>: seven bits per byte, least
  significant first, the top bit of a byte set when another byte follows. A buffer is the list
  of its bytes (\<open>None\<close> for a null pointer) and its size is the length of the list; positions are
  natural numbers, as no position passes the size of the buffer.
\<close>

section \<open>Encoding and decoding\<close>

text \<open>The loop of \<open>xylem_varint_encode\<close> and the last byte after it. A failing call has already
  written the bytes that did fit.\<close>

function varint_put :: "u64 \<Rightarrow> u8 list \<Rightarrow> nat \<Rightarrow> bool \<times> u8 list \<times> nat" where
  "varint_put v buf wp =
     (if v > 0x7F
      then if wp \<ge> length buf then (False, buf, wp)
           else varint_put (drop_bit 7 v) (buf[wp := ucast ((v AND 0x7F) OR 0x80)]) (wp + 1)
      else if wp \<ge> length buf then (False, buf, wp)
      else (True, buf[wp := ucast v], wp + 1))"
  by pat_completeness auto
termination
  by (relation "measure (\<lambda>(v, buf, wp). unat v)")
    (auto simp: word_less_nat_alt unat_drop_bit)

text \<open>\<open>pos\<close> is the value behind the position pointer, \<open>None\<close> for a null pointer. The result is the
  return value, the buffer and the value behind the pointer after the call.\<close>

definition xylem_varint_encode ::
  "u64 \<Rightarrow> u8 list option \<Rightarrow> nat option \<Rightarrow> bool \<times> u8 list option \<times> nat option" where
  "xylem_varint_encode v bufp pos =
     (case bufp of
        None \<Rightarrow> (False, bufp, pos)
      | Some buf \<Rightarrow>
          if length buf = 0 then (False, bufp, pos)
          else let wp = (case pos of None \<Rightarrow> 0 | Some p \<Rightarrow> p) in
            if wp > length buf then (False, bufp, pos)
            else case varint_put v buf wp of
                (False, buf', _) \<Rightarrow> (False, Some buf', pos)
              | (True, buf', wp') \<Rightarrow> (True, Some buf', map_option (\<lambda>_. wp') pos))"

text \<open>The loop of \<open>xylem_varint_decode\<close>.\<close>

function varint_get :: "u8 list \<Rightarrow> nat \<Rightarrow> u64 \<Rightarrow> nat \<Rightarrow> (u64 \<times> nat) option" where
  "varint_get buf p v shift =
     (if p \<ge> length buf then None
      else let byte = buf ! p in
        if shift = 63 \<and> byte AND 0x7F > 1 then None
        else if shift > 63 then None
        else let v' = v OR push_bit shift (ucast (byte AND 0x7F)) in
          if byte AND 0x80 = 0 then Some (v', p + 1) else varint_get buf (p + 1) v' (shift + 7))"
  by pat_completeness auto
termination by (relation "measure (\<lambda>(buf, p, v, shift). length buf - p)") auto

definition xylem_varint_decode :: "u8 list option \<Rightarrow> nat option \<Rightarrow> (u64 \<times> nat) option" where
  "xylem_varint_decode bufp pos =
     (case (bufp, pos) of
        (Some buf, Some p) \<Rightarrow> if p \<ge> length buf then None else varint_get buf p 0 0
      | _ \<Rightarrow> None)"

function varint_size :: "u64 \<Rightarrow> nat \<Rightarrow> nat" where
  "varint_size v sz = (if v > 0x7F then varint_size (drop_bit 7 v) (sz + 1) else sz)"
  by pat_completeness auto
termination
  by (relation "measure (\<lambda>(v, sz). unat v)") (auto simp: word_less_nat_alt unat_drop_bit)

definition xylem_varint_compute :: "u64 \<Rightarrow> nat" where
  "xylem_varint_compute v = varint_size v 1"

declare varint_put.simps [simp del] varint_get.simps [simp del] varint_size.simps [simp del]

section \<open>The encoding as a list of bytes\<close>

text \<open>The bytes of a number, and the number bytes stand for (seven bits each).\<close>

fun varint_bytes :: "nat \<Rightarrow> u8 list" where
  "varint_bytes n = (if n < 128 then [of_nat n] else of_nat (n mod 128 + 128) # varint_bytes (n div 128))"

fun varint_value :: "u8 list \<Rightarrow> nat" where
  "varint_value [] = 0"
| "varint_value (b # bs) = unat b mod 128 + 128 * varint_value bs"

text \<open>Every byte but the last has its top bit set.\<close>

fun varint_shape :: "u8 list \<Rightarrow> bool" where
  "varint_shape [] = False"
| "varint_shape [b] = (unat b < 128)"
| "varint_shape (b # bs) = (unat b \<ge> 128 \<and> varint_shape bs)"

declare varint_bytes.simps [simp del]

section \<open>Correctness\<close>

lemma unat_and_7F: "unat (b AND 0x7F :: u8) = unat b mod 128"
  using unat_and_mask [of b 7] by (simp add: mask_eq_exp_minus_1)

lemma unat_and_7F64: "unat (v AND 0x7F :: u64) = unat v mod 128"
  using unat_and_mask [of v 7] by (simp add: mask_eq_exp_minus_1)

lemma varint_byte_more:
  "ucast ((v AND 0x7F) OR 0x80 :: u64) = (of_nat (unat v mod 128 + 128) :: u8)"
proof -
  have "unat (v AND 0x7F OR push_bit 7 1 :: u64) = unat v mod 128 + 128"
    using unat_or_push_bit [of "v AND 0x7F" 7 1] by (simp add: unat_and_7F64)
  then show ?thesis by (simp add: ucast_eq_of_nat del: of_nat_unat)
qed

lemma take_update_drop:
  assumes "wp < length buf"
  shows "take (Suc wp) (buf[wp := x]) = take wp buf @ [x]" "n > wp \<Longrightarrow> drop n (buf[wp := x]) = drop n buf"
  using assms by (simp_all add: take_Suc_conv_app_nth)

lemma varint_put_eq:
  "wp \<le> length buf \<Longrightarrow> varint_put v buf wp =
     (let bs = varint_bytes (unat v); n = length buf - wp in
      if length bs \<le> n then (True, take wp buf @ bs @ drop (wp + length bs) buf, wp + length bs)
      else (False, take wp buf @ take n bs, wp + n))"
proof (induction v buf wp rule: varint_put.induct)
  case (1 v buf wp)
  have d: "unat (drop_bit 7 v) = unat v div 128" by (simp add: unat_drop_bit)
  have gt: "v > 0x7F \<longleftrightarrow> \<not> unat v < 128" by (auto simp: word_less_nat_alt)
  show ?case
  proof (cases "v > 0x7F \<and> wp < length buf")
    case True
    let ?x = "of_nat (unat v mod 128 + 128) :: u8"
    have "varint_put v buf wp = varint_put (drop_bit 7 v) (buf[wp := ?x]) (wp + 1)"
      using True by (simp add: varint_put.simps [of v] varint_byte_more)
    moreover have "varint_bytes (unat v) = ?x # varint_bytes (unat v div 128)"
      using True gt by (simp add: varint_bytes.simps [of "unat v"])
    moreover have "length buf - wp = Suc (length buf - Suc wp)" using True by (simp add: Suc_diff_Suc)
    ultimately show ?thesis
      using 1(1) True d take_update_drop [where wp = wp and buf = buf and x = ?x] by (simp add: Let_def varint_byte_more)
  next
    case False
    show ?thesis
    proof (cases "wp < length buf")
      case True
      then have v: "\<not> v > 0x7F" "unat v < 128" using False gt by auto
      then have "varint_put v buf wp = (True, buf[wp := of_nat (unat v)], wp + 1)"
        using True by (simp add: varint_put.simps [of v] ucast_eq_of_nat del: of_nat_unat)
      moreover have "varint_bytes (unat v) = [of_nat (unat v)]" using v by (simp add: varint_bytes.simps)
      ultimately show ?thesis using True by (simp add: Let_def upd_conv_take_nth_drop del: of_nat_unat)
    next
      case full: False
      then have "varint_put v buf wp = (False, buf, wp)" "wp = length buf"
        using 1(2) by (simp_all add: varint_put.simps [of v])
      moreover have "varint_bytes (unat v) \<noteq> []" by (subst varint_bytes.simps) simp
      ultimately show ?thesis by (simp add: Let_def)
    qed
  qed
qed

lemma varint_shape_Cons: "bs \<noteq> [] \<Longrightarrow> varint_shape (b # bs) \<longleftrightarrow> 128 \<le> unat b \<and> varint_shape bs"
  by (cases bs) auto

lemma varint_bytes_ok: "varint_shape (varint_bytes n)" "varint_value (varint_bytes n) = n"
  "varint_bytes n \<noteq> []"
proof -
  have "varint_shape (varint_bytes n) \<and> varint_value (varint_bytes n) = n \<and> varint_bytes n \<noteq> []"
  proof (induction n rule: less_induct)
    case (less n)
    show ?case
    proof (cases "n < 128")
      case True
      then show ?thesis by (simp add: varint_bytes.simps [of n] unat_of_nat)
    next
      case False
      then have "varint_bytes n = of_nat (n mod 128 + 128) # varint_bytes (n div 128)"
        by (simp add: varint_bytes.simps [of n])
      moreover have "unat (of_nat (n mod 128 + 128) :: u8) = n mod 128 + 128"
        by (rule unat_of_nat_small) simp
      ultimately show ?thesis
        using less.IH [of "n div 128"] False by (simp add: varint_shape_Cons)
    qed
  qed
  then show "varint_shape (varint_bytes n)" "varint_value (varint_bytes n) = n" "varint_bytes n \<noteq> []"
    by simp_all
qed

lemma varint_bytes_length: "n < 128 ^ Suc k \<Longrightarrow> length (varint_bytes n) \<le> Suc k"
proof (induction k arbitrary: n)
  case 0
  then show ?case by (simp add: varint_bytes.simps)
next
  case (Suc k)
  have "n div 128 < 128 ^ Suc k" using Suc.prems by (simp add: less_mult_imp_div_less mult.commute)
  then show ?case using Suc.IH [of "n div 128"] by (subst varint_bytes.simps) simp
qed

lemma varint_length_u64: "length (varint_bytes (unat (v :: u64))) \<le> 10"
proof -
  have "unat v < 128 ^ Suc 9" using unat_less [of v] by simp
  then show ?thesis using varint_bytes_length [of "unat v" 9] by simp
qed

text \<open>One step of the decoder, with the accumulator as a number.\<close>

lemma varint_acc:
  fixes v :: u64
  assumes "unat v < 2 ^ (7 * k)" and "unat v + 2 ^ (7 * k) * (unat (b :: u8) mod 128) < 2 ^ 64"
  shows "unat (v OR push_bit (7 * k) (ucast (b AND 0x7F))) = unat v + 2 ^ (7 * k) * (unat b mod 128)"
proof -
  have "unat (ucast (b AND 0x7F) :: u64) = unat b mod 128"
    by (simp add: unat_and_7F unat_of_nat ucast_eq_of_nat del: of_nat_unat)
  then show ?thesis using unat_or_push_bit [of v "7 * k" "ucast (b AND 0x7F)"] assms
    by (simp add: mult.commute)
qed

lemma varint_get_step:
  assumes "p < length buf" and "unat v < 2 ^ (7 * k)" and "\<not> (9 < k \<or> k = 9 \<and> 1 < unat (buf ! p) mod 128)"
  shows "varint_get buf p v (7 * k) =
      (if unat (buf ! p) < 128 then Some (v OR push_bit (7 * k) (ucast (buf ! p AND 0x7F)), p + 1)
       else varint_get buf (p + 1) (v OR push_bit (7 * k) (ucast (buf ! p AND 0x7F))) (7 * Suc k))"
    and "unat (v OR push_bit (7 * k) (ucast (buf ! p AND 0x7F))) = unat v + 2 ^ (7 * k) * (unat (buf ! p) mod 128)"
    and "unat v + 2 ^ (7 * k) * (unat (buf ! p) mod 128) < 2 ^ (7 * Suc k)"
    and "unat v + 2 ^ (7 * k) * (unat (buf ! p) mod 128) < 2 ^ 64"
proof -
  define b where "b = buf ! p"
  note assms = assms [folded b_def]
  let ?v = "v OR push_bit (7 * k) (ucast (b AND 0x7F))"
  have m: "unat b mod 128 < 128" by simp
  have lt: "unat v + 2 ^ (7 * k) * (unat b mod 128) < 2 ^ (7 * Suc k)"
  proof -
    have "2 ^ (7 * k) * (unat b mod 128) \<le> 2 ^ (7 * k) * 127" using m by (intro mult_left_mono) auto
    moreover have "(2::nat) ^ (7 * Suc k) = 2 ^ (7 * k) * 128" by (simp add: power_add)
    ultimately show ?thesis using assms(2) by linarith
  qed
  have lt64: "unat v + 2 ^ (7 * k) * (unat b mod 128) < 2 ^ 64"
  proof (cases "k = 9")
    case True
    then have "unat b mod 128 \<le> 1" using assms(3) by simp
    then have "2 ^ (7 * k) * (unat b mod 128) \<le> 2 ^ 63" using True by simp
    then show ?thesis using assms(2) True by simp
  next
    case k9: False
    then have "(2::nat) ^ (7 * Suc k) \<le> 2 ^ 64" using assms(3) by (intro power_increasing) auto
    then show ?thesis using lt by linarith
  qed
  have u: "unat ?v = unat v + 2 ^ (7 * k) * (unat b mod 128)" by (rule varint_acc [OF assms(2) lt64])
  have get: "varint_get buf p v (7 * k) =
      (if unat b < 128 then Some (?v, p + 1) else varint_get buf (p + 1) ?v (7 * Suc k))"
  proof -
    have "\<not> (7 * k = 63 \<and> b AND 0x7F > 1)" "\<not> 7 * k > 63"
      using assms(3) by (auto simp: word_less_nat_alt unat_and_7F)
    then show ?thesis unfolding varint_get.simps [of buf p] Let_def and_80 b_def [symmetric] using assms(1)
      by (auto simp: add.commute)
  qed
  show "varint_get buf p v (7 * k) =
      (if unat (buf ! p) < 128 then Some (v OR push_bit (7 * k) (ucast (buf ! p AND 0x7F)), p + 1)
       else varint_get buf (p + 1) (v OR push_bit (7 * k) (ucast (buf ! p AND 0x7F))) (7 * Suc k))"
    "unat (v OR push_bit (7 * k) (ucast (buf ! p AND 0x7F))) = unat v + 2 ^ (7 * k) * (unat (buf ! p) mod 128)"
    "unat v + 2 ^ (7 * k) * (unat (buf ! p) mod 128) < 2 ^ (7 * Suc k)"
    "unat v + 2 ^ (7 * k) * (unat (buf ! p) mod 128) < 2 ^ 64"
    using get u lt lt64 by (simp_all only: b_def)
qed

lemma varint_get_iff:
  "unat v < 2 ^ (7 * k) \<Longrightarrow> varint_get buf p v (7 * k) = Some (v', p') \<longleftrightarrow>
     (\<exists>bs rest. drop p buf = bs @ rest \<and> varint_shape bs \<and> p' = p + length bs \<and> k + length bs \<le> 10 \<and>
        unat v + 2 ^ (7 * k) * varint_value bs < 2 ^ 64 \<and>
        unat v' = unat v + 2 ^ (7 * k) * varint_value bs)"
proof (induction "length buf - p" arbitrary: p v k)
  case 0
  then show ?case by (auto simp: varint_get.simps [of buf p])
next
  case (Suc n)
  let ?b = "buf ! p"
  have p: "p < length buf" "drop p buf = ?b # drop (p + 1) buf"
    using Suc.hyps(2) by (auto simp: Cons_nth_drop_Suc)
  have rej: "varint_get buf p v (7 * k) = None" if "9 < k \<or> k = 9 \<and> 1 < unat ?b mod 128"
    using p(1) that by (auto simp: varint_get.simps [of buf p] word_less_nat_alt unat_and_7F Let_def)
  show ?case
  proof (cases "9 < k \<or> k = 9 \<and> 1 < unat ?b mod 128")
    case True
    have "False" if "drop p buf = bs @ rest" "varint_shape bs" "k + length bs \<le> 10"
      "unat v + 2 ^ (7 * k) * varint_value bs < 2 ^ 64" for bs rest
    proof (cases bs)
      case (Cons b bs')
      then have "k = 9" "b = ?b" "bs' = []" "1 < unat ?b mod 128" using that p True by auto
      then show False using that(4) Cons by simp
    qed (use that in simp)
    then show ?thesis using rej [OF True] by auto
  next
    case False
    let ?v = "v OR push_bit (7 * k) (ucast (?b AND 0x7F))"
    note get = varint_get_step(1) [OF p(1) Suc.prems False] and u = varint_get_step(2) [OF p(1) Suc.prems False]
      and lt = varint_get_step(3) [OF p(1) Suc.prems False] and lt64 = varint_get_step(4) [OF p(1) Suc.prems False]
    show ?thesis
    proof (cases "unat ?b < 128")
      case True
      have bs: "bs = [?b]" if "drop p buf = bs @ rest" "varint_shape bs" for bs rest
        using that p True by (cases bs rule: varint_shape.cases) auto
      have "varint_get buf p v (7 * k) = Some (v', p') \<longleftrightarrow> p' = p + 1 \<and> unat v' = unat ?v"
        using get True by (auto simp: word_unat_eq_iff)
      moreover have "(\<exists>bs rest. drop p buf = bs @ rest \<and> varint_shape bs \<and> p' = p + length bs \<and>
          k + length bs \<le> 10 \<and> unat v + 2 ^ (7 * k) * varint_value bs < 2 ^ 64 \<and>
          unat v' = unat v + 2 ^ (7 * k) * varint_value bs) \<longleftrightarrow> p' = p + 1 \<and> unat v' = unat ?v" (is "?L \<longleftrightarrow> ?R")
      proof
        assume ?L
        then show ?R using bs u by force
      next
        assume ?R
        moreover have "k \<le> 9" using False by simp
        ultimately show ?L using True p(2) lt64 u
          by (intro exI [of _ "[?b]"] exI [of _ "drop (p + 1) buf"]) simp
      qed
      ultimately show ?thesis by simp
    next
      case more: False
      have val: "unat v + 2 ^ (7 * k) * varint_value (?b # bs) = unat ?v + 2 ^ (7 * Suc k) * varint_value bs" for bs
        using u by (simp add: power_add algebra_simps)
      have IH: "varint_get buf p v (7 * k) = Some (v', p') \<longleftrightarrow>
         (\<exists>bs rest. drop (p + 1) buf = bs @ rest \<and> varint_shape bs \<and> p' = p + 1 + length bs \<and>
            Suc k + length bs \<le> 10 \<and> unat v + 2 ^ (7 * k) * varint_value (?b # bs) < 2 ^ 64 \<and>
            unat v' = unat v + 2 ^ (7 * k) * varint_value (?b # bs))"
        unfolding val using get more Suc.hyps(1) [of "p + 1" ?v "Suc k"] Suc.hyps(2) u lt by simp
      show ?thesis
      proof
        assume "varint_get buf p v (7 * k) = Some (v', p')"
        then obtain bs rest where b: "drop (p + 1) buf = bs @ rest" "varint_shape bs" "p' = p + 1 + length bs"
          "Suc k + length bs \<le> 10" "unat v + 2 ^ (7 * k) * varint_value (?b # bs) < 2 ^ 64"
          "unat v' = unat v + 2 ^ (7 * k) * varint_value (?b # bs)" using IH by blast
        have "bs \<noteq> []" using b(2) by auto
        then have "varint_shape (?b # bs)" using b(2) more by (simp add: varint_shape_Cons)
        moreover have "drop p buf = (?b # bs) @ rest" using p(2) b(1) by simp
        ultimately show "\<exists>bs rest. drop p buf = bs @ rest \<and> varint_shape bs \<and> p' = p + length bs \<and>
          k + length bs \<le> 10 \<and> unat v + 2 ^ (7 * k) * varint_value bs < 2 ^ 64 \<and>
          unat v' = unat v + 2 ^ (7 * k) * varint_value bs"
          using b(3-6) by (intro exI [of _ "?b # bs"] exI [of _ rest]) simp
      next
        assume "\<exists>bs rest. drop p buf = bs @ rest \<and> varint_shape bs \<and> p' = p + length bs \<and>
          k + length bs \<le> 10 \<and> unat v + 2 ^ (7 * k) * varint_value bs < 2 ^ 64 \<and>
          unat v' = unat v + 2 ^ (7 * k) * varint_value bs"
        then obtain bs rest where b: "drop p buf = bs @ rest" "varint_shape bs" "p' = p + length bs"
          "k + length bs \<le> 10" "unat v + 2 ^ (7 * k) * varint_value bs < 2 ^ 64"
          "unat v' = unat v + 2 ^ (7 * k) * varint_value bs" by blast
        obtain bs' where bs': "bs = ?b # bs'" using b(1,2) p(2) by (cases bs) auto
        then have ne: "bs' \<noteq> []" using b(2) more by auto
        then have "varint_shape bs'" using b(2) bs' by (simp add: varint_shape_Cons)
        moreover have "drop (p + 1) buf = bs' @ rest" using p(2) b(1) bs' by simp
        ultimately show "varint_get buf p v (7 * k) = Some (v', p')"
          using IH b(3-6) bs' by auto
      qed
    qed
  qed
qed

lemma varint_size_eq: "varint_size v (Suc n) = n + length (varint_bytes (unat v))"
proof (induction v n arbitrary: rule: varint_size.induct)
  case (1 v n)
  have "v > 0x7F \<longleftrightarrow> \<not> unat v < 128" by (auto simp: word_less_nat_alt)
  then show ?case using 1 by (cases "unat v < 128")
    (simp_all add: varint_size.simps [of v] varint_bytes.simps [of "unat v"] unat_drop_bit)
qed

lemma varint_compute_eq: "xylem_varint_compute v = length (varint_bytes (unat v))"
  using varint_size_eq [of v 0] by (simp add: xylem_varint_compute_def)

lemma varint_get_bytes:
  assumes "drop p buf = varint_bytes (unat v) @ rest"
  shows "varint_get buf p 0 0 = Some (v, p + length (varint_bytes (unat v)))"
proof -
  have "varint_get buf p 0 (7 * 0) = Some (v, p + length (varint_bytes (unat v)))"
    using assms varint_bytes_ok [of "unat v"] varint_length_u64 [of v] unat_less [of v]
    by (subst varint_get_iff) auto
  then show ?thesis by simp
qed

section \<open>Properties\<close>

text \<open>C14. Encoding a value succeeds exactly when \<open>xylem_varint_compute\<close> bytes fit behind the position;
  it then writes those bytes only, advances the position by their number, which is between 1
  and 10, and decoding at the old position returns the value and the new position.\<close>

theorem varint_roundtrip:
  assumes "pos \<le> length buf" and "buf \<noteq> []"
  shows "(case xylem_varint_encode v (Some buf) (Some pos) of
      (True, Some buf', Some pos') \<Rightarrow>
        pos' = pos + xylem_varint_compute v \<and> pos' \<le> length buf \<and> length buf' = length buf \<and>
        take pos buf' = take pos buf \<and> drop pos' buf' = drop pos' buf \<and>
        xylem_varint_decode (Some buf') (Some pos) = Some (v, pos')
    | (ok, _, pos') \<Rightarrow> \<not> ok \<and> pos' = Some pos \<and> length buf < pos + xylem_varint_compute v)
    \<and> 1 \<le> xylem_varint_compute v \<and> xylem_varint_compute v \<le> 10"
proof -
  let ?bs = "varint_bytes (unat v)"
  have l: "1 \<le> length ?bs" "length ?bs \<le> 10"
    using varint_bytes_ok(3) [of "unat v"] varint_length_u64 [of v] by (simp_all add: Suc_le_eq)
  show ?thesis
  proof (cases "length ?bs \<le> length buf - pos")
    case True
    let ?buf = "take pos buf @ ?bs @ drop (pos + length ?bs) buf"
    have "xylem_varint_encode v (Some buf) (Some pos) = (True, Some ?buf, Some (pos + length ?bs))"
      using assms True by (simp add: xylem_varint_encode_def varint_put_eq Let_def)
    moreover have "varint_get ?buf pos 0 0 = Some (v, pos + length ?bs)"
      using assms(1) by (intro varint_get_bytes) simp
    then have "xylem_varint_decode (Some ?buf) (Some pos) = Some (v, pos + length ?bs)"
      using l(1) assms(1) True by (simp add: xylem_varint_decode_def)
    ultimately show ?thesis using assms True l by (simp add: varint_compute_eq)
  next
    case False
    then show ?thesis using assms l
      by (simp add: xylem_varint_encode_def varint_put_eq Let_def varint_compute_eq)
  qed
qed

theorem varint_roundtrip_witness:
  "case xylem_varint_encode 300 (Some [0, 0, 0, 7]) (Some 1) of
      (True, Some buf', Some pos') \<Rightarrow>
        pos' = 1 + xylem_varint_compute 300 \<and> pos' \<le> 4 \<and> length buf' = 4 \<and>
        xylem_varint_decode (Some buf') (Some 1) = Some (300, pos')
    | (ok, _, pos') \<Rightarrow> \<not> ok \<and> 4 < 1 + xylem_varint_compute 300"
  using varint_roundtrip [of 1 "[0, 0, 0, 7]" 300] by (auto split: option.splits bool.splits prod.splits)

text \<open>C15. The decoder accepts exactly the well-formed varints: at most ten bytes, all but the last with
  the continuation bit, with a value below \<open>2 ^ 64\<close>. The result is that value, no bit of it is
  lost, and the position moves past its last byte; everything else is refused.\<close>

theorem varint_decode_exact:
  "xylem_varint_decode (Some buf) (Some p) = Some (v, p') \<longleftrightarrow>
     (\<exists>bs rest. drop p buf = bs @ rest \<and> varint_shape bs \<and> length bs \<le> 10 \<and> varint_value bs < 2 ^ 64 \<and>
        unat v = varint_value bs \<and> p' = p + length bs)"
proof (cases "p < length buf")
  case True
  then have "xylem_varint_decode (Some buf) (Some p) = varint_get buf p 0 (7 * 0)"
    by (simp add: xylem_varint_decode_def)
  moreover have "unat (0 :: u64) < 2 ^ (7 * 0)" by simp
  ultimately show ?thesis using varint_get_iff [of 0 0 buf p v p'] by (simp only:) auto
next
  case False
  then show ?thesis by (auto simp: xylem_varint_decode_def)
qed

end
