(* ===== verification/Url_Codec.thy ===== *)
theory Url_Codec
  imports Word_Bits
begin

text \<open>
  Percent encoding, \<open>src/encoding/xylem-url.c\<close>. The source is a list of bytes whose length is
  \<open>slen\<close>, \<open>None\<close> for a null pointer; \<open>dst\<close> says whether the destination pointer is not null and
  \<open>dlen\<close> is its size. The result is \<open>None\<close> for the return value -1 and otherwise the bytes
  written, whose number is the return value.
\<close>

section \<open>Tables\<close>

definition hex_digit :: "nat \<Rightarrow> u8" where
  "hex_digit i = map (of_nat \<circ> of_char) ''0123456789ABCDEF'' ! i"

text \<open>\<open>_hex_table\<close>: the value of a hexadecimal digit plus one, 0 for any other byte.\<close>

definition hex_table :: "u8 \<Rightarrow> u8" where
  "hex_table c =
     (if 0x30 \<le> c \<and> c \<le> 0x39 then c - 0x30 + 1
      else if 0x41 \<le> c \<and> c \<le> 0x46 then c - 0x41 + 11
      else if 0x61 \<le> c \<and> c \<le> 0x66 then c - 0x61 + 11
      else 0)"

definition url_unreserved :: "u8 \<Rightarrow> bool" where
  "url_unreserved c \<longleftrightarrow> 0x41 \<le> c \<and> c \<le> 0x5A \<or> 0x61 \<le> c \<and> c \<le> 0x7A \<or> 0x30 \<le> c \<and> c \<le> 0x39 \<or>
     c = 0x2D \<or> c = 0x2E \<or> c = 0x5F \<or> c = 0x7E"

section \<open>Operations\<close>

definition int_max :: int where "int_max = 2147483647"

definition xylem_url_encode_size :: "int \<Rightarrow> int" where
  "xylem_url_encode_size slen = (if slen < 0 \<or> slen > int_max div 3 then -1 else slen * 3)"

definition xylem_url_decode_size :: "int \<Rightarrow> int" where
  "xylem_url_decode_size slen = slen"

fun url_encode_loop :: "u8 list \<Rightarrow> u8 list" where
  "url_encode_loop [] = []"
| "url_encode_loop (c # cs) =
     (if url_unreserved c then c # url_encode_loop cs
      else 0x25 # hex_digit (unat (drop_bit 4 c)) # hex_digit (unat (c AND 0x0F)) # url_encode_loop cs)"

definition xylem_url_encode :: "u8 list option \<Rightarrow> bool \<Rightarrow> int \<Rightarrow> u8 list option" where
  "xylem_url_encode srcp dst dlen =
     (case srcp of None \<Rightarrow> None
      | Some src \<Rightarrow>
          if \<not> dst \<or> int (length src) > int_max div 3 \<or> dlen < int (length src) * 3 then None
          else Some (url_encode_loop src))"

text \<open>An escape needs two more bytes; one that is not followed by two hexadecimal digits is copied.\<close>

fun url_decode_loop :: "u8 list \<Rightarrow> u8 list" where
  "url_decode_loop [] = []"
| "url_decode_loop (c # cs) =
     (case cs of
        h # l # rest \<Rightarrow>
          if c = 0x25 \<and> hex_table h \<noteq> 0 \<and> hex_table l \<noteq> 0
          then (push_bit 4 (hex_table h - 1) OR (hex_table l - 1)) # url_decode_loop rest
          else c # url_decode_loop cs
      | _ \<Rightarrow> c # url_decode_loop cs)"

definition xylem_url_decode :: "u8 list option \<Rightarrow> bool \<Rightarrow> int \<Rightarrow> u8 list option" where
  "xylem_url_decode srcp dst dlen =
     (case srcp of None \<Rightarrow> None
      | Some src \<Rightarrow> if \<not> dst \<or> dlen < int (length src) then None else Some (url_decode_loop src))"

section \<open>Correctness\<close>

lemma hex_digit_table:
  assumes "i < 16"
  shows "hex_table (hex_digit i) = of_nat i + 1" "url_unreserved (hex_digit i)"
proof -
  have "\<forall>i \<in> set [0..<16]. hex_table (hex_digit i) = of_nat i + 1 \<and> url_unreserved (hex_digit i)"
    by (simp add: upt_rec hex_digit_def hex_table_def url_unreserved_def)
  then show "hex_table (hex_digit i) = of_nat i + 1" "url_unreserved (hex_digit i)" using assms by auto
qed

lemma nibbles: "push_bit 4 (drop_bit 4 c) OR (c AND 0x0F) = (c :: u8)"
proof -
  have l: "unat (c AND 0x0F) = unat c mod 16" using unat_and_mask [of c 4] by (simp add: mask_eq_exp_minus_1)
  have h: "unat (drop_bit 4 c) = unat c div 16" by (simp add: unat_drop_bit)
  have "unat ((c AND 0x0F) OR push_bit 4 (drop_bit 4 c)) = unat c mod 16 + unat c div 16 * 16"
    using unat_or_push_bit [of "c AND 0x0F" 4 "drop_bit 4 c"] unat_less [of c]
    unfolding l h by (simp add: mod_div_mult_eq)
  then show ?thesis by (simp add: word_unat_eq_iff or.commute mod_div_mult_eq)
qed

lemma url_decode_plain: "c \<noteq> 0x25 \<Longrightarrow> url_decode_loop (c # cs) = c # url_decode_loop cs"
  by (simp split: list.splits)

lemma url_decode_encode: "url_decode_loop (url_encode_loop cs) = cs"
proof (induction cs)
  case (Cons c cs)
  show ?case
  proof (cases "url_unreserved c")
    case True
    then have "c \<noteq> 0x25" by (auto simp: url_unreserved_def)
    then show ?thesis using Cons.IH True by (simp add: url_decode_plain del: url_decode_loop.simps)
  next
    case False
    have "unat (drop_bit 4 c) < 16" "unat (c AND 0x0F) < 16"
      using unat_less [of c] unat_and_mask [of c 4] by (simp_all add: unat_drop_bit mask_eq_exp_minus_1)
    moreover have "unat c div 16 < 16" using unat_less [of c] by simp
    ultimately have "hex_table (hex_digit (unat (drop_bit 4 c))) = drop_bit 4 c + 1"
      "hex_table (hex_digit (unat (c AND 0x0F))) = (c AND 0x0F) + 1"
      by (simp_all add: hex_digit_table)
    moreover have "drop_bit 4 c + 1 \<noteq> 0" "(c AND 0x0F) + 1 \<noteq> 0"
      using unat_less [of c] unat_and_mask [of c 4]
      by (auto simp: word_unat_eq_iff unat_word_ariths unat_drop_bit mask_eq_exp_minus_1)
    ultimately show ?thesis using False Cons.IH nibbles [of c] by simp
  qed
qed simp

lemma url_encode_length: "length (url_encode_loop cs) \<le> 3 * length cs"
  by (induction cs) auto

lemma url_decode_length: "length (url_decode_loop cs) \<le> length cs"
proof (induction "length cs" arbitrary: cs rule: less_induct)
  case less
  show ?case
  proof (cases cs)
    case (Cons c ds)
    have "length (url_decode_loop ds) \<le> length ds" using less [of ds] Cons by simp
    moreover have "length (url_decode_loop es) \<le> length es" if "ds = h # l # es" for h l es
      using less [of es] Cons that by simp
    ultimately show ?thesis using Cons by (auto simp del: url_decode_loop.simps simp: url_decode_loop.simps(2) [of c ds] split: list.split)
  qed simp
qed

section \<open>Properties\<close>



end
