(* ===== verification/Base64.thy ===== *)
theory Base64
  imports Word_Bits
begin

text \<open>
  Base64 in the standard and the URL-safe alphabet, \<open>src/encoding/xylem-base64.c\<close>. Source and
  output are lists of bytes, \<open>slen\<close> is the length of the source. The outer \<open>option\<close> of a result is
  \<open>None\<close> where the C code overflows a signed \<open>int\<close> (undefined behaviour), the inner one is
  \<open>None\<close> for the return value -1 and otherwise holds the bytes written to \<open>dst\<close>. A negative
  table entry is shifted left as two's complement does it.
\<close>

section \<open>Tables\<close>

definition b64_enc_std :: "u8 list" where
  "b64_enc_std = map (of_nat \<circ> of_char)
     ''ABCDEFGHIJKLMNOPQRSTUVWXYZabcdefghijklmnopqrstuvwxyz0123456789+/''"

definition b64_enc_url :: "u8 list" where
  "b64_enc_url = map (of_nat \<circ> of_char)
     ''ABCDEFGHIJKLMNOPQRSTUVWXYZabcdefghijklmnopqrstuvwxyz0123456789-_''"

definition b64_dec_std :: "int list" where
  "b64_dec_std = [
     -1, -1, -1, -1, -1, -1, -1, -1, -1, -1, -1, -1, -1, -1, -1, -1,
     -1, -1, -1, -1, -1, -1, -1, -1, -1, -1, -1, -1, -1, -1, -1, -1,
     -1, -1, -1, -1, -1, -1, -1, -1, -1, -1, -1, 62, -1, -1, -1, 63,
     52, 53, 54, 55, 56, 57, 58, 59, 60, 61, -1, -1, -1, -1, -1, -1,
     -1, 0, 1, 2, 3, 4, 5, 6, 7, 8, 9, 10, 11, 12, 13, 14,
     15, 16, 17, 18, 19, 20, 21, 22, 23, 24, 25, -1, -1, -1, -1, -1,
     -1, 26, 27, 28, 29, 30, 31, 32, 33, 34, 35, 36, 37, 38, 39, 40,
     41, 42, 43, 44, 45, 46, 47, 48, 49, 50, 51, -1, -1, -1, -1, -1,
     -1, -1, -1, -1, -1, -1, -1, -1, -1, -1, -1, -1, -1, -1, -1, -1,
     -1, -1, -1, -1, -1, -1, -1, -1, -1, -1, -1, -1, -1, -1, -1, -1,
     -1, -1, -1, -1, -1, -1, -1, -1, -1, -1, -1, -1, -1, -1, -1, -1,
     -1, -1, -1, -1, -1, -1, -1, -1, -1, -1, -1, -1, -1, -1, -1, -1,
     -1, -1, -1, -1, -1, -1, -1, -1, -1, -1, -1, -1, -1, -1, -1, -1,
     -1, -1, -1, -1, -1, -1, -1, -1, -1, -1, -1, -1, -1, -1, -1, -1,
     -1, -1, -1, -1, -1, -1, -1, -1, -1, -1, -1, -1, -1, -1, -1, -1,
     -1, -1, -1, -1, -1, -1, -1, -1, -1, -1, -1, -1, -1, -1, -1, -1]"

definition b64_dec_url :: "int list" where
  "b64_dec_url = [
     -1, -1, -1, -1, -1, -1, -1, -1, -1, -1, -1, -1, -1, -1, -1, -1,
     -1, -1, -1, -1, -1, -1, -1, -1, -1, -1, -1, -1, -1, -1, -1, -1,
     -1, -1, -1, -1, -1, -1, -1, -1, -1, -1, -1, -1, -1, 62, -1, -1,
     52, 53, 54, 55, 56, 57, 58, 59, 60, 61, -1, -1, -1, -1, -1, -1,
     -1, 0, 1, 2, 3, 4, 5, 6, 7, 8, 9, 10, 11, 12, 13, 14,
     15, 16, 17, 18, 19, 20, 21, 22, 23, 24, 25, -1, -1, -1, -1, 63,
     -1, 26, 27, 28, 29, 30, 31, 32, 33, 34, 35, 36, 37, 38, 39, 40,
     41, 42, 43, 44, 45, 46, 47, 48, 49, 50, 51, -1, -1, -1, -1, -1,
     -1, -1, -1, -1, -1, -1, -1, -1, -1, -1, -1, -1, -1, -1, -1, -1,
     -1, -1, -1, -1, -1, -1, -1, -1, -1, -1, -1, -1, -1, -1, -1, -1,
     -1, -1, -1, -1, -1, -1, -1, -1, -1, -1, -1, -1, -1, -1, -1, -1,
     -1, -1, -1, -1, -1, -1, -1, -1, -1, -1, -1, -1, -1, -1, -1, -1,
     -1, -1, -1, -1, -1, -1, -1, -1, -1, -1, -1, -1, -1, -1, -1, -1,
     -1, -1, -1, -1, -1, -1, -1, -1, -1, -1, -1, -1, -1, -1, -1, -1,
     -1, -1, -1, -1, -1, -1, -1, -1, -1, -1, -1, -1, -1, -1, -1, -1,
     -1, -1, -1, -1, -1, -1, -1, -1, -1, -1, -1, -1, -1, -1, -1, -1]"

section \<open>Operations\<close>

text \<open>A signed 32-bit result, \<open>None\<close> on overflow.\<close>

definition c_int :: "int \<Rightarrow> int option" where
  "c_int x = (if - (2 ^ 31) \<le> x \<and> x < 2 ^ 31 then Some x else None)"

definition xylem_base64_encode_size :: "int \<Rightarrow> int option" where
  "xylem_base64_encode_size slen = do { s \<leftarrow> c_int (slen + 2); c_int ((s sdiv 3) * 4) }"

definition xylem_base64_decode_size :: "int \<Rightarrow> int option" where
  "xylem_base64_decode_size slen = do { s \<leftarrow> c_int (slen + 3); c_int ((s sdiv 4) * 3) }"

definition b64_pick :: "u8 list \<Rightarrow> u32 \<Rightarrow> u8" where
  "b64_pick table i = table ! unat i"

fun b64_encode_loop :: "u8 list \<Rightarrow> bool \<Rightarrow> u8 list \<Rightarrow> u8 list" where
  "b64_encode_loop table padding (a # b # c # src) =
     (let val = push_bit 16 (ucast a) OR push_bit 8 (ucast b) OR ucast c in
      b64_pick table (drop_bit 18 val) # b64_pick table (drop_bit 12 val AND 0x3f) #
      b64_pick table (drop_bit 6 val AND 0x3f) # b64_pick table (val AND 0x3f) #
      b64_encode_loop table padding src)"
| "b64_encode_loop table padding [a, b] =
     (let val = push_bit 16 (ucast a) OR push_bit 8 (ucast b) in
      b64_pick table (drop_bit 18 val) # b64_pick table (drop_bit 12 val AND 0x3f) #
      b64_pick table (drop_bit 6 val AND 0x3f) # (if padding then [0x3D] else []))"
| "b64_encode_loop table padding [a] =
     (let val = push_bit 16 (ucast a) in
      b64_pick table (drop_bit 18 val) # b64_pick table (drop_bit 12 val AND 0x3f) #
      (if padding then [0x3D, 0x3D] else []))"
| "b64_encode_loop table padding [] = []"

definition base64_encode :: "u8 list \<Rightarrow> int \<Rightarrow> u8 list \<Rightarrow> bool \<Rightarrow> u8 list option option" where
  "base64_encode src dlen table padding = do {
     n \<leftarrow> xylem_base64_encode_size (int (length src));
     Some (if dlen < n then None else Some (b64_encode_loop table padding src)) }"

definition b64_look :: "int list \<Rightarrow> u8 \<Rightarrow> int" where
  "b64_look table c = table ! unat c"

text \<open>What follows the loop of \<open>_base64_decode\<close>, for the last two or three characters.\<close>

fun b64_decode_tail :: "int list \<Rightarrow> u8 list \<Rightarrow> u8 list option" where
  "b64_decode_tail table [a, b] =
     (let v0 = b64_look table a; v1 = b64_look table b in
      if v0 < 0 \<or> v1 < 0 then None
      else let val = push_bit 12 v0 OR push_bit 6 v1 in
        if val AND 0x3ff \<noteq> 0 then None else Some [of_int (drop_bit 10 val)])"
| "b64_decode_tail table [a, b, c] =
     (let v0 = b64_look table a; v1 = b64_look table b in
      if v0 < 0 \<or> v1 < 0 then None
      else let v2 = b64_look table c in
        if v2 < 0 then None
        else let val = push_bit 12 v0 OR push_bit 6 v1 OR v2 in
          if val AND 0x3 \<noteq> 0 then None
          else Some [of_int (drop_bit 10 val), of_int (drop_bit 2 val)])"
| "b64_decode_tail table _ = None"

fun b64_decode_loop :: "int list \<Rightarrow> bool \<Rightarrow> u8 list \<Rightarrow> u8 list option" where
  "b64_decode_loop table padding (a # b # c # d # src) =
     (let val = push_bit 18 (b64_look table a) OR push_bit 12 (b64_look table b) OR
                push_bit 6 (b64_look table c) OR b64_look table d in
      if val < 0 then
        if \<not> padding \<or> src \<noteq> [] \<or> d \<noteq> 0x3D then None
        else b64_decode_tail table (if c = 0x3D then [a, b] else [a, b, c])
      else do {
        out \<leftarrow> b64_decode_loop table padding src;
        Some (of_int (drop_bit 16 val) # of_int (drop_bit 8 val) # of_int val # out) })"
| "b64_decode_loop table padding [] = Some []"
| "b64_decode_loop table padding src =
     (if padding \<or> length src = 1 then None else b64_decode_tail table src)"

definition base64_decode :: "u8 list \<Rightarrow> int \<Rightarrow> int list \<Rightarrow> bool \<Rightarrow> u8 list option option" where
  "base64_decode src dlen table padding = do {
     n \<leftarrow> xylem_base64_decode_size (int (length src));
     Some (if dlen < n then None else b64_decode_loop table padding src) }"

definition xylem_base64_encode_std :: "u8 list \<Rightarrow> int \<Rightarrow> u8 list option option" where
  "xylem_base64_encode_std src dlen = base64_encode src dlen b64_enc_std True"

definition xylem_base64_decode_std :: "u8 list \<Rightarrow> int \<Rightarrow> u8 list option option" where
  "xylem_base64_decode_std src dlen = base64_decode src dlen b64_dec_std True"

definition xylem_base64_encode_url :: "u8 list \<Rightarrow> int \<Rightarrow> bool \<Rightarrow> u8 list option option" where
  "xylem_base64_encode_url src dlen padding = base64_encode src dlen b64_enc_url padding"

definition xylem_base64_decode_url :: "u8 list \<Rightarrow> int \<Rightarrow> bool \<Rightarrow> u8 list option option" where
  "xylem_base64_decode_url src dlen padding = base64_decode src dlen b64_dec_url padding"

text \<open>The valid entries of each decoding table, by position, are the alphabet with its indices.\<close>

primrec b64_entries :: "int \<Rightarrow> int list \<Rightarrow> (int \<times> int) list" where
  "b64_entries n [] = []"
| "b64_entries n (v # vs) = (if 0 \<le> v then [(n, v)] else []) @ b64_entries (n + 1) vs"

definition b64_codes_std :: "int list" where
  "b64_codes_std = [65, 66, 67, 68, 69, 70, 71, 72, 73, 74, 75, 76, 77, 78, 79, 80, 81, 82, 83, 84, 85, 86, 87, 88, 89, 90,
     97, 98, 99, 100, 101, 102, 103, 104, 105, 106, 107, 108, 109, 110, 111, 112, 113, 114, 115, 116, 117, 118, 119, 120, 121, 122,
     48, 49, 50, 51, 52, 53, 54, 55, 56, 57, 43, 47]"

definition b64_codes_url :: "int list" where
  "b64_codes_url = [65, 66, 67, 68, 69, 70, 71, 72, 73, 74, 75, 76, 77, 78, 79, 80, 81, 82, 83, 84, 85, 86, 87, 88, 89, 90,
     97, 98, 99, 100, 101, 102, 103, 104, 105, 106, 107, 108, 109, 110, 111, 112, 113, 114, 115, 116, 117, 118, 119, 120, 121, 122,
     48, 49, 50, 51, 52, 53, 54, 55, 56, 57, 45, 95]"

section \<open>Groups of three bytes and four characters as numbers\<close>

lemma b64_val3:
  "unat (push_bit 16 (ucast a) OR push_bit 8 (ucast b) OR ucast c :: u32) =
     unat (a :: u8) * 65536 + unat (b :: u8) * 256 + unat (c :: u8)"
proof -
  have u: "unat (ucast x :: u32) = unat (x :: u8)" for x
    using unat_less [of x] by (simp add: unat_of_nat_small ucast_eq_of_nat del: of_nat_unat)
  have lo: "unat (ucast c OR push_bit 8 (ucast b) :: u32) = unat c + unat b * 256"
    using unat_or_push_bit [of "ucast c :: u32" 8 "ucast b"] unat_less [of c] unat_less [of b] by (simp add: u)
  have "unat ((ucast c OR push_bit 8 (ucast b)) OR push_bit 16 (ucast a) :: u32) =
      unat c + unat b * 256 + unat a * 65536"
    using unat_or_push_bit [of "ucast c OR push_bit 8 (ucast b) :: u32" 16 "ucast a"]
      unat_less [of a] unat_less [of b] unat_less [of c] by (simp add: lo u)
  moreover have "push_bit 16 (ucast a) OR push_bit 8 (ucast b) OR ucast c =
      (ucast c OR push_bit 8 (ucast b)) OR push_bit 16 (ucast a :: u32)"
    by (simp only: or.assoc or.commute or.left_commute)
  ultimately show ?thesis by simp
qed

lemma b64_pick_parts:
  "b64_pick t (drop_bit 18 v) = t ! (unat v div 262144)"
  "b64_pick t (drop_bit 12 v AND 0x3f) = t ! (unat v div 4096 mod 64)"
  "b64_pick t (drop_bit 6 v AND 0x3f) = t ! (unat v div 64 mod 64)"
  "b64_pick t (v AND 0x3f) = t ! (unat v mod 64)"
proof -
  have m: "unat (w AND 0x3f) = unat w mod 64" for w :: u32
    using unat_and_mask [of w 6] by (simp add: mask_eq_exp_minus_1)
  show "b64_pick t (drop_bit 18 v) = t ! (unat v div 262144)"
    "b64_pick t (drop_bit 12 v AND 0x3f) = t ! (unat v div 4096 mod 64)"
    "b64_pick t (drop_bit 6 v AND 0x3f) = t ! (unat v div 64 mod 64)"
    "b64_pick t (v AND 0x3f) = t ! (unat v mod 64)"
    by (simp_all only: b64_pick_def m unat_drop_bit) simp_all
qed

lemma int_or_push:
  fixes a b :: int
  assumes "0 \<le> a" "a < 2 ^ s"
  shows "push_bit s b OR a = b * 2 ^ s + a"
proof -
  have "take_bit s a = a" using assms by (simp add: take_bit_int_eq_self_iff)
  then have "bit a n \<Longrightarrow> n < s" for n by (metis bit_take_bit_iff)
  then have "push_bit s b AND a = 0"
    by (intro bit_eqI) (auto simp: bit_and_iff bit_push_bit_iff dest: leD)
  then show ?thesis by (simp add: disjunctive_add_eq_or [symmetric] push_bit_eq_mult)
qed

text \<open>The value of four characters with table entries below 64.\<close>

lemma b64_val4:
  fixes v0 v1 v2 v3 :: int
  assumes "0 \<le> v1" "v1 < 64" "0 \<le> v2" "v2 < 64" "0 \<le> v3" "v3 < 64"
  shows "push_bit 18 v0 OR push_bit 12 v1 OR push_bit 6 v2 OR v3 = v0 * 262144 + v1 * 4096 + v2 * 64 + v3"
proof -
  have 1: "push_bit 6 v2 OR v3 = v2 * 64 + v3" using int_or_push [of v3 6 v2] assms by simp
  have 2: "push_bit 12 v1 OR (push_bit 6 v2 OR v3) = v1 * 4096 + (v2 * 64 + v3)"
    using int_or_push [of "v2 * 64 + v3" 12 v1] assms by (simp add: 1)
  show ?thesis
    using int_or_push [of "v1 * 4096 + (v2 * 64 + v3)" 18 v0] assms unfolding or.assoc 2 by simp
qed

lemma b64_val_neg:
  fixes v0 v1 v2 v3 :: int
  shows "push_bit 18 v0 OR push_bit 12 v1 OR push_bit 6 v2 OR v3 < 0 \<longleftrightarrow> v0 < 0 \<or> v1 < 0 \<or> v2 < 0 \<or> v3 < 0"
  by (simp add: or_negative_int_iff push_bit_negative_int_iff)

text \<open>Three bytes and four six-bit numbers with the same value determine each other.\<close>

lemma b64_radix3:
  fixes a b c :: nat
  assumes "a < 256" "b < 256" "c < 256" "x = a * 65536 + b * 256 + c"
  shows "x div 65536 = a" "x div 256 mod 256 = b" "x mod 256 = c" "x div 262144 < 64"
proof -
  show "x div 65536 = a" using assms by (intro div_nat_eqI) auto
  have "x div 256 = a * 256 + b" using assms by (intro div_nat_eqI) auto
  then show "x div 256 mod 256 = b" using assms by (simp only: mod_mult_self3 mod_less)
  have "x = (a * 256 + b) * 256 + c" using assms(4) by simp
  then show "x mod 256 = c" using assms(3) by (simp only: mod_mult_self3 mod_less)
  show "x div 262144 < 64" using assms by (simp add: less_mult_imp_div_less)
qed

lemma b64_radix4:
  fixes v0 v1 v2 v3 :: nat
  assumes "v0 < 64" "v1 < 64" "v2 < 64" "v3 < 64" "y = v0 * 262144 + v1 * 4096 + v2 * 64 + v3"
  shows "y div 262144 = v0" "y div 4096 mod 64 = v1" "y div 64 mod 64 = v2" "y mod 64 = v3" "y div 65536 < 256"
proof -
  show "y div 262144 = v0" using assms by (intro div_nat_eqI) auto
  have "y div 4096 = v0 * 64 + v1" using assms by (intro div_nat_eqI) auto
  then show "y div 4096 mod 64 = v1" using assms by (simp only: mod_mult_self3 mod_less)
  have "y div 64 = (v0 * 64 + v1) * 64 + v2" using assms by (intro div_nat_eqI) auto
  then show "y div 64 mod 64 = v2" using assms by (simp only: mod_mult_self3 mod_less)
  have "y = ((v0 * 64 + v1) * 64 + v2) * 64 + v3" using assms by simp
  then show "y mod 64 = v3" using assms(4) by (simp only: mod_mult_self3 mod_less)
  show "y div 65536 < 256" using assms by (simp add: less_mult_imp_div_less)
qed

lemma b64_split3: "x = x div 65536 * 65536 + x div 256 mod 256 * 256 + x mod (256::nat)"
proof -
  have "x div 256 = x div 65536 * 256 + x div 256 mod 256"
    using div_mult_mod_eq [of "x div 256" 256] by (simp add: div_mult2_eq [symmetric])
  then show ?thesis using div_mult_mod_eq [of x 256] by linarith
qed

lemma b64_split4_div: "x div 64 = x div 262144 * 4096 + x div 4096 mod 64 * 64 + x div 64 mod (64::nat)"
proof -
  have "x div 4096 = x div 262144 * 64 + x div 4096 mod 64"
    using div_mult_mod_eq [of "x div 4096" 64] by (simp add: div_mult2_eq [symmetric])
  moreover have "x div 64 = x div 4096 * 64 + x div 64 mod 64"
    using div_mult_mod_eq [of "x div 64" 64] by (simp add: div_mult2_eq [symmetric])
  ultimately show ?thesis by linarith
qed

lemma b64_split4: "x = x div 262144 * 262144 + x div 4096 mod 64 * 4096 + x div 64 mod 64 * 64 + x mod (64::nat)"
  using b64_split4_div [of x] div_mult_mod_eq [of x 64] by linarith

lemma of_int_drop_bit: "(of_int (drop_bit n (int y)) :: u8) = of_nat (y div 2 ^ n)"
  by (metis drop_bit_eq_div of_int_of_nat_eq of_nat_div of_nat_numeral of_nat_power)

lemma of_nat_u8_mod: "(of_nat (y mod 256) :: u8) = of_nat y"
  by (simp add: word_unat_eq_iff unat_of_nat)

section \<open>The tables\<close>

text \<open>What the two directions rely on: the decoding table inverts the alphabet, has no other
  valid entry, and refuses the padding character.\<close>

locale b64_tables =
  fixes enc :: "u8 list" and dec :: "int list"
  assumes dec_enc: "i < 64 \<Longrightarrow> b64_look dec (enc ! i) = int i"
    and enc_dec: "0 \<le> b64_look dec c \<Longrightarrow> b64_look dec c < 64 \<and> enc ! nat (b64_look dec c) = c"
    and pad_invalid: "b64_look dec 0x3D < 0"
begin

lemma encode3:
  assumes "x = unat a * 65536 + unat b * 256 + unat c"
  shows "b64_encode_loop enc p (a # b # c # src) =
    enc ! (x div 262144) # enc ! (x div 4096 mod 64) # enc ! (x div 64 mod 64) # enc ! (x mod 64) #
    b64_encode_loop enc p src"
  by (simp only: b64_encode_loop.simps Let_def b64_pick_parts unat_drop_bit b64_val3 assms) simp

lemma decode4:
  assumes "v0 < 64" "v1 < 64" "v2 < 64" "v3 < 64" and y: "y = v0 * 262144 + v1 * 4096 + v2 * 64 + v3"
    and "b64_look dec a = int v0" "b64_look dec b = int v1" "b64_look dec c = int v2" "b64_look dec d = int v3"
  shows "b64_decode_loop dec p (a # b # c # d # src) =
    map_option (\<lambda>out. of_nat (y div 65536) # of_nat (y div 256) # of_nat y # out) (b64_decode_loop dec p src)"
proof -
  have "push_bit 18 (int v0) OR push_bit 12 (int v1) OR push_bit 6 (int v2) OR int v3 = int y"
    using b64_val4 [of "int v1" "int v2" "int v3" "int v0"] assms(1-4) y by simp
  then have "b64_decode_loop dec p (a # b # c # d # src) = (if int y < 0 then
        if \<not> p \<or> src \<noteq> [] \<or> d \<noteq> 0x3D then None else b64_decode_tail dec (if c = 0x3D then [a, b] else [a, b, c])
      else do { out \<leftarrow> b64_decode_loop dec p src;
        Some (of_nat (y div 2 ^ 16) # of_nat (y div 2 ^ 8) # of_int (int y) # out) })"
    by (simp only: b64_decode_loop.simps(1) Let_def assms(6-9) of_int_drop_bit)
  then show ?thesis by (cases "b64_decode_loop dec p src") simp_all
qed

lemma tail2:
  assumes "v0 < 64" "v1 < 64" and y: "y = v0 * 4096 + v1 * 64"
    and "b64_look dec a = int v0" "b64_look dec b = int v1"
  shows "b64_decode_tail dec [a, b] = (if y mod 1024 = 0 then Some [of_nat (y div 1024)] else None)"
proof -
  have "push_bit 6 (int v1) = int v1 * 64" by (simp add: push_bit_eq_mult)
  then have "push_bit 12 (int v0) OR push_bit 6 (int v1) = int y"
    using int_or_push [of "int v1 * 64" 12 "int v0"] assms(1,2) y by simp
  moreover have "int y AND 0x3ff = int (y mod 1024)"
    using take_bit_eq_mask [of 10 "int y"] by (simp add: take_bit_eq_mod mask_eq_exp_minus_1 zmod_int)
  ultimately show ?thesis
    by (simp only: b64_decode_tail.simps Let_def assms(4,5) of_int_drop_bit) simp
qed

lemma tail3:
  assumes "v0 < 64" "v1 < 64" "v2 < 64" and y: "y = v0 * 4096 + v1 * 64 + v2"
    and "b64_look dec a = int v0" "b64_look dec b = int v1" "b64_look dec c = int v2"
  shows "b64_decode_tail dec [a, b, c] =
    (if y mod 4 = 0 then Some [of_nat (y div 1024), of_nat (y div 4)] else None)"
proof -
  have "push_bit 6 (int v1) OR int v2 = int v1 * 64 + int v2"
    using int_or_push [of "int v2" 6 "int v1"] assms(3) by simp
  then have "push_bit 12 (int v0) OR (push_bit 6 (int v1) OR int v2) = int y"
    using int_or_push [of "int v1 * 64 + int v2" 12 "int v0"] assms(1-3) y by simp
  then have "push_bit 12 (int v0) OR push_bit 6 (int v1) OR int v2 = int y" by (simp only: or.assoc)
  moreover have "int y AND 0x3 = int (y mod 4)"
    using take_bit_eq_mask [of 2 "int y"] by (simp add: take_bit_eq_mod mask_eq_exp_minus_1 zmod_int)
  ultimately show ?thesis
    by (simp only: b64_decode_tail.simps Let_def assms(5-7) of_int_drop_bit) simp
qed

lemma encode2:
  assumes "x = unat a * 65536 + unat b * 256"
  shows "b64_encode_loop enc p [a, b] =
    enc ! (x div 262144) # enc ! (x div 4096 mod 64) # enc ! (x div 64 mod 64) # (if p then [0x3D] else [])"
  using b64_val3 [of a b 0]
  by (simp only: b64_encode_loop.simps Let_def b64_pick_parts unat_drop_bit) (simp add: assms)

lemma encode1:
  assumes "x = unat a * 65536"
  shows "b64_encode_loop enc p [a] =
    enc ! (x div 262144) # enc ! (x div 4096 mod 64) # (if p then [0x3D, 0x3D] else [])"
  using b64_val3 [of a 0 0]
  by (simp only: b64_encode_loop.simps Let_def b64_pick_parts unat_drop_bit) (simp add: assms)

lemma enc_not_pad: "i < 64 \<Longrightarrow> enc ! i \<noteq> 0x3D"
  using dec_enc [of i] pad_invalid by auto

lemma decode_padded:
  assumes "b64_look dec a = int i" "b64_look dec b = int j" "d = 0x3D"
  shows "b64_decode_loop dec True [a, b, c, d] = b64_decode_tail dec (if c = 0x3D then [a, b] else [a, b, c])"
  using assms pad_invalid by (simp only: b64_decode_loop.simps Let_def b64_val_neg) simp

lemma decode_encode3:
  assumes "b64_decode_loop dec p (b64_encode_loop enc p src) = Some src"
  shows "b64_decode_loop dec p (b64_encode_loop enc p (a # b # c # src)) = Some (a # b # c # src)"
proof -
  define x where "x = unat a * 65536 + unat b * 256 + unat c"
  note r = b64_radix3 [of "unat a" "unat b" "unat c" x]
  have u: "unat a < 256" "unat b < 256" "unat c < 256"
    using unat_less [of a] unat_less [of b] unat_less [of c] by simp_all
  have d: "b64_look dec (enc ! (x div 262144)) = int (x div 262144)"
    "b64_look dec (enc ! (x div 4096 mod 64)) = int (x div 4096 mod 64)"
    "b64_look dec (enc ! (x div 64 mod 64)) = int (x div 64 mod 64)"
    "b64_look dec (enc ! (x mod 64)) = int (x mod 64)"
    using r(4) u x_def by (auto intro!: dec_enc)
  have b: "(of_nat (x div 65536) :: u8) = a" "(of_nat (x div 256) :: u8) = b" "(of_nat x :: u8) = c"
    using r(1-3) u x_def of_nat_u8_mod [of "x div 256"] of_nat_u8_mod [of x] by simp_all
  have v: "x div 262144 < 64" "x div 4096 mod 64 < 64" "x div 64 mod 64 < 64" "x mod 64 < 64"
    using r(4) u x_def by auto
  show ?thesis
    unfolding encode3 [OF x_def] decode4 [OF v b64_split4 d] b assms by simp
qed

lemma decode_encode2:
  "b64_decode_loop dec p (b64_encode_loop enc p [a, b]) = Some [a, b]"
proof -
  define x where "x = unat a * 65536 + unat b * 256 + unat (0 :: u8)"
  note r = b64_radix3 [of "unat a" "unat b" "unat (0 :: u8)" x]
  have u: "unat a < 256" "unat b < 256" using unat_less [of a] unat_less [of b] by simp_all
  have x: "x = unat a * 65536 + unat b * 256" by (simp add: x_def)
  have v: "x div 262144 < 64" "x div 4096 mod 64 < 64" "x div 64 mod 64 < 64" using r(4) u x_def by auto
  have d: "b64_look dec (enc ! (x div 262144)) = int (x div 262144)"
    "b64_look dec (enc ! (x div 4096 mod 64)) = int (x div 4096 mod 64)"
    "b64_look dec (enc ! (x div 64 mod 64)) = int (x div 64 mod 64)"
    using v by (auto intro!: dec_enc)
  have y: "x div 64 = x div 262144 * 4096 + x div 4096 mod 64 * 64 + x div 64 mod 64"
    using b64_split4_div [of x] by simp
  have "x div 64 = unat a * 1024 + unat b * 4" using x by simp
  then have "x div 64 mod 4 = 0" "x div 64 div 1024 = unat a" "x div 64 div 4 = unat a * 256 + unat b"
    using u by (simp_all add: div_nat_eqI)
  moreover have "(of_nat (unat a * 256 + unat b) :: u8) = b"
    using of_nat_u8_mod [of "unat a * 256 + unat b"] u by simp
  ultimately have t: "b64_decode_tail dec [enc ! (x div 262144), enc ! (x div 4096 mod 64), enc ! (x div 64 mod 64)] = Some [a, b]"
    using tail3 [OF v y d] by simp
  show ?thesis
  proof (cases p)
    case True
    then show ?thesis
      using decode_padded [OF d(1,2) refl, of "enc ! (x div 64 mod 64)"] t enc_not_pad [OF v(3)] encode2 [OF x, of p]
      by simp
  next
    case False
    then show ?thesis using t encode2 [OF x, of p] by simp
  qed
qed

lemma decode_encode1:
  "b64_decode_loop dec p (b64_encode_loop enc p [a]) = Some [a]"
proof -
  define x where "x = unat a * 65536"
  have u: "unat a < 256" using unat_less [of a] by simp
  have v: "x div 262144 < 64" "x div 4096 mod 64 < 64" using u by (auto simp: x_def)
  have d: "b64_look dec (enc ! (x div 262144)) = int (x div 262144)"
    "b64_look dec (enc ! (x div 4096 mod 64)) = int (x div 4096 mod 64)"
    using v by (auto intro!: dec_enc)
  have "x div 64 mod 64 = 0" by (simp add: x_def)
  then have y: "x div 64 = x div 262144 * 4096 + x div 4096 mod 64 * 64"
    using b64_split4_div [of x] by simp
  have "x div 64 = unat a * 1024" by (simp add: x_def)
  then have t: "b64_decode_tail dec [enc ! (x div 262144), enc ! (x div 4096 mod 64)] = Some [a]"
    using tail2 [OF v y d] by simp
  show ?thesis
  proof (cases p)
    case True
    then show ?thesis
      using decode_padded [OF d(1,2) refl, of "0x3D"] t encode1 [OF x_def, of p] by simp
  next
    case False
    then show ?thesis using t encode1 [OF x_def, of p] by simp
  qed
qed

lemma decode_encode: "b64_decode_loop dec p (b64_encode_loop enc p src) = Some src"
proof (induction "length src" arbitrary: src rule: less_induct)
  case less
  consider "src = []" | a where "src = [a]" | a b where "src = [a, b]" | a b c s where "src = a # b # c # s"
    by (metis list.exhaust)
  then show ?case
    using decode_encode1 decode_encode2 decode_encode3 less by cases auto
qed

text \<open>Conversely the decoder accepts nothing but what the encoder writes.\<close>

lemma enc_look:
  assumes "0 \<le> b64_look dec c"
  obtains v where "v < 64" "b64_look dec c = int v" "enc ! v = c"
proof
  show "nat (b64_look dec c) < 64" "b64_look dec c = int (nat (b64_look dec c))" "enc ! nat (b64_look dec c) = c"
    using enc_dec [OF assms] assms by auto
qed

lemma encode_decode4:
  assumes "v0 < 64" "v1 < 64" "v2 < 64" "v3 < 64" and y: "y = v0 * 262144 + v1 * 4096 + v2 * 64 + v3"
  shows "b64_encode_loop enc p (of_nat (y div 65536) # of_nat (y div 256) # of_nat y # out) =
    enc ! v0 # enc ! v1 # enc ! v2 # enc ! v3 # b64_encode_loop enc p out"
proof -
  note r = b64_radix4 [OF assms]
  have "unat (of_nat (y div 65536) :: u8) = y div 65536" using r(5) by (simp add: unat_of_nat)
  then have "y = unat (of_nat (y div 65536) :: u8) * 65536 + unat (of_nat (y div 256) :: u8) * 256 + unat (of_nat y :: u8)"
    using b64_split3 [of y] by (simp add: unat_of_nat)
  from encode3 [OF this] show ?thesis by (simp only: r)
qed

lemma encode_tail2:
  assumes "b64_decode_tail dec [a, b] = Some out"
  shows "b64_encode_loop enc p out = [a, b] @ (if p then [0x3D, 0x3D] else [])"
proof -
  have "0 \<le> b64_look dec a" "0 \<le> b64_look dec b"
    using assms by (auto simp: Let_def split: if_splits)
  then obtain v0 v1 where v: "v0 < 64" "b64_look dec a = int v0" "enc ! v0 = a"
    "v1 < 64" "b64_look dec b = int v1" "enc ! v1 = b" by (meson enc_look)
  define y where "y = v0 * 4096 + v1 * 64"
  have m: "y mod 1024 = 0" and out: "out = [of_nat (y div 1024)]"
    using assms unfolding tail2 [OF v(1,4) y_def v(2,5)] by (auto split: if_splits)
  have y: "y = y div 1024 * 1024" using m by auto
  have "y div 1024 < 256" using v(1,4) y_def by (simp add: less_mult_imp_div_less)
  then have e: "y * 64 = unat (of_nat (y div 1024) :: u8) * 65536" using y by (simp add: unat_of_nat)
  have "y * 64 = v0 * 262144 + v1 * 4096 + 0 * 64 + 0" by (simp add: y_def)
  note r = b64_radix4(1,2) [OF v(1,4) _ _ this, simplified]
  show ?thesis unfolding out encode1 [OF e] using r v(3,6) by simp
qed

lemma encode_tail3:
  assumes "b64_decode_tail dec [a, b, c] = Some out"
  shows "b64_encode_loop enc p out = [a, b, c] @ (if p then [0x3D] else [])"
proof -
  have "0 \<le> b64_look dec a" "0 \<le> b64_look dec b" "0 \<le> b64_look dec c"
    using assms by (auto simp: Let_def split: if_splits)
  then obtain v0 v1 v2 where v: "v0 < 64" "b64_look dec a = int v0" "enc ! v0 = a"
    "v1 < 64" "b64_look dec b = int v1" "enc ! v1 = b"
    "v2 < 64" "b64_look dec c = int v2" "enc ! v2 = c" by (meson enc_look)
  define y where "y = v0 * 4096 + v1 * 64 + v2"
  have m: "y mod 4 = 0" and out: "out = [of_nat (y div 1024), of_nat (y div 4)]"
    using assms unfolding tail3 [OF v(1,4,7) y_def v(2,5,8)] by (auto split: if_splits)
  have y: "y = y div 4 * 4" using m by auto
  have "y div 1024 < 256" using v(1,4,7) y_def by (simp add: less_mult_imp_div_less)
  moreover have "y div 4 = y div 1024 * 256 + y div 4 mod 256"
    using div_mult_mod_eq [of "y div 4" 256] by (simp add: div_mult2_eq [symmetric])
  ultimately have e: "y * 64 = unat (of_nat (y div 1024) :: u8) * 65536 + unat (of_nat (y div 4) :: u8) * 256"
    using y by (simp add: unat_of_nat)
  have "y * 64 = v0 * 262144 + v1 * 4096 + v2 * 64 + 0" by (simp add: y_def)
  note r = b64_radix4(1,2,3) [OF v(1,4,7) _ this, simplified]
  show ?thesis unfolding out encode2 [OF e] using r v(3,6,9) by simp
qed

lemma encode_tail:
  assumes "b64_decode_tail dec s = Some out"
  shows "b64_encode_loop enc p out = s @ (if p then replicate (4 - length s) 0x3D else [])"
    "length s = 2 \<or> length s = 3"
proof -
  show "length s = 2 \<or> length s = 3"
    using assms by (cases "(dec, s)" rule: b64_decode_tail.cases) auto
  then consider a b where "s = [a, b]" | a b c where "s = [a, b, c]"
    by (auto simp: numeral_2_eq_2 numeral_3_eq_3 length_Suc_conv)
  then show "b64_encode_loop enc p out = s @ (if p then replicate (4 - length s) 0x3D else [])"
    using assms encode_tail2 encode_tail3 by cases (auto simp del: b64_decode_tail.simps simp: numeral_2_eq_2)
qed

lemma encode_decode_step:
  assumes "b64_decode_loop dec p (a # b # c # d # src) = Some out"
    and "\<And>o'. b64_decode_loop dec p src = Some o' \<Longrightarrow> b64_encode_loop enc p o' = src"
  shows "b64_encode_loop enc p out = a # b # c # d # src"
proof (cases "b64_look dec a < 0 \<or> b64_look dec b < 0 \<or> b64_look dec c < 0 \<or> b64_look dec d < 0")
  case True
  then have p: "p" "src = []" "d = 0x3D" and
    t: "b64_decode_tail dec (if c = 0x3D then [a, b] else [a, b, c]) = Some out"
    using assms(1) by (simp_all only: b64_decode_loop.simps Let_def b64_val_neg if_True) (auto split: if_splits)
  show ?thesis
  proof (cases "c = 0x3D")
    case True
    then show ?thesis using p t encode_tail2 [of a b out p] by simp
  next
    case False
    then show ?thesis using p t encode_tail3 [of a b c out p] by simp
  qed
next
  case False
  then obtain v0 v1 v2 v3 where v: "v0 < 64" "b64_look dec a = int v0" "enc ! v0 = a"
    "v1 < 64" "b64_look dec b = int v1" "enc ! v1 = b" "v2 < 64" "b64_look dec c = int v2" "enc ! v2 = c"
    "v3 < 64" "b64_look dec d = int v3" "enc ! v3 = d" by (meson enc_look not_less)
  obtain o' where o: "b64_decode_loop dec p src = Some o'" and
    "out = of_nat ((v0 * 262144 + v1 * 4096 + v2 * 64 + v3) div 65536) #
      of_nat ((v0 * 262144 + v1 * 4096 + v2 * 64 + v3) div 256) #
      of_nat (v0 * 262144 + v1 * 4096 + v2 * 64 + v3) # o'"
    using assms(1) unfolding decode4 [OF v(1,4,7,10) refl v(2,5,8,11)] by blast
  then show ?thesis
    using encode_decode4 [OF v(1,4,7,10) refl, of p o'] assms(2) [OF o] v(3,6,9,12) by metis
qed

lemma encode_decode: "b64_decode_loop dec p s = Some out \<Longrightarrow> b64_encode_loop enc p out = s"
proof (induction "length s" arbitrary: s out rule: less_induct)
  case less
  consider "s = []" | "0 < length s" "length s < 4" | a b c d s' where "s = a # b # c # d # s'"
    by (cases "(dec, p, s)" rule: b64_decode_loop.cases) auto
  then show ?case
  proof cases
    case 1
    then show ?thesis using less.prems by auto
  next
    case 2
    then have "\<not> p" "b64_decode_tail dec s = Some out"
      using less.prems by (cases "(dec, p, s)" rule: b64_decode_loop.cases; auto split: if_splits)+
    then show ?thesis using encode_tail(1) [of s out p] by simp
  next
    case (3 a b c d s')
    then show ?thesis using encode_decode_step less.prems less.hyps [of s'] by auto
  qed
qed

end

lemma b64_entries_iff:
  "(c, v) \<in> set (b64_entries n t) \<longleftrightarrow> n \<le> c \<and> nat (c - n) < length t \<and> t ! nat (c - n) = v \<and> 0 \<le> v"
proof (induction t arbitrary: n)
  case Nil
  then show ?case by simp
next
  case (Cons w t)
  show ?case
  proof (cases "c = n")
    case True
    then show ?thesis using Cons.IH by auto
  next
    case False
    then have "n \<le> c \<Longrightarrow> nat (c - n) = Suc (nat (c - (n + 1)))" by simp
    then show ?thesis using Cons.IH [of "n + 1"] False by auto
  qed
qed

lemma set_blocks:
  "set z = set (take i z) \<union> set (take j (drop i z)) \<union> set (take k (drop (i + j) z)) \<union> set (drop (i + j + k) z)"
  by (metis add.commute append_take_drop_id drop_drop set_append sup_assoc)

lemma b64_entries_std:
  "set (b64_entries 0 b64_dec_std) = set (zip (map uint b64_enc_std) (map int [0..<64]))"
proof -
  define z where "z = zip b64_codes_std (map int [0..<64])"
  have "map uint b64_enc_std = b64_codes_std" by (simp add: b64_enc_std_def b64_codes_std_def)
  moreover have "b64_entries 0 b64_dec_std = drop 62 z @ take 10 (drop 52 z) @ take 52 z"
    by (simp add: b64_dec_std_def b64_codes_std_def z_def upt_rec)
  moreover have "set z = set (drop 62 z @ take 10 (drop 52 z) @ take 52 z)"
    using set_blocks [of z 52 10 0] by auto
  ultimately show ?thesis by (simp add: z_def)
qed

lemma b64_entries_url:
  "set (b64_entries 0 b64_dec_url) = set (zip (map uint b64_enc_url) (map int [0..<64]))"
proof -
  define z where "z = zip b64_codes_url (map int [0..<64])"
  have "map uint b64_enc_url = b64_codes_url" by (simp add: b64_enc_url_def b64_codes_url_def)
  moreover have "b64_entries 0 b64_dec_url =
      take 1 (drop 62 z) @ take 10 (drop 52 z) @ take 26 z @ drop 63 z @ take 26 (drop 26 z)"
    by (simp add: b64_dec_url_def b64_codes_url_def z_def upt_rec)
  moreover have "set z = set (take 1 (drop 62 z) @ take 10 (drop 52 z) @ take 26 z @ drop 63 z @ take 26 (drop 26 z))"
    using set_blocks [of z 26 26 10] set_blocks [of "drop 62 z" 0 0 1] by auto
  ultimately show ?thesis by (simp add: z_def)
qed

lemma b64_tables_intro:
  assumes "set (b64_entries 0 dec) = set (zip (map uint enc) (map int [0..<64]))"
    and "length enc = 64" "length dec = 256" "b64_look dec 0x3D < 0"
  shows "b64_tables enc dec"
proof
  have iff: "(uint c, v) \<in> set (zip (map uint enc) (map int [0..<64])) \<longleftrightarrow> b64_look dec c = v \<and> 0 \<le> v" for c v
    using b64_entries_iff [of "uint c" v 0 dec] assms(1,3) unat_less [of c] by (auto simp: b64_look_def)
  show "b64_look dec (enc ! i) = int i" if "i < 64" for i
  proof -
    have "(uint (enc ! i), int i) \<in> set (zip (map uint enc) (map int [0..<64]))"
      using that assms(2) by (auto simp: in_set_zip intro!: exI [of _ i])
    then show ?thesis using iff by simp
  qed
  show "b64_look dec c < 64 \<and> enc ! nat (b64_look dec c) = c" if v: "0 \<le> b64_look dec c" for c
  proof -
    obtain n where "n < 64" "uint (enc ! n) = uint c" "b64_look dec c = int n"
      using iff [of c "b64_look dec c"] v assms(2) by (auto simp: in_set_zip)
    then show ?thesis by (simp add: word_uint_eq_iff)
  qed
qed (fact assms(4))

interpretation std: b64_tables b64_enc_std b64_dec_std
  by (intro b64_tables_intro b64_entries_std) (simp_all add: b64_enc_std_def b64_dec_std_def b64_look_def)

interpretation url: b64_tables b64_enc_url b64_dec_url
  by (intro b64_tables_intro b64_entries_url) (simp_all add: b64_enc_url_def b64_dec_url_def b64_look_def)

section \<open>Sizes\<close>

lemma encode_length: "length (b64_encode_loop t p src) = (if p then 4 * ((length src + 2) div 3) else (4 * length src + 2) div 3)"
proof (induction t p src rule: b64_encode_loop.induct)
  case (1 t p a b c src)
  have "(length (a # b # c # src) + 2) div 3 = (length src + 2) div 3 + 1"
    "(4 * length (a # b # c # src) + 2) div 3 = (4 * length src + 2) div 3 + 4"
    by (simp_all add: div_add_self2 [symmetric])
  then show ?case using 1 by (simp only: b64_encode_loop.simps Let_def) simp
qed (auto simp: Let_def)

lemma c_int_int: "c_int (int n) = (if n < 2147483648 then Some (int n) else None)"
  by (auto simp: c_int_def)

lemma encode_size_eq:
  "xylem_base64_encode_size (int n) = (if n \<le> 1610612733 then Some (int (4 * ((n + 2) div 3))) else None)"
proof -
  have d: "int k sdiv 3 * 4 = int (4 * (k div 3))" for k
    by (cases "k = 0") (simp_all add: signed_divide_int_def zdiv_int)
  have n: "int n + 2 = int (n + 2)" by simp
  have e: "xylem_base64_encode_size (int n) =
      (if n + 2 < 2147483648 \<and> 4 * ((n + 2) div 3) < 2147483648 then Some (int (4 * ((n + 2) div 3))) else None)"
    unfolding xylem_base64_encode_size_def n c_int_int
    by (cases "n + 2 < 2147483648") (simp_all only: if_True if_False bind.simps d c_int_int simp_thms)
  have "n \<le> 1610612733 \<longleftrightarrow> n + 2 < 2147483648 \<and> 4 * ((n + 2) div 3) < 2147483648"
    using div_less_iff_less_mult [of 3 "n + 2" 536870912] by auto
  then show ?thesis unfolding e by (simp only:)
qed

lemma decode_size_eq:
  "xylem_base64_decode_size (int n) = (if n \<le> 2147483644 then Some (int (3 * ((n + 3) div 4))) else None)"
proof -
  have d: "int k sdiv 4 * 3 = int (3 * (k div 4))" for k
    by (cases "k = 0") (simp_all add: signed_divide_int_def zdiv_int)
  have n: "int n + 3 = int (n + 3)" by simp
  have e: "xylem_base64_decode_size (int n) =
      (if n + 3 < 2147483648 \<and> 3 * ((n + 3) div 4) < 2147483648 then Some (int (3 * ((n + 3) div 4))) else None)"
    unfolding xylem_base64_decode_size_def n c_int_int
    by (cases "n + 3 < 2147483648") (simp_all only: if_True if_False bind.simps d c_int_int simp_thms)
  have "n \<le> 2147483644 \<longleftrightarrow> n + 3 < 2147483648 \<and> 3 * ((n + 3) div 4) < 2147483648"
    by auto
  then show ?thesis unfolding e by (simp only:)
qed

section \<open>Properties\<close>

lemma base64_encode_eq:
  "length src \<le> 1610612733 \<Longrightarrow> int (4 * ((length src + 2) div 3)) \<le> dlen \<Longrightarrow>
    base64_encode src dlen t p = Some (Some (b64_encode_loop t p src))"
  by (simp add: base64_encode_def encode_size_eq del: of_nat_mult of_nat_add)

lemma base64_decode_eq:
  "length s \<le> 2147483644 \<Longrightarrow> int (3 * ((length s + 3) div 4)) \<le> dlen \<Longrightarrow>
    base64_decode s dlen t p = Some (b64_decode_loop t p s)"
  by (simp add: base64_decode_def decode_size_eq del: of_nat_mult of_nat_add)

lemma b64_len1: "(4 * n + 2) div 3 \<le> 4 * ((n + 2) div (3 :: nat))"
proof -
  define q where "q = (n + 2) div 3"
  have "n \<le> 3 * q" using dividend_less_times_div [of 3 "n + 2"] unfolding q_def by linarith
  then have "4 * n + 2 < (4 * q + 1) * 3" by simp
  then show ?thesis by (simp add: q_def [symmetric] less_mult_imp_div_less flip: less_Suc_eq_le)
qed

lemma b64_len2: "s = (4 * n + 2) div 3 \<or> s = 4 * ((n + 2) div 3) \<Longrightarrow> n \<le> 3 * ((s + 3) div (4 :: nat))"
  using dividend_less_times_div [of 3 "4 * n + 2"] dividend_less_times_div [of 4 "s + 3"]
   dividend_less_times_div [of 3 "n + 2"] by auto

lemma encode_length_le: "length (b64_encode_loop t p src) \<le> 4 * ((length src + 2) div 3)"
  using b64_len1 [of "length src"] by (simp add: encode_length)

lemma base64_there_and_back:
  assumes "length src \<le> 1610612733" "int (4 * ((length src + 2) div 3)) \<le> dlen"
    and "b64_decode_loop dec p (b64_encode_loop enc p src) = Some src"
  shows "\<exists>s m. base64_encode src dlen enc p = Some (Some s) \<and> length s \<le> 4 * ((length src + 2) div 3) \<and>
    xylem_base64_decode_size (int (length s)) = Some m \<and> (\<forall>dlen' \<ge> m. base64_decode s dlen' dec p = Some (Some src))"
proof -
  have "(length src + 2) div 3 \<le> 1610612735 div 3" by (rule div_le_mono) (use assms(1) in simp)
  then have l: "length (b64_encode_loop enc p src) \<le> 2147483644"
    using encode_length_le [of enc p src] by simp
  show ?thesis
    using base64_encode_eq [OF assms(1,2)] encode_length_le [of enc p src] base64_decode_eq [OF l] assms(3) l
    by (auto simp: decode_size_eq simp del: of_nat_mult of_nat_add)
qed

text \<open>C17. Base64 round trip: for a source short enough for the size computation not to overflow, and
  output buffers of the sizes that the size functions give, encoding succeeds, stays within its buffer,
  and decoding the text with the same alphabet and padding choice returns the source.\<close>

theorem base64_roundtrip:
  assumes "xylem_base64_encode_size (int (length src)) = Some n" "n \<le> dlen"
  shows "(\<exists>s m. xylem_base64_encode_std src dlen = Some (Some s) \<and> int (length s) \<le> n \<and>
        xylem_base64_decode_size (int (length s)) = Some m \<and>
        (\<forall>dlen' \<ge> m. xylem_base64_decode_std s dlen' = Some (Some src))) \<and>
    (\<exists>s m. xylem_base64_encode_url src dlen p = Some (Some s) \<and> int (length s) \<le> n \<and>
        xylem_base64_decode_size (int (length s)) = Some m \<and>
        (\<forall>dlen' \<ge> m. xylem_base64_decode_url s dlen' p = Some (Some src)))"
proof -
  have l: "length src \<le> 1610612733" and n: "n = int (4 * ((length src + 2) div 3))"
    using assms(1) by (auto simp: encode_size_eq split: if_splits simp del: of_nat_mult of_nat_add)
  have d: "int (4 * ((length src + 2) div 3)) \<le> dlen" using assms(2) unfolding n .
  show ?thesis
    using base64_there_and_back [OF l d std.decode_encode [of True src]]
      base64_there_and_back [OF l d url.decode_encode [of p src]]
    unfolding xylem_base64_encode_std_def xylem_base64_decode_std_def
      xylem_base64_encode_url_def xylem_base64_decode_url_def n of_nat_le_iff by blast
qed

theorem base64_roundtrip_witness:
  "\<exists>s m. xylem_base64_encode_url [0xFB, 0xEF] 4 False = Some (Some s) \<and> int (length s) \<le> 4 \<and>
    xylem_base64_decode_size (int (length s)) = Some m \<and>
    (\<forall>dlen' \<ge> m. xylem_base64_decode_url s dlen' False = Some (Some [0xFB, 0xEF]))"
proof -
  have "xylem_base64_encode_size (int (length [0xFB, 0xEF :: u8])) = Some 4"
    using encode_size_eq [of 2] by simp
  from base64_roundtrip [OF this, of 4 False] show ?thesis by blast
qed

text \<open>C18. Decoding is canonical: every text that the decoder accepts is exactly what the encoder writes for
  the decoded bytes, so stray trailing bits, misplaced padding and foreign characters are all refused.\<close>

theorem base64_decode_canonical:
  assumes "xylem_base64_decode_url s dlen p = Some (Some out)"
  shows "int (length out) \<le> dlen \<and> (\<forall>n. xylem_base64_encode_size (int (length out)) = Some n \<longrightarrow>
    xylem_base64_encode_url out n p = Some (Some s))"
proof -
  have l: "b64_decode_loop b64_dec_url p s = Some out" "int (3 * ((length s + 3) div 4)) \<le> dlen"
    using assms by (auto simp: xylem_base64_decode_url_def base64_decode_def decode_size_eq
        split: if_splits simp del: of_nat_mult of_nat_add)
  note e = url.encode_decode [OF l(1)]
  have "length out \<le> 3 * ((length s + 3) div 4)"
    using encode_length [of b64_enc_url p out] unfolding e by (intro b64_len2) (auto split: if_splits)
  then have "int (length out) \<le> dlen" using l(2) by linarith
  then show ?thesis by (auto simp: xylem_base64_encode_url_def base64_encode_def e)
qed

theorem base64_decode_canonical_witness:
  "xylem_base64_encode_url [0x41] 4 True = Some (Some [0x51, 0x51, 0x3D, 0x3D])"
proof -
  have t: "b64_look b64_dec_url 0x51 = int 16" "b64_look b64_dec_url 0x3D = -1"
    by (simp_all add: b64_look_def b64_dec_url_def)
  have "xylem_base64_decode_url [0x51, 0x51, 0x3D, 0x3D] 3 True = Some (Some [0x41])"
    using decode_size_eq [of 4] url.tail2 [OF _ _ refl t(1) t(1)] url.decode_padded [OF t(1) t(1) refl]
    by (simp add: xylem_base64_decode_url_def base64_decode_def del: b64_decode_tail.simps b64_decode_loop.simps)
  from base64_decode_canonical [OF this] show ?thesis
    using encode_size_eq [of 1] by simp
qed

text \<open>C19. The size computation of the encoder overflows a signed int exactly for sources longer than
  1610612733 bytes; for any other source it is the number of characters of the padded text, and the
  decoder's size of that many characters is the length of the source rounded up to a multiple of three.\<close>

theorem base64_sizes:
  "xylem_base64_encode_size (int (length src)) = (if length src \<le> 1610612733
     then Some (int (length (b64_encode_loop b64_enc_std True src))) else None) \<and>
   (length src \<le> 1610612733 \<longrightarrow>
     xylem_base64_decode_size (int (length (b64_encode_loop b64_enc_std True src))) =
       Some (int (3 * ((length src + 2) div 3))))"
proof -
  have "4 * ((length src + 2) div 3) \<le> 2147483644" if "length src \<le> 1610612733"
  proof -
    have "(length src + 2) div 3 \<le> 1610612735 div 3" by (rule div_le_mono) (use that in simp)
    then show ?thesis by simp
  qed
  moreover have "(4 * ((length src + 2) div 3) + 3) div 4 = (length src + 2) div 3" by simp
  ultimately show ?thesis
    by (simp add: encode_size_eq decode_size_eq encode_length del: of_nat_mult of_nat_add)
qed

theorem base64_sizes_witness:
  "xylem_base64_decode_size (int (length (b64_encode_loop b64_enc_std True [1, 2, 3, 4]))) = Some 6"
  using base64_sizes [of "[1, 2, 3, 4]"] by simp

end
