(* ===== verification/Block_Hash.thy ===== *)
theory Block_Hash
  imports Word_Bits
begin

text \<open>
  The streaming part that \<open>src/crypto/xylem-sha256.c\<close> and \<open>src/crypto/xylem-sha1.c\<close> share word for
  word: a context with a 64-byte block buffer, \<open>update\<close> that fills the buffer and compresses it
  whenever it is full, and \<open>final\<close> that pads the last block. The compression function is an
  argument. Writing outside the block buffer is undefined behaviour, \<open>None\<close>; a loop that
  makes no progress is \<open>None\<close> as well.

  The reference is the hash of a whole message: pad it, cut it into blocks, fold the compression
  function over them. The lemmas show that a context always represents the message absorbed so
  far, however it was split into calls of \<open>update\<close>.
\<close>

section \<open>The context and its operations\<close>

record md_ctx =
  data :: "u8 list"
  datalen :: u32
  bitlen :: u64
  state :: "u32 list"

type_synonym compress = "u32 list \<Rightarrow> u8 list \<Rightarrow> u32 list"

definition md_block_full :: "compress \<Rightarrow> md_ctx \<Rightarrow> md_ctx" where
  "md_block_full transform ctx = (if datalen ctx = 64
     then ctx\<lparr>state := transform (state ctx) (data ctx), bitlen := bitlen ctx + 512, datalen := 0\<rparr>
     else ctx)"

partial_function (option) md_update :: "compress \<Rightarrow> md_ctx \<Rightarrow> u8 list \<Rightarrow> md_ctx option" where
  "md_update transform ctx dat = (if dat = [] then Some ctx else do {
     let space = unat (64 - datalen ctx);
     let to_copy = (if length dat < space then length dat else space);
     d \<leftarrow> memcpy_at (data ctx) (unat (datalen ctx)) (take to_copy dat);
     let ctx = ctx\<lparr>data := d, datalen := datalen ctx + of_nat to_copy\<rparr>;
     md_update transform (md_block_full transform ctx) (drop to_copy dat) })"

declare md_update.simps [code]

definition be_bytes64 :: "u64 \<Rightarrow> u8 list" where
  "be_bytes64 n = [ucast (drop_bit 56 n), ucast (drop_bit 48 n), ucast (drop_bit 40 n), ucast (drop_bit 32 n),
     ucast (drop_bit 24 n), ucast (drop_bit 16 n), ucast (drop_bit 8 n), ucast n]"

definition md_final :: "compress \<Rightarrow> md_ctx \<Rightarrow> md_ctx option" where
  "md_final transform ctx = do {
     let orig_datalen = datalen ctx;
     let total_bitlen = bitlen ctx + ucast orig_datalen * 8;
     d \<leftarrow> memcpy_at (data ctx) (unat orig_datalen) [0x80];
     let ctx = ctx\<lparr>data := d, datalen := orig_datalen + 1\<rparr>;
     ctx \<leftarrow> (if orig_datalen < 56 then do {
         d \<leftarrow> memset_at (data ctx) (unat (datalen ctx)) 0 (unat (56 - datalen ctx));
         Some (ctx\<lparr>data := d, datalen := 56\<rparr>) }
       else do {
         d \<leftarrow> memset_at (data ctx) (unat (datalen ctx)) 0 (unat (64 - datalen ctx));
         let ctx = ctx\<lparr>data := d, datalen := 64, state := transform (state ctx) d\<rparr>;
         d \<leftarrow> memset_at (data ctx) 0 0 56;
         Some (ctx\<lparr>data := d, datalen := 56\<rparr>) });
     d \<leftarrow> memcpy_at (data ctx) 56 (be_bytes64 total_bitlen);
     Some (ctx\<lparr>data := d, state := transform (state ctx) d\<rparr>) }"

primrec md_updates :: "compress \<Rightarrow> md_ctx \<Rightarrow> u8 list list \<Rightarrow> md_ctx option" where
  "md_updates transform ctx [] = Some ctx"
| "md_updates transform ctx (dat # dats) = do { ctx \<leftarrow> md_update transform ctx dat; md_updates transform ctx dats }"

section \<open>The reference\<close>

fun blocks_of :: "u8 list \<Rightarrow> u8 list list" where
  "blocks_of m = (if m = [] then [] else take 64 m # blocks_of (drop 64 m))"

declare blocks_of.simps [simp del]

definition md_padding :: "nat \<Rightarrow> u8 list" where
  "md_padding n = 0x80 # replicate ((119 - n mod 64) mod 64) 0 @ be_bytes64 (of_nat (8 * n))"

definition md_hash :: "compress \<Rightarrow> u32 list \<Rightarrow> u8 list \<Rightarrow> u32 list" where
  "md_hash transform iv m = foldl transform iv (blocks_of (m @ md_padding (length m)))"

text \<open>A context that has absorbed whole blocks \<open>bs\<close> and holds the rest \<open>r\<close> in its buffer.\<close>

definition md_rep :: "compress \<Rightarrow> u32 list \<Rightarrow> md_ctx \<Rightarrow> u8 list list \<Rightarrow> u8 list \<Rightarrow> bool" where
  "md_rep transform iv ctx bs r \<longleftrightarrow> length (data ctx) = 64 \<and> length r < 64 \<and> (\<forall>b \<in> set bs. length b = 64) \<and>
     datalen ctx = of_nat (length r) \<and> bitlen ctx = of_nat (512 * length bs) \<and>
     take (length r) (data ctx) = r \<and> state ctx = foldl transform iv bs"

definition md_repr :: "compress \<Rightarrow> u32 list \<Rightarrow> md_ctx \<Rightarrow> u8 list \<Rightarrow> bool" where
  "md_repr transform iv ctx m \<longleftrightarrow> (\<exists>bs r. md_rep transform iv ctx bs r \<and> m = concat bs @ r)"

section \<open>Blocks\<close>

lemma blocks_of_Nil [simp]: "blocks_of [] = []"
  by (simp add: blocks_of.simps)

lemma blocks_of_Cons: "length b = 64 \<Longrightarrow> blocks_of (b @ m) = b # blocks_of m"
  by (subst blocks_of.simps) auto

lemma blocks_of_concat: "\<forall>b \<in> set bs. length b = 64 \<Longrightarrow> blocks_of (concat bs @ m) = bs @ blocks_of m"
  by (induction bs) (auto simp: blocks_of_Cons)

lemma length_concat_blocks: "\<forall>b \<in> set bs. length b = 64 \<Longrightarrow> length (concat bs) = 64 * length bs"
  by (induction bs) auto

lemma length_be_bytes64 [simp]: "length (be_bytes64 n) = 8"
  by (simp add: be_bytes64_def)

lemma unat_numeral_diff:
  assumes "n \<le> k" "k < 2 ^ 32"
  shows "unat (of_nat k - of_nat n :: u32) = k - n"
proof -
  have "(of_nat k - of_nat n :: u32) = of_nat (k - n)" using assms(1) by (simp add: of_nat_diff)
  moreover have "unat (of_nat (k - n) :: u32) = k - n" by (rule unat_of_nat_small) (use assms in simp)
  ultimately show ?thesis by (simp only:)
qed

section \<open>Updates\<close>

lemma md_update_step:
  assumes "md_rep tr iv ctx bs r" "dat \<noteq> []" "n = min (length dat) (64 - length r)"
  shows "\<exists>ctx' bs' r'. md_update tr ctx dat = md_update tr ctx' (drop n dat) \<and>
    md_rep tr iv ctx' bs' r' \<and> concat bs' @ r' = concat bs @ r @ take n dat"
proof -
  have r: "length (data ctx) = 64" "length r < 64" "\<forall>b \<in> set bs. length b = 64" "datalen ctx = of_nat (length r)"
    "bitlen ctx = of_nat (512 * length bs)" "take (length r) (data ctx) = r" "state ctx = foldl tr iv bs"
    using assms(1) by (auto simp: md_rep_def)
  have u: "unat (datalen ctx) = length r" using r(2,4) by (simp add: unat_of_nat_small)
  have s: "unat (64 - datalen ctx) = 64 - length r" using unat_numeral_diff [of "length r" 64] r(2,4) by simp
  have n: "(if length dat < 64 - length r then length dat else 64 - length r) = n" using assms(3) by auto
  have len: "length r + n \<le> 64" "length (take n dat) = n" using assms(3) r(2) by auto
  define d where "d = r @ take n dat @ drop (length r + n) (data ctx)"
  have d: "memcpy_at (data ctx) (unat (datalen ctx)) (take n dat) = Some d"
    using r(1,6) len by (simp add: memcpy_at_def u d_def)
  define c where "c = ctx\<lparr>data := d, datalen := datalen ctx + of_nat n\<rparr>"
  have dl: "datalen ctx + of_nat n = of_nat (length r + n)" by (simp add: r(4))
  have step: "md_update tr ctx dat = md_update tr (md_block_full tr c) (drop n dat)"
    using assms(2) d by (subst md_update.simps) (simp add: Let_def s n c_def del: of_nat_add)
  show ?thesis
  proof (cases "length r + n = 64")
    case True
    then have "d = r @ take n dat" "length d = 64" using r(1) len by (auto simp: d_def)
    moreover have "md_block_full tr c = c\<lparr>state := tr (state ctx) d, bitlen := bitlen ctx + 512, datalen := 0\<rparr>"
      using True by (simp add: md_block_full_def c_def dl del: of_nat_add)
    ultimately have "md_rep tr iv (md_block_full tr c) (bs @ [d]) []"
      using r by (simp add: md_rep_def c_def algebra_simps)
    then show ?thesis using step \<open>d = r @ take n dat\<close>
      by (intro exI [of _ "md_block_full tr c"] exI [of _ "bs @ [d]"] exI [of _ "[]"]) simp
  next
    case False
    then have l: "length r + n < 64" using len by simp
    then have "(of_nat (length r + n) :: u32) \<noteq> 64" 
      using unat_of_nat_small [where 'w = 32, of "length r + n"] False by auto
    then have "md_block_full tr c = c" by (simp add: md_block_full_def c_def dl del: of_nat_add)
    moreover have "md_rep tr iv c bs (r @ take n dat)"
      using r l len by (simp add: md_rep_def c_def d_def)
    ultimately show ?thesis using step
      by (intro exI [of _ c] exI [of _ bs] exI [of _ "r @ take n dat"]) simp
  qed
qed

lemma md_update_rep:
  assumes "md_rep tr iv ctx bs r"
  shows "\<exists>ctx'. md_update tr ctx dat = Some ctx' \<and> md_repr tr iv ctx' (concat bs @ r @ dat)"
  using assms
proof (induction "length dat" arbitrary: ctx bs r dat rule: less_induct)
  case less
  show ?case
  proof (cases "dat = []")
    case True
    then show ?thesis using less.prems by (subst md_update.simps) (auto simp: md_repr_def)
  next
    case False
    define n where "n = min (length dat) (64 - length r)"
    have "0 < n" using False less.prems by (simp add: n_def md_rep_def)
    then have "length (drop n dat) < length dat" using False by simp
    moreover obtain ctx' bs' r' where s: "md_update tr ctx dat = md_update tr ctx' (drop n dat)"
      "md_rep tr iv ctx' bs' r'" "concat bs' @ r' = concat bs @ r @ take n dat"
      using md_update_step [OF less.prems False n_def] by blast
    ultimately have "\<exists>c. md_update tr ctx' (drop n dat) = Some c \<and> md_repr tr iv c (concat bs' @ r' @ drop n dat)"
      using less.hyps by blast
    moreover have "concat bs' @ r' @ drop n dat = concat bs @ r @ dat"
      using s(3) by (metis append.assoc append_take_drop_id)
    ultimately show ?thesis using s(1) by simp
  qed
qed

lemma md_update_repr:
  "md_repr tr iv ctx m \<Longrightarrow> \<exists>ctx'. md_update tr ctx dat = Some ctx' \<and> md_repr tr iv ctx' (m @ dat)"
  using md_update_rep [of tr iv ctx] unfolding md_repr_def by fastforce

lemma md_updates_repr:
  "md_repr tr iv ctx m \<Longrightarrow> \<exists>ctx'. md_updates tr ctx dats = Some ctx' \<and> md_repr tr iv ctx' (m @ concat dats)"
proof (induction dats arbitrary: ctx m)
  case Nil
  then show ?case by simp
next
  case (Cons dat dats)
  then obtain c where "md_update tr ctx dat = Some c" "md_repr tr iv c (m @ dat)"
    using md_update_repr by blast
  then show ?case using Cons.IH [of c "m @ dat"] by auto
qed

section \<open>The last block\<close>

lemma md_final_total:
  assumes "md_rep tr iv ctx bs r"
  shows "bitlen ctx + ucast (datalen ctx) * 8 = of_nat (8 * length (concat bs @ r))"
proof -
  have "length r < 64" "datalen ctx = of_nat (length r)" using assms by (auto simp: md_rep_def)
  then have "(ucast (datalen ctx) :: u64) = of_nat (length r)" by (simp add: unat_of_nat_small ucast_eq_of_nat del: of_nat_unat)
  then show ?thesis using assms by (simp add: md_rep_def length_concat_blocks algebra_simps)
qed

lemma md_hash_rep:
  assumes "md_rep tr iv ctx bs r"
  shows "md_hash tr iv (concat bs @ r) =
    foldl tr (state ctx) (blocks_of (r @ md_padding (length (concat bs @ r))))"
  using assms by (simp add: md_hash_def md_rep_def blocks_of_concat)

lemma md_padding_eq:
  assumes "md_rep tr iv ctx bs r"
  shows "md_padding (length (concat bs @ r)) = 0x80 # replicate ((119 - length r) mod 64) 0 @
    be_bytes64 (bitlen ctx + ucast (datalen ctx) * 8)"
proof -
  have "length (concat bs @ r) mod 64 = length r"
    using assms by (simp add: md_rep_def length_concat_blocks)
  then show ?thesis unfolding md_final_total [OF assms] md_padding_def by (simp only:)
qed

lemma md_final_rep:
  assumes "md_rep tr iv ctx bs r"
  shows "\<exists>ctx'. md_final tr ctx = Some ctx' \<and> state ctx' = md_hash tr iv (concat bs @ r)"
proof -
  have r: "length (data ctx) = 64" "length r < 64" "datalen ctx = of_nat (length r)" "take (length r) (data ctx) = r"
    using assms by (auto simp: md_rep_def)
  have u: "unat (datalen ctx) = length r" using r(2,3) by (simp add: unat_of_nat_small)
  have u1: "unat (datalen ctx + 1) = length r + 1"
  proof -
    have "datalen ctx + 1 = of_nat (length r + 1)" by (simp add: r(3))
    moreover have "unat (of_nat (length r + 1) :: u32) = length r + 1"
      by (rule unat_of_nat_small) (use r(2) in simp)
    ultimately show ?thesis by (simp only:)
  qed
  define L where "L = be_bytes64 (bitlen ctx + ucast (datalen ctx) * 8)"
  have L: "length L = 8" by (simp add: L_def)
  define d where "d = r @ 0x80 # drop (length r + 1) (data ctx)"
  have d: "memcpy_at (data ctx) (unat (datalen ctx)) [0x80] = Some d" "length d = 64"
    "take (length r + 1) d = r @ [0x80]"
    using r(1,2,4) by (auto simp: memcpy_at_def u d_def)
  have lt: "datalen ctx < 56 \<longleftrightarrow> length r < 56" by (simp add: word_less_nat_alt u)
  note hash = md_hash_rep [OF assms] md_padding_eq [OF assms]
  show ?thesis
  proof (cases "length r < 56")
    case True
    have n: "unat (56 - (datalen ctx + 1)) = 55 - length r"
      using unat_numeral_diff [of "length r" 55] True r(3) by simp
    define e where "e = r @ 0x80 # replicate (55 - length r) 0 @ drop 56 d"
    have e: "memset_at d (unat (datalen ctx + 1)) 0 (unat (56 - (datalen ctx + 1))) = Some e"
      unfolding memset_at_def u1 n using True d(2,3) by (simp add: memcpy_at_def e_def)
    have "memcpy_at e 56 L = Some (r @ 0x80 # replicate (55 - length r) 0 @ L)"
      using True d(2) L memcpy_at_append [of 56 "r @ 0x80 # replicate (55 - length r) 0" "drop 56 d" L]
      by (simp add: e_def)
    moreover have "(119 - length r) mod 64 = 55 - length r"
    proof -
      have "119 - length r = (55 - length r) + 64" using True by simp
      then show ?thesis by (simp only: mod_add_self2) simp
    qed
    moreover have "blocks_of (r @ 0x80 # replicate (55 - length r) 0 @ L) = [r @ 0x80 # replicate (55 - length r) 0 @ L]"
      using True L blocks_of_Cons [of "r @ 0x80 # replicate (55 - length r) 0 @ L" "[]"] by simp
    ultimately show ?thesis
      using d(1) e True unfolding hash L_def [symmetric] by (simp add: md_final_def lt Let_def L_def [symmetric])
  next
    case False
    have n: "unat (64 - (datalen ctx + 1)) = 63 - length r"
      using unat_numeral_diff [of "length r" 63] r(2,3) by simp
    define e where "e = r @ 0x80 # replicate (63 - length r) 0"
    have e: "memset_at d (unat (datalen ctx + 1)) 0 (unat (64 - (datalen ctx + 1))) = Some e" "length e = 64"
      unfolding memset_at_def u1 n using r(2) d(2,3) by (auto simp: memcpy_at_def e_def)
    have z: "memset_at e 0 0 56 = Some (replicate 56 0 @ drop 56 e)"
      using e by (simp add: memset_at_def memcpy_at_def)
    have f: "memcpy_at (replicate 56 0 @ drop 56 e) 56 L = Some (replicate 56 0 @ L)"
      using e L by (simp add: memcpy_at_def)
    have p: "(119 - length r) mod 64 = (63 - length r) + 56" using False r(2) by simp
    have q: "r @ 0x80 # replicate ((119 - length r) mod 64) 0 @ L = e @ (replicate 56 0 @ L)"
      unfolding p replicate_add by (simp add: e_def)
    have "blocks_of (r @ 0x80 # replicate ((119 - length r) mod 64) 0 @ L) = [e, replicate 56 0 @ L]"
      unfolding q using e(2) L blocks_of_Cons [of e "replicate 56 0 @ L"] blocks_of_Cons [of "replicate 56 0 @ L" "[]"] by simp
    then show ?thesis
      using d(1) e z f False unfolding hash L_def [symmetric] by (simp add: md_final_def lt Let_def L_def [symmetric])
  qed
qed

text \<open>Creating a context, absorbing a message in any pieces and finishing gives the reference hash.\<close>

lemma md_stream:
  assumes "length (data ctx) = 64" "datalen ctx = 0" "bitlen ctx = 0"
  shows "\<exists>ctx' ctx''. md_updates tr ctx dats = Some ctx' \<and> md_final tr ctx' = Some ctx'' \<and>
    state ctx'' = md_hash tr (state ctx) (concat dats)"
proof -
  have "md_rep tr (state ctx) ctx [] []" using assms by (simp add: md_rep_def)
  then have "md_repr tr (state ctx) ctx []" unfolding md_repr_def by force
  from md_updates_repr [OF this, of dats] obtain c where
    "md_updates tr ctx dats = Some c" "md_repr tr (state ctx) c (concat dats)" by auto
  then show ?thesis using md_final_rep [of tr "state ctx" c] unfolding md_repr_def by metis
qed

end
