(* ===== verification/Sha.thy ===== *)
theory Sha
  imports Block_Hash
begin

text \<open>
  SHA-256, SHA-1 and HMAC-SHA-256, \<open>src/crypto/xylem-sha256.c\<close>, \<open>src/crypto/xylem-sha1.c\<close> and
  \<open>src/crypto/xylem-hmac256.c\<close>. The streaming context is that of \<open>Block_Hash\<close>; here are the two
  compression functions with their message schedules and rounds, the creation of a context and the
  digests. The result of \<open>calloc\<close> is a boolean argument, false for a failed allocation; a use of
  the null context that then results is undefined behaviour, \<open>None\<close>.
\<close>

section \<open>SHA-256\<close>

definition ROTRIGHT :: "u32 \<Rightarrow> nat \<Rightarrow> u32" where
  "ROTRIGHT a b = drop_bit b a OR push_bit (32 - b) a"

definition CH :: "u32 \<Rightarrow> u32 \<Rightarrow> u32 \<Rightarrow> u32" where
  "CH x y z = (x AND y) XOR (NOT x AND z)"

definition MAJ :: "u32 \<Rightarrow> u32 \<Rightarrow> u32 \<Rightarrow> u32" where
  "MAJ x y z = (x AND y) XOR (x AND z) XOR (y AND z)"

definition EP0 :: "u32 \<Rightarrow> u32" where
  "EP0 x = ROTRIGHT x 2 XOR ROTRIGHT x 13 XOR ROTRIGHT x 22"

definition EP1 :: "u32 \<Rightarrow> u32" where
  "EP1 x = ROTRIGHT x 6 XOR ROTRIGHT x 11 XOR ROTRIGHT x 25"

definition SIG0 :: "u32 \<Rightarrow> u32" where
  "SIG0 x = ROTRIGHT x 7 XOR ROTRIGHT x 18 XOR drop_bit 3 x"

definition SIG1 :: "u32 \<Rightarrow> u32" where
  "SIG1 x = ROTRIGHT x 17 XOR ROTRIGHT x 19 XOR drop_bit 10 x"

text \<open>The round constants, one list per line of the table in the source.\<close>

definition sha256_k :: "u32 list" where
  "sha256_k = concat [
     [0x428a2f98, 0x71374491, 0xb5c0fbcf, 0xe9b5dba5, 0x3956c25b, 0x59f111f1],
     [0x923f82a4, 0xab1c5ed5, 0xd807aa98, 0x12835b01, 0x243185be, 0x550c7dc3],
     [0x72be5d74, 0x80deb1fe, 0x9bdc06a7, 0xc19bf174, 0xe49b69c1, 0xefbe4786],
     [0x0fc19dc6, 0x240ca1cc, 0x2de92c6f, 0x4a7484aa, 0x5cb0a9dc, 0x76f988da],
     [0x983e5152, 0xa831c66d, 0xb00327c8, 0xbf597fc7, 0xc6e00bf3, 0xd5a79147],
     [0x06ca6351, 0x14292967, 0x27b70a85, 0x2e1b2138, 0x4d2c6dfc, 0x53380d13],
     [0x650a7354, 0x766a0abb, 0x81c2c92e, 0x92722c85, 0xa2bfe8a1, 0xa81a664b],
     [0xc24b8b70, 0xc76c51a3, 0xd192e819, 0xd6990624, 0xf40e3585, 0x106aa070],
     [0x19a4c116, 0x1e376c08, 0x2748774c, 0x34b0bcb5, 0x391c0cb3, 0x4ed8aa4a],
     [0x5b9cca4f, 0x682e6ff3, 0x748f82ee, 0x78a5636f, 0x84c87814, 0x8cc70208],
     [0x90befffa, 0xa4506ceb, 0xbef9a3f7, 0xc67178f2]]"

text \<open>The four bytes of \<open>data\<close> from \<open>j\<close> on, most significant first.\<close>

definition be_word :: "u8 list \<Rightarrow> nat \<Rightarrow> u32" where
  "be_word dat j = push_bit 24 (ucast (dat ! j)) OR push_bit 16 (ucast (dat ! (j + 1))) OR
     push_bit 8 (ucast (dat ! (j + 2))) OR ucast (dat ! (j + 3))"

definition sha256_schedule :: "u8 list \<Rightarrow> u32 list" where
  "sha256_schedule dat = foldl
     (\<lambda>m i. m @ [SIG1 (m ! (i - 2)) + m ! (i - 7) + SIG0 (m ! (i - 15)) + m ! (i - 16)])
     (map (\<lambda>i. be_word dat (4 * i)) [0..<16]) [16..<64]"

fun sha256_round :: "u32 list \<Rightarrow> u32 \<times> u32 \<times> u32 \<times> u32 \<times> u32 \<times> u32 \<times> u32 \<times> u32 \<Rightarrow> nat \<Rightarrow>
    u32 \<times> u32 \<times> u32 \<times> u32 \<times> u32 \<times> u32 \<times> u32 \<times> u32" where
  "sha256_round m (a, b, c, d, e, f, g, h) i =
     (let t1 = h + EP1 e + CH e f g + sha256_k ! i + m ! i;
          t2 = EP0 a + MAJ a b c in
      (t1 + t2, a, b, c, d + t1, e, f, g))"

definition sha256_transform :: "u32 list \<Rightarrow> u8 list \<Rightarrow> u32 list" where
  "sha256_transform st dat =
     (let m = sha256_schedule dat;
          (a, b, c, d, e, f, g, h) = foldl (sha256_round m)
            (st ! 0, st ! 1, st ! 2, st ! 3, st ! 4, st ! 5, st ! 6, st ! 7) [0..<64] in
      [st ! 0 + a, st ! 1 + b, st ! 2 + c, st ! 3 + d, st ! 4 + e, st ! 5 + f, st ! 6 + g, st ! 7 + h])"

definition sha256_iv :: "u32 list" where
  "sha256_iv = [0x6a09e667, 0xbb67ae85, 0x3c6ef372, 0xa54ff53a, 0x510e527f, 0x9b05688c, 0x1f83d9ab, 0x5be0cd19]"

definition xylem_sha256_create :: "bool \<Rightarrow> md_ctx option" where
  "xylem_sha256_create alloc = (if \<not> alloc then None
     else Some \<lparr>data = replicate 64 0, datalen = 0, bitlen = 0, state = sha256_iv\<rparr>)"

definition xylem_sha256_update :: "md_ctx \<Rightarrow> u8 list \<Rightarrow> md_ctx option" where
  "xylem_sha256_update = md_update sha256_transform"

definition be_bytes32 :: "u32 \<Rightarrow> u8 list" where
  "be_bytes32 w = [ucast (drop_bit 24 w AND 0xFF), ucast (drop_bit 16 w AND 0xFF),
     ucast (drop_bit 8 w AND 0xFF), ucast (w AND 0xFF)]"

definition xylem_sha256_final :: "md_ctx \<Rightarrow> (u8 list \<times> md_ctx) option" where
  "xylem_sha256_final ctx = do {
     ctx \<leftarrow> md_final sha256_transform ctx;
     Some (concat (map (\<lambda>i. be_bytes32 (state ctx ! i)) [0..<8]), ctx) }"

text \<open>What \<open>free\<close> is given: the context is cleared first.\<close>

definition xylem_sha256_destroy :: "md_ctx option \<Rightarrow> md_ctx option" where
  "xylem_sha256_destroy ctx = (case ctx of None \<Rightarrow> None | Some c \<Rightarrow>
     Some \<lparr>data = replicate 64 0, datalen = 0, bitlen = 0, state = replicate 8 0\<rparr>)"

section \<open>SHA-1\<close>

definition sha1_rol32 :: "u32 \<Rightarrow> nat \<Rightarrow> u32" where
  "sha1_rol32 v bits = push_bit bits v OR drop_bit (32 - bits) v"

definition sha1_schedule :: "u8 list \<Rightarrow> u32 list" where
  "sha1_schedule dat = foldl
     (\<lambda>W i. W @ [sha1_rol32 (W ! (i - 3) XOR W ! (i - 8) XOR W ! (i - 14) XOR W ! (i - 16)) 1])
     (map (\<lambda>i. be_word dat (i * 4)) [0..<16]) [16..<80]"

definition sha1_f :: "nat \<Rightarrow> u32 \<Rightarrow> u32 \<Rightarrow> u32 \<Rightarrow> u32" where
  "sha1_f i b c d = (if i < 20 then (b AND c) OR (NOT b AND d)
     else if i < 40 then b XOR c XOR d
     else if i < 60 then (b AND c) OR (b AND d) OR (c AND d)
     else b XOR c XOR d)"

definition sha1_k :: "nat \<Rightarrow> u32" where
  "sha1_k i = (if i < 20 then 0x5A827999 else if i < 40 then 0x6ED9EBA1
     else if i < 60 then 0x8F1BBCDC else 0xCA62C1D6)"

fun sha1_round :: "u32 list \<Rightarrow> u32 \<times> u32 \<times> u32 \<times> u32 \<times> u32 \<Rightarrow> nat \<Rightarrow> u32 \<times> u32 \<times> u32 \<times> u32 \<times> u32" where
  "sha1_round W (a, b, c, d, e) i =
     (let temp = sha1_rol32 a 5 + sha1_f i b c d + e + W ! i + sha1_k i in
      (temp, a, sha1_rol32 b 30, c, d))"

definition sha1_transform :: "u32 list \<Rightarrow> u8 list \<Rightarrow> u32 list" where
  "sha1_transform st dat =
     (let W = sha1_schedule dat;
          (a, b, c, d, e) = foldl (sha1_round W) (st ! 0, st ! 1, st ! 2, st ! 3, st ! 4) [0..<80] in
      [st ! 0 + a, st ! 1 + b, st ! 2 + c, st ! 3 + d, st ! 4 + e])"

definition sha1_iv :: "u32 list" where
  "sha1_iv = [0x67452301, 0xEFCDAB89, 0x98BADCFE, 0x10325476, 0xC3D2E1F0]"

definition xylem_sha1_create :: "bool \<Rightarrow> md_ctx option" where
  "xylem_sha1_create alloc = (if \<not> alloc then None
     else Some \<lparr>data = replicate 64 0, datalen = 0, bitlen = 0, state = sha1_iv\<rparr>)"

definition xylem_sha1_update :: "md_ctx \<Rightarrow> u8 list \<Rightarrow> md_ctx option" where
  "xylem_sha1_update = md_update sha1_transform"

definition xylem_sha1_final :: "md_ctx \<Rightarrow> (u8 list \<times> md_ctx) option" where
  "xylem_sha1_final ctx = do {
     ctx \<leftarrow> md_final sha1_transform ctx;
     Some (map (\<lambda>i. ucast (drop_bit ((3 - i mod 4) * 8) (state ctx ! (i div 4)) AND 0xFF)) [0..<20], ctx) }"

definition xylem_sha1_destroy :: "md_ctx option \<Rightarrow> md_ctx option" where
  "xylem_sha1_destroy ctx = (case ctx of None \<Rightarrow> None | Some c \<Rightarrow>
     Some \<lparr>data = replicate 64 0, datalen = 0, bitlen = 0, state = replicate 5 0\<rparr>)"

section \<open>HMAC-SHA-256\<close>

definition xylem_hmac256_compute :: "bool \<Rightarrow> bool \<Rightarrow> bool \<Rightarrow> u8 list \<Rightarrow> u8 list \<Rightarrow> u8 list option" where
  "xylem_hmac256_compute alloc0 alloc1 alloc2 key msg = do {
     let k = replicate 64 0;
     k \<leftarrow> (if length key > 64 then do {
         h \<leftarrow> xylem_sha256_create alloc0;
         h \<leftarrow> xylem_sha256_update h key;
         (d, h) \<leftarrow> xylem_sha256_final h;
         memcpy_at k 0 d }
       else memcpy_at k 0 key);
     let ipad = map (\<lambda>b. b XOR 0x36) k;
     let opad = map (\<lambda>b. b XOR 0x5c) k;
     ictx \<leftarrow> xylem_sha256_create alloc1;
     ictx \<leftarrow> xylem_sha256_update ictx ipad;
     ictx \<leftarrow> xylem_sha256_update ictx msg;
     (inner, ictx) \<leftarrow> xylem_sha256_final ictx;
     octx \<leftarrow> xylem_sha256_create alloc2;
     octx \<leftarrow> xylem_sha256_update octx opad;
     octx \<leftarrow> xylem_sha256_update octx inner;
     (out, octx) \<leftarrow> xylem_sha256_final octx;
     Some out }"

section \<open>References\<close>

definition sha256 :: "u8 list \<Rightarrow> u8 list" where
  "sha256 m = concat (map be_bytes32 (md_hash sha256_transform sha256_iv m))"

definition sha1 :: "u8 list \<Rightarrow> u8 list" where
  "sha1 m = concat (map be_bytes32 (md_hash sha1_transform sha1_iv m))"

text \<open>RFC 2104, for a hash with 64-byte blocks.\<close>

definition hmac_key :: "(u8 list \<Rightarrow> u8 list) \<Rightarrow> u8 list \<Rightarrow> u8 list" where
  "hmac_key H key = (let k = (if length key > 64 then H key else key) in k @ replicate (64 - length k) 0)"

definition hmac :: "(u8 list \<Rightarrow> u8 list) \<Rightarrow> u8 list \<Rightarrow> u8 list \<Rightarrow> u8 list" where
  "hmac H key msg = H (map (\<lambda>b. b XOR 0x5c) (hmac_key H key) @ H (map (\<lambda>b. b XOR 0x36) (hmac_key H key) @ msg))"

section \<open>Lemmas\<close>

lemma length_sha256_transform [simp]: "length (sha256_transform st dat) = 8"
  by (simp add: sha256_transform_def Let_def split: prod.split)

lemma length_sha1_transform [simp]: "length (sha1_transform st dat) = 5"
  by (simp add: sha1_transform_def Let_def split: prod.split)

lemma length_md_hash:
  assumes "\<And>st b. length (tr st b) = n" "length iv = n"
  shows "length (md_hash tr iv m) = n"
proof -
  have "length (foldl tr iv bs) = n" for bs
    using assms by (induction bs rule: rev_induct) auto
  then show ?thesis by (simp add: md_hash_def)
qed

lemma length_be_bytes32 [simp]: "length (be_bytes32 w) = 4"
  by (simp add: be_bytes32_def)

lemma length_concat_be: "length (concat (map be_bytes32 ws)) = 4 * length ws"
  by (induction ws) auto

lemma length_sha256: "length (sha256 m) = 32"
  using length_md_hash [of sha256_transform 8 sha256_iv m] by (simp add: sha256_def length_concat_be sha256_iv_def)

lemma length_sha1: "length (sha1 m) = 20"
  using length_md_hash [of sha1_transform 5 sha1_iv m] by (simp add: sha1_def length_concat_be sha1_iv_def)

lemma sha256_create: "xylem_sha256_create True = Some ctx \<Longrightarrow>
    length (data ctx) = 64 \<and> datalen ctx = 0 \<and> bitlen ctx = 0 \<and> state ctx = sha256_iv"
  by (auto simp: xylem_sha256_create_def)

lemma sha256_digest:
  assumes "md_final sha256_transform ctx = Some ctx'" "state ctx' = md_hash sha256_transform sha256_iv m"
  shows "xylem_sha256_final ctx = Some (sha256 m, ctx')"
proof -
  have "length (state ctx') = 8"
    unfolding assms(2) by (rule length_md_hash) (simp_all add: sha256_iv_def)
  then have "map (\<lambda>i. be_bytes32 (state ctx' ! i)) [0..<8] = map be_bytes32 (state ctx')"
    by (intro nth_equalityI) simp_all
  then show ?thesis using assms by (simp add: xylem_sha256_final_def sha256_def)
qed

lemma sha1_bytes:
  assumes "length st = 5"
  shows "map (\<lambda>i. ucast (drop_bit ((3 - i mod 4) * 8) (st ! (i div 4)) AND 0xFF)) [0..<20] =
    concat (map be_bytes32 st)"
proof -
  obtain a b c d e where "st = [a, b, c, d, e]"
    using assms by (auto simp: numeral_eq_Suc length_Suc_conv)
  then show ?thesis by (simp add: upt_rec be_bytes32_def)
qed

lemma sha1_digest:
  assumes "md_final sha1_transform ctx = Some ctx'" "state ctx' = md_hash sha1_transform sha1_iv m"
  shows "xylem_sha1_final ctx = Some (sha1 m, ctx')"
proof -
  have "length (state ctx') = 5"
    unfolding assms(2) by (rule length_md_hash) (simp_all add: sha1_iv_def)
  from sha1_bytes [OF this] show ?thesis using assms by (simp add: xylem_sha1_final_def sha1_def)
qed

text \<open>C27. Streaming SHA-256: a context that was created, fed a message in any pieces (empty ones and
  pieces across block boundaries included) and finished gives the digest of the whole message, and
  no step runs outside the block buffer or loops.\<close>

theorem sha256_streaming:
  "\<exists>ctx ctx' ctx''. xylem_sha256_create True = Some ctx \<and> md_updates sha256_transform ctx dats = Some ctx' \<and>
     xylem_sha256_final ctx' = Some (sha256 (concat dats), ctx'')"
proof -
  obtain ctx where c: "xylem_sha256_create True = Some ctx" by (simp add: xylem_sha256_create_def)
  note i = sha256_create [OF c]
  then obtain ctx' ctx'' where "md_updates sha256_transform ctx dats = Some ctx'"
    "md_final sha256_transform ctx' = Some ctx''" "state ctx'' = md_hash sha256_transform sha256_iv (concat dats)"
    using md_stream [of ctx sha256_transform dats] by auto
  then show ?thesis using c sha256_digest by blast
qed

text \<open>C28. Streaming SHA-1: the same for \<open>xylem_sha1_create\<close>, \<open>xylem_sha1_update\<close> and
  \<open>xylem_sha1_final\<close>, whose digest loop picks the bytes of the state words one by one.\<close>

theorem sha1_streaming:
  "\<exists>ctx ctx' ctx''. xylem_sha1_create True = Some ctx \<and> md_updates sha1_transform ctx dats = Some ctx' \<and>
     xylem_sha1_final ctx' = Some (sha1 (concat dats), ctx'') \<and> length (sha1 (concat dats)) = 20"
proof -
  obtain ctx where c: "xylem_sha1_create True = Some ctx" by (simp add: xylem_sha1_create_def)
  then have "length (data ctx) = 64 \<and> datalen ctx = 0 \<and> bitlen ctx = 0 \<and> state ctx = sha1_iv"
    by (auto simp: xylem_sha1_create_def)
  then obtain ctx' ctx'' where "md_updates sha1_transform ctx dats = Some ctx'"
    "md_final sha1_transform ctx' = Some ctx''" "state ctx'' = md_hash sha1_transform sha1_iv (concat dats)"
    using md_stream [of ctx sha1_transform dats] by auto
  then show ?thesis using c sha1_digest length_sha1 by blast
qed

lemma sha256_two:
  assumes "xylem_sha256_create True = Some ctx"
  shows "\<exists>c1 c2 c3. xylem_sha256_update ctx a = Some c1 \<and> xylem_sha256_update c1 b = Some c2 \<and>
    xylem_sha256_final c2 = Some (sha256 (a @ b), c3)"
proof -
  obtain c2 c3 where u: "md_updates sha256_transform ctx [a, b] = Some c2"
    "md_final sha256_transform c2 = Some c3" "state c3 = md_hash sha256_transform sha256_iv (a @ b)"
    using md_stream [of ctx sha256_transform "[a, b]"] sha256_create [OF assms] by auto
  then show ?thesis
    using sha256_digest [OF u(2,3)] by (auto simp: xylem_sha256_update_def split: bind_splits)
qed

lemma sha256_one:
  assumes "xylem_sha256_create True = Some ctx"
  shows "\<exists>c1 c3. xylem_sha256_update ctx a = Some c1 \<and> xylem_sha256_final c1 = Some (sha256 a, c3)"
proof -
  obtain c2 c3 where u: "md_updates sha256_transform ctx [a] = Some c2"
    "md_final sha256_transform c2 = Some c3" "state c3 = md_hash sha256_transform sha256_iv a"
    using md_stream [of ctx sha256_transform "[a]"] sha256_create [OF assms] by auto
  then show ?thesis
    using sha256_digest [OF u(2,3)] by (auto simp: xylem_sha256_update_def split: bind_splits)
qed

text \<open>C29. \<open>xylem_hmac256_compute\<close> is HMAC of RFC 2104 over SHA-256 for every key length: longer keys than a
  block are hashed first, shorter ones are padded with zeros.\<close>

theorem hmac256_correct:
  "xylem_hmac256_compute True True True key msg = Some (hmac sha256 key msg)"
proof -
  obtain ctx where c: "xylem_sha256_create True = Some ctx" by (simp add: xylem_sha256_create_def)
  obtain h1 h2 where h: "xylem_sha256_update ctx key = Some h1" "xylem_sha256_final h1 = Some (sha256 key, h2)"
    using sha256_one [OF c] by blast
  define k where "k = hmac_key sha256 key"
  have k: "(if 64 < length key then do {
         h \<leftarrow> xylem_sha256_create True; h \<leftarrow> xylem_sha256_update h key; (d, h) \<leftarrow> xylem_sha256_final h;
         memcpy_at (replicate 64 0) 0 d } else memcpy_at (replicate 64 0) 0 key) = Some k"
    using c h by (simp add: k_def hmac_key_def memcpy_at_def length_sha256)
  obtain i1 i2 i3 where i: "xylem_sha256_update ctx (map (\<lambda>b. b XOR 0x36) k) = Some i1"
    "xylem_sha256_update i1 msg = Some i2" "xylem_sha256_final i2 = Some (sha256 (map (\<lambda>b. b XOR 0x36) k @ msg), i3)"
    using sha256_two [OF c] by blast
  obtain o1 o2 o3 where o: "xylem_sha256_update ctx (map (\<lambda>b. b XOR 0x5c) k) = Some o1"
    "xylem_sha256_update o1 (sha256 (map (\<lambda>b. b XOR 0x36) k @ msg)) = Some o2"
    "xylem_sha256_final o2 = Some (hmac sha256 key msg, o3)"
    using sha256_two [OF c] unfolding hmac_def k_def [symmetric] by blast
  show ?thesis unfolding xylem_hmac256_compute_def Let_def k using c i o by simp
qed

end
