(* ===== verification/Aes.thy ===== *)
theory Aes
  imports Block_Hash
begin

text \<open>
  The AES-256 block cipher of the bundled \<open>tiny-AES-c\<close> (\<open>src/crypto/aes256/tiny-AES-c/aes.c\<close>, built
  with CBC, ECB and CTR): tables, key expansion, the round functions and their inverses,
  \<open>Cipher\<close> and \<open>InvCipher\<close>. The 4x4 state is the buffer it is cast from: \<open>state[i][j]\<close> is byte
  \<open>4 * i + j\<close> of a list of 16 bytes. The main result is that \<open>InvCipher\<close> inverts \<open>Cipher\<close>.
\<close>

section \<open>Tables\<close>

definition sbox :: "u8 list" where
  "sbox = [
     0x63, 0x7c, 0x77, 0x7b, 0xf2, 0x6b, 0x6f, 0xc5, 0x30, 0x01, 0x67, 0x2b, 0xfe, 0xd7, 0xab, 0x76,
     0xca, 0x82, 0xc9, 0x7d, 0xfa, 0x59, 0x47, 0xf0, 0xad, 0xd4, 0xa2, 0xaf, 0x9c, 0xa4, 0x72, 0xc0,
     0xb7, 0xfd, 0x93, 0x26, 0x36, 0x3f, 0xf7, 0xcc, 0x34, 0xa5, 0xe5, 0xf1, 0x71, 0xd8, 0x31, 0x15,
     0x04, 0xc7, 0x23, 0xc3, 0x18, 0x96, 0x05, 0x9a, 0x07, 0x12, 0x80, 0xe2, 0xeb, 0x27, 0xb2, 0x75,
     0x09, 0x83, 0x2c, 0x1a, 0x1b, 0x6e, 0x5a, 0xa0, 0x52, 0x3b, 0xd6, 0xb3, 0x29, 0xe3, 0x2f, 0x84,
     0x53, 0xd1, 0x00, 0xed, 0x20, 0xfc, 0xb1, 0x5b, 0x6a, 0xcb, 0xbe, 0x39, 0x4a, 0x4c, 0x58, 0xcf,
     0xd0, 0xef, 0xaa, 0xfb, 0x43, 0x4d, 0x33, 0x85, 0x45, 0xf9, 0x02, 0x7f, 0x50, 0x3c, 0x9f, 0xa8,
     0x51, 0xa3, 0x40, 0x8f, 0x92, 0x9d, 0x38, 0xf5, 0xbc, 0xb6, 0xda, 0x21, 0x10, 0xff, 0xf3, 0xd2,
     0xcd, 0x0c, 0x13, 0xec, 0x5f, 0x97, 0x44, 0x17, 0xc4, 0xa7, 0x7e, 0x3d, 0x64, 0x5d, 0x19, 0x73,
     0x60, 0x81, 0x4f, 0xdc, 0x22, 0x2a, 0x90, 0x88, 0x46, 0xee, 0xb8, 0x14, 0xde, 0x5e, 0x0b, 0xdb,
     0xe0, 0x32, 0x3a, 0x0a, 0x49, 0x06, 0x24, 0x5c, 0xc2, 0xd3, 0xac, 0x62, 0x91, 0x95, 0xe4, 0x79,
     0xe7, 0xc8, 0x37, 0x6d, 0x8d, 0xd5, 0x4e, 0xa9, 0x6c, 0x56, 0xf4, 0xea, 0x65, 0x7a, 0xae, 0x08,
     0xba, 0x78, 0x25, 0x2e, 0x1c, 0xa6, 0xb4, 0xc6, 0xe8, 0xdd, 0x74, 0x1f, 0x4b, 0xbd, 0x8b, 0x8a,
     0x70, 0x3e, 0xb5, 0x66, 0x48, 0x03, 0xf6, 0x0e, 0x61, 0x35, 0x57, 0xb9, 0x86, 0xc1, 0x1d, 0x9e,
     0xe1, 0xf8, 0x98, 0x11, 0x69, 0xd9, 0x8e, 0x94, 0x9b, 0x1e, 0x87, 0xe9, 0xce, 0x55, 0x28, 0xdf,
     0x8c, 0xa1, 0x89, 0x0d, 0xbf, 0xe6, 0x42, 0x68, 0x41, 0x99, 0x2d, 0x0f, 0xb0, 0x54, 0xbb, 0x16]"

definition rsbox :: "u8 list" where
  "rsbox = [
     0x52, 0x09, 0x6a, 0xd5, 0x30, 0x36, 0xa5, 0x38, 0xbf, 0x40, 0xa3, 0x9e, 0x81, 0xf3, 0xd7, 0xfb,
     0x7c, 0xe3, 0x39, 0x82, 0x9b, 0x2f, 0xff, 0x87, 0x34, 0x8e, 0x43, 0x44, 0xc4, 0xde, 0xe9, 0xcb,
     0x54, 0x7b, 0x94, 0x32, 0xa6, 0xc2, 0x23, 0x3d, 0xee, 0x4c, 0x95, 0x0b, 0x42, 0xfa, 0xc3, 0x4e,
     0x08, 0x2e, 0xa1, 0x66, 0x28, 0xd9, 0x24, 0xb2, 0x76, 0x5b, 0xa2, 0x49, 0x6d, 0x8b, 0xd1, 0x25,
     0x72, 0xf8, 0xf6, 0x64, 0x86, 0x68, 0x98, 0x16, 0xd4, 0xa4, 0x5c, 0xcc, 0x5d, 0x65, 0xb6, 0x92,
     0x6c, 0x70, 0x48, 0x50, 0xfd, 0xed, 0xb9, 0xda, 0x5e, 0x15, 0x46, 0x57, 0xa7, 0x8d, 0x9d, 0x84,
     0x90, 0xd8, 0xab, 0x00, 0x8c, 0xbc, 0xd3, 0x0a, 0xf7, 0xe4, 0x58, 0x05, 0xb8, 0xb3, 0x45, 0x06,
     0xd0, 0x2c, 0x1e, 0x8f, 0xca, 0x3f, 0x0f, 0x02, 0xc1, 0xaf, 0xbd, 0x03, 0x01, 0x13, 0x8a, 0x6b,
     0x3a, 0x91, 0x11, 0x41, 0x4f, 0x67, 0xdc, 0xea, 0x97, 0xf2, 0xcf, 0xce, 0xf0, 0xb4, 0xe6, 0x73,
     0x96, 0xac, 0x74, 0x22, 0xe7, 0xad, 0x35, 0x85, 0xe2, 0xf9, 0x37, 0xe8, 0x1c, 0x75, 0xdf, 0x6e,
     0x47, 0xf1, 0x1a, 0x71, 0x1d, 0x29, 0xc5, 0x89, 0x6f, 0xb7, 0x62, 0x0e, 0xaa, 0x18, 0xbe, 0x1b,
     0xfc, 0x56, 0x3e, 0x4b, 0xc6, 0xd2, 0x79, 0x20, 0x9a, 0xdb, 0xc0, 0xfe, 0x78, 0xcd, 0x5a, 0xf4,
     0x1f, 0xdd, 0xa8, 0x33, 0x88, 0x07, 0xc7, 0x31, 0xb1, 0x12, 0x10, 0x59, 0x27, 0x80, 0xec, 0x5f,
     0x60, 0x51, 0x7f, 0xa9, 0x19, 0xb5, 0x4a, 0x0d, 0x2d, 0xe5, 0x7a, 0x9f, 0x93, 0xc9, 0x9c, 0xef,
     0xa0, 0xe0, 0x3b, 0x4d, 0xae, 0x2a, 0xf5, 0xb0, 0xc8, 0xeb, 0xbb, 0x3c, 0x83, 0x53, 0x99, 0x61,
     0x17, 0x2b, 0x04, 0x7e, 0xba, 0x77, 0xd6, 0x26, 0xe1, 0x69, 0x14, 0x63, 0x55, 0x21, 0x0c, 0x7d]"

definition Rcon :: "u8 list" where
  "Rcon = [0x8d, 0x01, 0x02, 0x04, 0x08, 0x10, 0x20, 0x40, 0x80, 0x1b, 0x36]"

definition getSBoxValue :: "u8 \<Rightarrow> u8" where
  "getSBoxValue num = sbox ! unat num"

definition getSBoxInvert :: "u8 \<Rightarrow> u8" where
  "getSBoxInvert num = rsbox ! unat num"

section \<open>Key expansion\<close>

definition key_word :: "u8 list \<Rightarrow> nat \<Rightarrow> u8 list" where
  "key_word RoundKey k = [RoundKey ! k, RoundKey ! (k + 1), RoundKey ! (k + 2), RoundKey ! (k + 3)]"

text \<open>One iteration of the second loop: \<open>RotWord\<close>, \<open>SubWord\<close> and the round constant for every
  eighth word, \<open>SubWord\<close> alone halfway between.\<close>

definition key_expansion_step :: "u8 list \<Rightarrow> nat \<Rightarrow> u8 list" where
  "key_expansion_step RoundKey i =
     (let tempa = key_word RoundKey ((i - 1) * 4);
          tempa = (if i mod 8 = 0 then
            (let rot = [tempa ! 1, tempa ! 2, tempa ! 3, tempa ! 0];
                 sub = map getSBoxValue rot in
             sub[0 := sub ! 0 XOR Rcon ! (i div 8)])
            else tempa);
          tempa = (if i mod 8 = 4 then map getSBoxValue tempa else tempa) in
      RoundKey @ map2 (XOR) (key_word RoundKey ((i - 8) * 4)) tempa)"

definition KeyExpansion :: "u8 list \<Rightarrow> u8 list" where
  "KeyExpansion Key = foldl key_expansion_step (take 32 Key) [8..<60]"

section \<open>Rounds\<close>

definition AddRoundKey :: "nat \<Rightarrow> u8 list \<Rightarrow> u8 list \<Rightarrow> u8 list" where
  "AddRoundKey round st RoundKey = map (\<lambda>k. st ! k XOR RoundKey ! (round * 16 + k)) [0..<16]"

definition SubBytes :: "u8 list \<Rightarrow> u8 list" where
  "SubBytes st = map getSBoxValue st"

definition ShiftRows :: "u8 list \<Rightarrow> u8 list" where
  "ShiftRows st = [st ! 0, st ! 5, st ! 10, st ! 15, st ! 4, st ! 9, st ! 14, st ! 3,
     st ! 8, st ! 13, st ! 2, st ! 7, st ! 12, st ! 1, st ! 6, st ! 11]"

definition xtime :: "u8 \<Rightarrow> u8" where
  "xtime x = push_bit 1 x XOR (drop_bit 7 x AND 1) * 0x1b"

definition mix_column :: "u8 list \<Rightarrow> nat \<Rightarrow> u8 list" where
  "mix_column st i =
     (let a = st ! (4 * i); b = st ! (4 * i + 1); c = st ! (4 * i + 2); d = st ! (4 * i + 3);
          Tmp = a XOR b XOR c XOR d in
      [a XOR (xtime (a XOR b) XOR Tmp), b XOR (xtime (b XOR c) XOR Tmp),
       c XOR (xtime (c XOR d) XOR Tmp), d XOR (xtime (d XOR a) XOR Tmp)])"

definition MixColumns :: "u8 list \<Rightarrow> u8 list" where
  "MixColumns st = concat (map (mix_column st) [0..<4])"

definition Multiply :: "u8 \<Rightarrow> u8 \<Rightarrow> u8" where
  "Multiply x y = ((y AND 1) * x) XOR ((drop_bit 1 y AND 1) * xtime x) XOR
     ((drop_bit 2 y AND 1) * xtime (xtime x)) XOR ((drop_bit 3 y AND 1) * xtime (xtime (xtime x))) XOR
     ((drop_bit 4 y AND 1) * xtime (xtime (xtime (xtime x))))"

definition inv_mix_column :: "u8 list \<Rightarrow> nat \<Rightarrow> u8 list" where
  "inv_mix_column st i =
     (let a = st ! (4 * i); b = st ! (4 * i + 1); c = st ! (4 * i + 2); d = st ! (4 * i + 3) in
      [Multiply a 0x0e XOR Multiply b 0x0b XOR Multiply c 0x0d XOR Multiply d 0x09,
       Multiply a 0x09 XOR Multiply b 0x0e XOR Multiply c 0x0b XOR Multiply d 0x0d,
       Multiply a 0x0d XOR Multiply b 0x09 XOR Multiply c 0x0e XOR Multiply d 0x0b,
       Multiply a 0x0b XOR Multiply b 0x0d XOR Multiply c 0x09 XOR Multiply d 0x0e])"

definition InvMixColumns :: "u8 list \<Rightarrow> u8 list" where
  "InvMixColumns st = concat (map (inv_mix_column st) [0..<4])"

definition InvSubBytes :: "u8 list \<Rightarrow> u8 list" where
  "InvSubBytes st = map getSBoxInvert st"

definition InvShiftRows :: "u8 list \<Rightarrow> u8 list" where
  "InvShiftRows st = [st ! 0, st ! 13, st ! 10, st ! 7, st ! 4, st ! 1, st ! 14, st ! 11,
     st ! 8, st ! 5, st ! 2, st ! 15, st ! 12, st ! 9, st ! 6, st ! 3]"

section \<open>The cipher\<close>

text \<open>The loop of \<open>Cipher\<close> leaves in round \<open>Nr = 14\<close>, after \<open>ShiftRows\<close>; that of \<open>InvCipher\<close>
  in round 0, before \<open>InvMixColumns\<close>.\<close>

definition cipher_round :: "u8 list \<Rightarrow> u8 list \<Rightarrow> nat \<Rightarrow> u8 list" where
  "cipher_round RoundKey st round = AddRoundKey round (MixColumns (ShiftRows (SubBytes st))) RoundKey"

definition Cipher :: "u8 list \<Rightarrow> u8 list \<Rightarrow> u8 list" where
  "Cipher st RoundKey = AddRoundKey 14
     (ShiftRows (SubBytes (foldl (cipher_round RoundKey) (AddRoundKey 0 st RoundKey) [1..<14]))) RoundKey"

definition inv_cipher_round :: "u8 list \<Rightarrow> u8 list \<Rightarrow> nat \<Rightarrow> u8 list" where
  "inv_cipher_round RoundKey st round = InvMixColumns (AddRoundKey round (InvSubBytes (InvShiftRows st)) RoundKey)"

definition InvCipher :: "u8 list \<Rightarrow> u8 list \<Rightarrow> u8 list" where
  "InvCipher st RoundKey = AddRoundKey 0
     (InvSubBytes (InvShiftRows (foldl (inv_cipher_round RoundKey) (AddRoundKey 14 st RoundKey) (rev [1..<14])))) RoundKey"

section \<open>The S-boxes\<close>

text \<open>A literal table as one equation per index, so that the simplifier looks entries up directly.\<close>

primrec indexed :: "int \<Rightarrow> 'a list \<Rightarrow> (int \<times> 'a) list" where
  "indexed n [] = []"
| "indexed n (x # xs) = (n, x) # indexed (n + 1) xs"

lemma indexed_nth: "\<forall>(k, v) \<in> set (indexed n xs). n \<le> k \<and> xs ! nat (k - n) = v"
proof (induction xs arbitrary: n)
  case Nil
  then show ?case by simp
next
  case (Cons x xs)
  have "n \<le> k \<and> (x # xs) ! nat (k - n) = v" if "(k, v) \<in> set (indexed (n + 1) xs)" for k v
  proof -
    have "n + 1 \<le> k" "xs ! nat (k - (n + 1)) = v" using bspec [OF Cons that] by simp_all
    moreover from this have "nat (k - n) = Suc (nat (k - (n + 1)))" by simp
    ultimately show ?thesis by simp
  qed
  then show ?case by auto
qed

lemma table_nth: "t = xs \<Longrightarrow> list_all (\<lambda>(k, v). t ! nat k = v) (indexed 0 xs)"
  using indexed_nth [of 0 xs] by (auto simp: list_all_iff)

lemmas rsbox_nth = table_nth [OF rsbox_def, simplified]

lemma rsbox_sbox: "map getSBoxInvert sbox = map of_int [0..255]"
  by (simp add: sbox_def getSBoxInvert_def rsbox_nth upto_rec1)

lemma getSBoxInvert_Value: "getSBoxInvert (getSBoxValue b) = b"
proof -
  have l: "unat b < length sbox" using unat_less [of b] by (simp add: sbox_def)
  then have "getSBoxInvert (sbox ! unat b) = map getSBoxInvert sbox ! unat b" by simp
  also have "\<dots> = of_int (int (unat b))"
  proof -
    have "[0..255] ! unat b = int (unat b)" using uint_bounded [of b] by (subst nth_upto) simp_all
    then show ?thesis unfolding rsbox_sbox using unat_less [of b] by (subst nth_map) simp_all
  qed
  finally show ?thesis by (simp add: getSBoxValue_def)
qed

section \<open>Columns\<close>

text \<open>\<open>xtime\<close> is linear, and the matrix of \<open>InvMixColumns\<close> is the inverse of that of
  \<open>MixColumns\<close> as polynomials in \<open>xtime\<close>.\<close>

lemma xtime_if: "xtime x = push_bit 1 x XOR (if bit x 7 then 0x1b else 0)"
proof -
  have "(drop_bit 7 x AND 1 :: u8) = (if bit x 7 then 1 else 0)"
    by (auto intro!: bit_eqI simp: bit_and_iff bit_drop_bit_eq bit_1_iff)
  then show ?thesis by (simp add: xtime_def)
qed

lemma xtime_xor: "xtime (x XOR y) = xtime x XOR xtime y"
  by (simp add: xtime_if push_bit_xor bit_xor_iff xor.assoc xor.left_commute)

lemma xor_cancel: "x XOR (x XOR y) = (y :: 'a::len word)"
  by (simp flip: xor.assoc)

lemmas xor_normal = xtime_xor xor.assoc xor.commute xor.left_commute xor_cancel

lemma Multiply_consts:
  "Multiply x 0x0e = xtime x XOR xtime (xtime x) XOR xtime (xtime (xtime x))"
  "Multiply x 0x0b = x XOR xtime x XOR xtime (xtime (xtime x))"
  "Multiply x 0x0d = x XOR xtime (xtime x) XOR xtime (xtime (xtime x))"
  "Multiply x 0x09 = x XOR xtime (xtime (xtime x))"
  by (simp_all add: Multiply_def)

lemma inv_mix_column_values:
  assumes "st ! (4 * i) = a XOR (xtime (a XOR b) XOR (a XOR b XOR c XOR d))"
    and "st ! (4 * i + 1) = b XOR (xtime (b XOR c) XOR (a XOR b XOR c XOR d))"
    and "st ! (4 * i + 2) = c XOR (xtime (c XOR d) XOR (a XOR b XOR c XOR d))"
    and "st ! (4 * i + 3) = d XOR (xtime (d XOR a) XOR (a XOR b XOR c XOR d))"
  shows "inv_mix_column st i = [a, b, c, d]"
  unfolding inv_mix_column_def assms Let_def Multiply_consts by (simp add: xor_normal)

section \<open>Inverses\<close>

lemma list16:
  assumes "length st = 16"
  shows "st = [st ! 0, st ! 1, st ! 2, st ! 3, st ! 4, st ! 5, st ! 6, st ! 7,
    st ! 8, st ! 9, st ! 10, st ! 11, st ! 12, st ! 13, st ! 14, st ! 15]"
  using map_nth [of st] by (simp add: assms upt_rec numeral_eq_Suc)

lemma InvMix_Mix:
  assumes "length st = 16"
  shows "InvMixColumns (MixColumns st) = st"
proof -
  have nth: "MixColumns st ! (4 * i) = mix_column st i ! 0" "MixColumns st ! (4 * i + 1) = mix_column st i ! 1"
    "MixColumns st ! (4 * i + 2) = mix_column st i ! 2" "MixColumns st ! (4 * i + 3) = mix_column st i ! 3"
    if "i < 4" for i
  proof -
    have "i = 0 \<or> i = 1 \<or> i = 2 \<or> i = 3" using that by auto
    then show "MixColumns st ! (4 * i) = mix_column st i ! 0" "MixColumns st ! (4 * i + 1) = mix_column st i ! 1"
      "MixColumns st ! (4 * i + 2) = mix_column st i ! 2" "MixColumns st ! (4 * i + 3) = mix_column st i ! 3"
      by (auto simp: MixColumns_def mix_column_def Let_def upt_rec)
  qed
  have "inv_mix_column (MixColumns st) i = [st ! (4 * i), st ! (4 * i + 1), st ! (4 * i + 2), st ! (4 * i + 3)]"
    if "i < 4" for i
    by (rule inv_mix_column_values) (simp_all only: nth [OF that], simp_all add: mix_column_def Let_def)
  then have "InvMixColumns (MixColumns st) = [st ! 0, st ! 1, st ! 2, st ! 3, st ! 4, st ! 5, st ! 6, st ! 7,
    st ! 8, st ! 9, st ! 10, st ! 11, st ! 12, st ! 13, st ! 14, st ! 15]"
    by (simp add: InvMixColumns_def upt_rec flip: numeral_2_eq_2)
  then show ?thesis using list16 [OF assms] by simp
qed

lemma length_AddRoundKey [simp]: "length (AddRoundKey r st k) = 16"
  by (simp add: AddRoundKey_def)

lemma length_SubBytes [simp]: "length (SubBytes st) = length st"
  by (simp add: SubBytes_def)

lemma length_ShiftRows [simp]: "length (ShiftRows st) = 16"
  by (simp add: ShiftRows_def)

lemma length_MixColumns [simp]: "length (MixColumns st) = 16"
  by (simp add: MixColumns_def mix_column_def Let_def upt_rec)

lemma AddRoundKey_twice: "length st = 16 \<Longrightarrow> AddRoundKey r (AddRoundKey r st k) k = st"
  by (intro nth_equalityI) (simp_all add: AddRoundKey_def xor.assoc)

lemma InvSub_Sub: "InvSubBytes (SubBytes st) = st"
  by (simp add: InvSubBytes_def SubBytes_def getSBoxInvert_Value o_def)

lemma InvShift_Shift: "length st = 16 \<Longrightarrow> InvShiftRows (ShiftRows st) = st"
  using list16 [of st] by (simp add: InvShiftRows_def ShiftRows_def)

lemma Shift_Sub_inverse: "length st = 16 \<Longrightarrow> InvSubBytes (InvShiftRows (ShiftRows (SubBytes st))) = st"
  by (simp add: InvShift_Shift InvSub_Sub)

lemma cipher_round_inverse:
  "length st = 16 \<Longrightarrow>
    inv_cipher_round k (ShiftRows (SubBytes (cipher_round k st r))) r = ShiftRows (SubBytes st)"
  by (simp add: inv_cipher_round_def cipher_round_def Shift_Sub_inverse AddRoundKey_twice InvMix_Mix)

lemma length_cipher_rounds: "length st = 16 \<Longrightarrow> length (foldl (cipher_round k) st rs) = 16"
  by (induction rs arbitrary: st) (simp_all add: cipher_round_def)

lemma cipher_rounds_inverse:
  "length st = 16 \<Longrightarrow> foldl (inv_cipher_round k) (ShiftRows (SubBytes (foldl (cipher_round k) st rs))) (rev rs) =
    ShiftRows (SubBytes st)"
  by (induction rs rule: rev_induct) (simp_all add: cipher_round_inverse length_cipher_rounds)

lemma InvCipher_Cipher: "length st = 16 \<Longrightarrow> InvCipher (Cipher st k) k = st"
  unfolding InvCipher_def Cipher_def
  by (simp only: AddRoundKey_twice length_ShiftRows cipher_rounds_inverse length_AddRoundKey Shift_Sub_inverse)

lemma length_Cipher [simp]: "length (Cipher st k) = 16"
  by (simp add: Cipher_def)

lemma length_InvCipher [simp]: "length (InvCipher st k) = 16"
  by (simp add: InvCipher_def)

text \<open>The key schedule always has the 240 bytes that the rounds read.\<close>

lemma length_KeyExpansion:
  assumes "length key = 32"
  shows "length (KeyExpansion key) = 240"
proof -
  have l: "length (foldl key_expansion_step rk is) = length rk + 4 * length is" for rk "is"
    by (induction "is" arbitrary: rk) (simp_all add: key_expansion_step_def key_word_def Let_def)
  show ?thesis unfolding KeyExpansion_def l using assms by simp
qed

end
