(* ===== verification/Aes_Modes.thy ===== *)
theory Aes_Modes
  imports Aes
begin

text \<open>
  The ECB, CBC and CTR modes of \<open>src/crypto/aes256/tiny-AES-c/aes.c\<close> and the library functions over
  them, \<open>src/crypto/aes256/xylem-aes256.c\<close>: random IV in front of the ciphertext, PKCS#7 padding for
  CBC. A call returns its \<open>int\<close> result, the bytes it left in \<open>dst\<close> and the context; the random IV,
  the result of \<open>calloc\<close> and the nullness of \<open>ctx\<close> and \<open>dst\<close> are arguments. A mode function that would
  run past the end of its buffer is undefined, \<open>None\<close>.
\<close>

section \<open>Modes\<close>

record AES_ctx =
  RoundKey :: "u8 list"
  Iv :: "u8 list"

definition AES_init_ctx :: "AES_ctx \<Rightarrow> u8 list \<Rightarrow> AES_ctx" where
  "AES_init_ctx ctx key = ctx\<lparr>RoundKey := KeyExpansion key\<rparr>"

definition AES_init_ctx_iv :: "AES_ctx \<Rightarrow> u8 list \<Rightarrow> u8 list \<Rightarrow> AES_ctx" where
  "AES_init_ctx_iv ctx key iv = ctx\<lparr>RoundKey := KeyExpansion key, Iv := take 16 iv\<rparr>"

definition AES_ctx_set_iv :: "AES_ctx \<Rightarrow> u8 list \<Rightarrow> AES_ctx" where
  "AES_ctx_set_iv ctx iv = ctx\<lparr>Iv := take 16 iv\<rparr>"

definition AES_ECB_encrypt :: "AES_ctx \<Rightarrow> u8 list \<Rightarrow> u8 list" where
  "AES_ECB_encrypt ctx buf = Cipher buf (RoundKey ctx)"

definition AES_ECB_decrypt :: "AES_ctx \<Rightarrow> u8 list \<Rightarrow> u8 list" where
  "AES_ECB_decrypt ctx buf = InvCipher buf (RoundKey ctx)"

definition XorWithIv :: "u8 list \<Rightarrow> u8 list \<Rightarrow> u8 list" where
  "XorWithIv buf iv = map2 (XOR) buf iv"

function cbc_encrypt :: "u8 list \<Rightarrow> u8 list \<Rightarrow> u8 list \<Rightarrow> (u8 list \<times> u8 list) option" where
  "cbc_encrypt rk iv buf = (if buf = [] then Some ([], iv) else if length buf < 16 then None
     else let b = Cipher (XorWithIv (take 16 buf) iv) rk in
       do { (out, iv') \<leftarrow> cbc_encrypt rk b (drop 16 buf); Some (b @ out, iv') })"
  by pat_completeness auto
termination by (relation "measure (\<lambda>(_, _, buf). length buf)") auto

definition AES_CBC_encrypt_buffer :: "AES_ctx \<Rightarrow> u8 list \<Rightarrow> (u8 list \<times> AES_ctx) option" where
  "AES_CBC_encrypt_buffer ctx buf = do {
     (out, iv) \<leftarrow> cbc_encrypt (RoundKey ctx) (Iv ctx) buf;
     Some (out, ctx\<lparr>Iv := iv\<rparr>) }"

function cbc_decrypt :: "u8 list \<Rightarrow> u8 list \<Rightarrow> u8 list \<Rightarrow> (u8 list \<times> u8 list) option" where
  "cbc_decrypt rk iv buf = (if buf = [] then Some ([], iv) else if length buf < 16 then None
     else let storeNextIv = take 16 buf in
       do { (out, iv') \<leftarrow> cbc_decrypt rk storeNextIv (drop 16 buf);
            Some (XorWithIv (InvCipher (take 16 buf) rk) iv @ out, iv') })"
  by pat_completeness auto
termination by (relation "measure (\<lambda>(_, _, buf). length buf)") auto

definition AES_CBC_decrypt_buffer :: "AES_ctx \<Rightarrow> u8 list \<Rightarrow> (u8 list \<times> AES_ctx) option" where
  "AES_CBC_decrypt_buffer ctx buf = do {
     (out, iv) \<leftarrow> cbc_decrypt (RoundKey ctx) (Iv ctx) buf;
     Some (out, ctx\<lparr>Iv := iv\<rparr>) }"

declare cbc_encrypt.simps [simp del] cbc_decrypt.simps [simp del]

text \<open>The counter is the IV as a big-endian number; the loop carries from the last byte to the
  first.\<close>

fun ctr_inc :: "nat \<Rightarrow> u8 list \<Rightarrow> u8 list" where
  "ctr_inc 0 iv = iv"
| "ctr_inc (Suc bi) iv = (if iv ! bi = 255 then ctr_inc bi (iv[bi := 0]) else iv[bi := iv ! bi + 1])"

fun ctr_xcrypt :: "u8 list \<Rightarrow> u8 list \<Rightarrow> u8 list \<Rightarrow> nat \<Rightarrow> u8 list \<Rightarrow> u8 list \<times> u8 list" where
  "ctr_xcrypt rk iv buffer bi [] = ([], iv)"
| "ctr_xcrypt rk iv buffer bi (b # buf) =
     (let (buffer, iv, bi) = (if bi = 16 then (Cipher iv rk, ctr_inc 16 iv, 0) else (buffer, iv, bi));
          (out, iv') = ctr_xcrypt rk iv buffer (bi + 1) buf in
      ((b XOR buffer ! bi) # out, iv'))"

definition AES_CTR_xcrypt_buffer :: "AES_ctx \<Rightarrow> u8 list \<Rightarrow> u8 list \<times> AES_ctx" where
  "AES_CTR_xcrypt_buffer ctx buf =
     (let (out, iv) = ctr_xcrypt (RoundKey ctx) (Iv ctx) [] 16 buf in (out, ctx\<lparr>Iv := iv\<rparr>))"

section \<open>The library functions\<close>

record xylem_aes256 =
  aes :: AES_ctx
  key :: "u8 list"

definition xylem_aes256_ctr_encrypt_size :: "u64 \<Rightarrow> u64" where
  "xylem_aes256_ctr_encrypt_size len = 16 + len"

definition xylem_aes256_ctr_decrypt_size :: "u64 \<Rightarrow> u64" where
  "xylem_aes256_ctr_decrypt_size len = (if len < 16 then 0 else len - 16)"

definition xylem_aes256_cbc_encrypt_size :: "u64 \<Rightarrow> u64" where
  "xylem_aes256_cbc_encrypt_size len = (let pad = 16 - (len mod 16) in 16 + len + pad)"

definition xylem_aes256_cbc_decrypt_size :: "u64 \<Rightarrow> u64" where
  "xylem_aes256_cbc_decrypt_size len = (if len < 16 + 16 then 0 else len - 16)"

definition xylem_aes256_create :: "bool \<Rightarrow> u8 list \<Rightarrow> xylem_aes256 option" where
  "xylem_aes256_create alloc k = (if \<not> alloc then None
     else Some \<lparr>aes = AES_init_ctx \<lparr>RoundKey = replicate 240 0, Iv = replicate 16 0\<rparr> k, key = take 32 k\<rparr>)"

text \<open>What \<open>free\<close> is given: the context is cleared first.\<close>

definition xylem_aes256_destroy :: "xylem_aes256 option \<Rightarrow> xylem_aes256 option" where
  "xylem_aes256_destroy ctx = (case ctx of None \<Rightarrow> None | Some c \<Rightarrow>
     Some \<lparr>aes = \<lparr>RoundKey = replicate 240 0, Iv = replicate 16 0\<rparr>, key = replicate 32 0\<rparr>)"

text \<open>The conversion of a \<open>size_t\<close> to the \<open>int\<close> that is returned.\<close>

definition to_int :: "u64 \<Rightarrow> int" where
  "to_int n = sint (ucast n :: 32 word)"

type_synonym aes_result = "(int \<times> u8 list \<times> xylem_aes256 option) option"

definition aes_error :: "xylem_aes256 option \<Rightarrow> aes_result" where
  "aes_error ctx = Some (-1, [], ctx)"

definition xylem_aes256_ctr_encrypt ::
    "xylem_aes256 option \<Rightarrow> u8 list \<Rightarrow> bool \<Rightarrow> u64 \<Rightarrow> u8 list \<Rightarrow> aes_result" where
  "xylem_aes256_ctr_encrypt ctx src dst dlen iv = (case ctx of None \<Rightarrow> aes_error ctx | Some c \<Rightarrow>
     if \<not> dst then aes_error ctx
     else let need = xylem_aes256_ctr_encrypt_size (of_nat (length src)) in
       if dlen < need then aes_error ctx
       else let a = AES_init_ctx_iv (aes c) (key c) iv;
                (ct, a) = AES_CTR_xcrypt_buffer a src in
         Some (to_int need, take 16 iv @ ct, Some (c\<lparr>aes := a\<rparr>)))"

definition xylem_aes256_ctr_decrypt ::
    "xylem_aes256 option \<Rightarrow> u8 list \<Rightarrow> bool \<Rightarrow> u64 \<Rightarrow> aes_result" where
  "xylem_aes256_ctr_decrypt ctx src dst dlen = (case ctx of None \<Rightarrow> aes_error ctx | Some c \<Rightarrow>
     let slen = of_nat (length src) in
     if \<not> dst \<or> slen < 16 then aes_error ctx
     else let ct_len = slen - 16 in
       if dlen < ct_len then aes_error ctx
       else let a = AES_init_ctx_iv (aes c) (key c) src;
                (pt, a) = AES_CTR_xcrypt_buffer a (drop 16 src) in
         Some (to_int ct_len, pt, Some (c\<lparr>aes := a\<rparr>)))"

definition xylem_aes256_cbc_encrypt ::
    "xylem_aes256 option \<Rightarrow> u8 list \<Rightarrow> bool \<Rightarrow> u64 \<Rightarrow> u8 list \<Rightarrow> aes_result" where
  "xylem_aes256_cbc_encrypt ctx src dst dlen iv = (case ctx of None \<Rightarrow> aes_error ctx | Some c \<Rightarrow>
     if \<not> dst then aes_error ctx
     else let slen = of_nat (length src); need = xylem_aes256_cbc_encrypt_size slen in
       if dlen < need then aes_error ctx
       else let pad_val = ucast (16 - slen mod 16) :: u8;
                a = AES_init_ctx_iv (aes c) (key c) iv in
         do { (ct, a) \<leftarrow> AES_CBC_encrypt_buffer a (src @ replicate (unat pad_val) pad_val);
              Some (to_int need, take 16 iv @ ct, Some (c\<lparr>aes := a\<rparr>)) })"

definition xylem_aes256_cbc_decrypt ::
    "xylem_aes256 option \<Rightarrow> u8 list \<Rightarrow> bool \<Rightarrow> u64 \<Rightarrow> aes_result" where
  "xylem_aes256_cbc_decrypt ctx src dst dlen = (case ctx of None \<Rightarrow> aes_error ctx | Some c \<Rightarrow>
     if \<not> dst then aes_error ctx
     else let slen = of_nat (length src); ct_len = slen - 16 in
       if slen < 16 + 16 \<or> ct_len mod 16 \<noteq> 0 then aes_error ctx
       else if dlen < ct_len then aes_error ctx
       else let a = AES_init_ctx_iv (aes c) (key c) src in
         do { (pt, a) \<leftarrow> AES_CBC_decrypt_buffer a (drop 16 src);
              let pad_val = pt ! (unat ct_len - 1);
              let ctx = Some (c\<lparr>aes := a\<rparr>);
              if pad_val = 0 \<or> pad_val > 16 then Some (-1, pt, ctx)
              else if list_ex (\<lambda>i. pt ! (unat ct_len - 1 - i) \<noteq> pad_val) [0..<unat pad_val] then Some (-1, pt, ctx)
              else Some (to_int (ct_len - ucast pad_val), pt, ctx) })"

section \<open>Counter mode\<close>

definition be_val :: "u8 list \<Rightarrow> nat" where
  "be_val bs = foldl (\<lambda>n b. n * 256 + unat b) 0 bs"

lemma be_val_snoc: "be_val (bs @ [b]) = be_val bs * 256 + unat b"
  by (simp add: be_val_def)

lemma length_ctr_inc [simp]: "length (ctr_inc k iv) = length iv"
  by (induction k arbitrary: iv) auto

lemma ctr_inc_prefix:
  "k \<le> length iv \<Longrightarrow> be_val (take k (ctr_inc k iv)) = (be_val (take k iv) + 1) mod 256 ^ k \<and>
    drop k (ctr_inc k iv) = drop k iv"
proof (induction k arbitrary: iv)
  case 0
  then show ?case by (simp add: be_val_def)
next
  case (Suc k)
  have t: "take (Suc k) iv = take k iv @ [iv ! k]" using Suc.prems by (simp add: take_Suc_conv_app_nth)
  show ?case
  proof (cases "iv ! k = 255")
    case True
    define r where "r = ctr_inc k (iv[k := 0])"
    have IH: "be_val (take k r) = (be_val (take k iv) + 1) mod 256 ^ k" "drop k r = drop k (iv[k := 0])"
      using Suc.IH [of "iv[k := 0]"] Suc.prems by (auto simp: r_def)
    have k: "k < length r" using Suc.prems by (simp add: r_def)
    then have "r ! k = 0" "drop (Suc k) r = drop (Suc k) iv"
      using IH(2) Suc.prems by (metis Cons_nth_drop_Suc length_list_update list.inject nth_list_update_eq Suc_le_lessD,
        metis drop_Suc tl_drop drop_update_cancel lessI)
    then have "be_val (take (Suc k) r) = ((be_val (take k iv) + 1) mod 256 ^ k) * 256"
      using IH(1) k by (simp add: take_Suc_conv_app_nth be_val_snoc)
    also have "\<dots> = (be_val (take k iv) * 256 + 255 + 1) mod (256 ^ k * 256)"
      unfolding mult_mod_left by (simp add: algebra_simps)
    finally show ?thesis using True \<open>drop (Suc k) r = drop (Suc k) iv\<close> by (simp add: r_def t be_val_snoc mult.commute)
  next
    case False
    then have "unat (iv ! k) \<noteq> 255" by (simp add: word_unat_eq_iff)
    then have lt: "unat (iv ! k) < 255" using unat_less [of "iv ! k"] by simp
    then have u: "unat (iv ! k + 1) = unat (iv ! k) + 1" by (simp add: unat_word_ariths)
    have "be_val bs < 256 ^ length bs" for bs
    proof (induction bs rule: rev_induct)
      case Nil
      then show ?case by (simp add: be_val_def)
    next
      case (snoc b bs)
      then show ?case using unat_less [of b] by (simp add: be_val_snoc)
    qed
    from this [of "take k iv"] have "be_val (take k iv) < 256 ^ k" using Suc.prems by simp
    then have "be_val (take k iv) * 256 + unat (iv ! k) + 1 < 256 ^ Suc k" using lt by simp
    then show ?thesis using False Suc.prems u t by (simp add: take_update_cancel take_Suc_conv_app_nth be_val_snoc)
  qed
qed

lemma ctr_xcrypt_involution:
  "fst (ctr_xcrypt rk iv buffer bi (fst (ctr_xcrypt rk iv buffer bi buf))) = buf"
proof (induction buf arbitrary: iv buffer bi)
  case Nil
  then show ?case by simp
next
  case (Cons b buf)
  then show ?case by (simp add: Let_def case_prod_beta xor.assoc)
qed

lemma length_ctr_xcrypt: "length (fst (ctr_xcrypt rk iv buffer bi buf)) = length buf"
  by (induction buf arbitrary: iv buffer bi) (simp_all add: Let_def case_prod_beta)

section \<open>CBC mode\<close>

lemma XorWithIv_twice: "length b = length iv \<Longrightarrow> XorWithIv (XorWithIv b iv) iv = b"
  by (intro nth_equalityI) (simp_all add: XorWithIv_def xor.assoc)

lemma length_XorWithIv [simp]: "length (XorWithIv b iv) = min (length b) (length iv)"
  by (simp add: XorWithIv_def)

lemma cbc_roundtrip:
  assumes "length iv = 16" "16 dvd length buf"
  shows "\<exists>out iv'. cbc_encrypt rk iv buf = Some (out, iv') \<and> length out = length buf \<and>
    cbc_decrypt rk iv out = Some (buf, iv')"
  using assms
proof (induction "length buf" arbitrary: iv buf rule: less_induct)
  case less
  show ?case
  proof (cases "buf = []")
    case True
    then show ?thesis by (simp add: cbc_encrypt.simps cbc_decrypt.simps)
  next
    case False
    then have l: "16 \<le> length buf" using less.prems(2) by (auto dest: dvd_imp_le)
    define b where "b = Cipher (XorWithIv (take 16 buf) iv) rk"
    have "16 dvd length (drop 16 buf)" using less.prems(2) l by (simp add: dvd_diff_nat)
    moreover have "length (drop 16 buf) < length buf" using l by simp
    ultimately obtain out iv' where IH: "cbc_encrypt rk b (drop 16 buf) = Some (out, iv')"
      "length out = length (drop 16 buf)" "cbc_decrypt rk b out = Some (drop 16 buf, iv')"
      using less.hyps [of "drop 16 buf" b] by (auto simp: b_def)
    have "XorWithIv (InvCipher b rk) iv = take 16 buf"
      using l less.prems(1) by (simp add: b_def InvCipher_Cipher XorWithIv_twice)
    moreover have "length b = 16" by (simp add: b_def)
    ultimately have "cbc_decrypt rk iv (b @ out) = Some (buf, iv')"
      using IH(3) by (subst cbc_decrypt.simps) (auto simp: Let_def)
    moreover have "cbc_encrypt rk iv buf = Some (b @ out, iv')"
      using l False IH(1) by (subst cbc_encrypt.simps) (simp add: Let_def b_def)
    ultimately show ?thesis using IH(2) l by (simp add: b_def)
  qed
qed

lemma cbc_decrypt_length: "cbc_decrypt rk iv buf = Some (out, iv') \<Longrightarrow> length iv = 16 \<Longrightarrow> length out = length buf"
proof (induction "length buf" arbitrary: iv buf out rule: less_induct)
  case less
  show ?case
  proof (cases "buf = []")
    case True
    then show ?thesis using less.prems by (simp add: cbc_decrypt.simps)
  next
    case False
    with less.prems(1) have l: "16 \<le> length buf" by (subst (asm) cbc_decrypt.simps) (auto split: if_splits)
    then obtain o' where "cbc_decrypt rk (take 16 buf) (drop 16 buf) = Some (o', iv')"
      "out = XorWithIv (InvCipher (take 16 buf) rk) iv @ o'"
      using less.prems(1) False by (subst (asm) cbc_decrypt.simps) (auto simp: Let_def split: bind_splits)
    then show ?thesis using less.hyps [of "drop 16 buf" "take 16 buf" o'] l less.prems(2) by simp
  qed
qed

section \<open>Sizes and padding\<close>

lemma of_nat_diff_u64: "n \<le> k \<Longrightarrow> (of_nat k - of_nat n :: u64) = of_nat (k - n)"
  by (simp add: of_nat_diff)

lemma of_nat_mod_u64: "n < 2 ^ 64 \<Longrightarrow> k < 2 ^ 64 \<Longrightarrow> (of_nat n mod of_nat k :: u64) = of_nat (n mod k)"
  by (simp add: word_arith_nat_mod unat_of_nat_small)

lemma of_nat_less_u64: "n < 2 ^ 64 \<Longrightarrow> k < 2 ^ 64 \<Longrightarrow> (of_nat n < (of_nat k :: u64)) = (n < k)"
  by (simp add: word_less_nat_alt unat_of_nat_small)

lemma to_int_of_nat: "n < 2147483648 \<Longrightarrow> to_int (of_nat n) = int n"
proof -
  assume n: "n < 2147483648"
  have "(ucast (of_nat n :: u64) :: 32 word) = of_nat n"
    using n by (simp add: ucast_eq_of_nat unat_of_nat_small del: of_nat_unat)
  moreover have "uint (of_nat n :: 32 word) = int n"
    using unat_of_nat_small [where 'w = 32, of n] n unfolding uint_nat by simp
  then have "sint (of_nat n :: 32 word) = int n"
    using n by (simp add: sint_uint signed_take_bit_int_eq_self)
  ultimately show ?thesis by (simp add: to_int_def)
qed

text \<open>The padding length as a number, a byte and a size.\<close>

lemma pad_values:
  fixes n :: nat
  defines "p \<equiv> 16 - n mod 16"
  assumes "n < 2147483616"
  shows "(16 - of_nat n mod 16 :: u64) = of_nat p"
    and "unat (ucast (16 - of_nat n mod 16 :: u64) :: u8) = p"
    and "xylem_aes256_cbc_encrypt_size (of_nat n) = of_nat (16 + n + p)"
    and "1 \<le> p" "p \<le> 16" "16 dvd n + p"
proof -
  show p: "1 \<le> p" "p \<le> 16" using mod_less_divisor [of 16 n] by (auto simp: p_def)
  have "(of_nat n mod of_nat 16 :: u64) = of_nat (n mod 16)" using assms by (intro of_nat_mod_u64) simp_all
  then show e: "(16 - of_nat n mod 16 :: u64) = of_nat p"
    using of_nat_diff_u64 [of "n mod 16" 16] by (simp add: p_def)
  show "unat (ucast (16 - of_nat n mod 16 :: u64) :: u8) = p"
    unfolding e using p by (simp add: ucast_eq_of_nat unat_of_nat_small del: of_nat_unat)
  show "xylem_aes256_cbc_encrypt_size (of_nat n) = of_nat (16 + n + p)"
    by (simp add: xylem_aes256_cbc_encrypt_size_def Let_def e)
  have "n + p = 16 * (n div 16) + 16" 
    unfolding p_def using div_mult_mod_eq [of n 16] mod_less_divisor [of 16 n] by linarith
  then show "16 dvd n + p" by simp
qed



lemma cbc_decrypt_unpad:
  fixes p :: nat
  assumes d: "cbc_decrypt (KeyExpansion (key c)) iv ct = Some (src @ replicate p (of_nat p), iv')"
    and l: "length iv = 16" "length ct = length src + p" "16 dvd length ct" "1 \<le> p" "p \<le> 16" "length ct < 2147483632"
    and "of_nat (length ct) \<le> dlen"
  shows "\<exists>e. xylem_aes256_cbc_decrypt (Some c) (iv @ ct) True dlen =
    Some (int (length src), src @ replicate p (of_nat p), Some e)"
proof -
  define n where "n = length ct"
  define m where "m = src @ replicate p (of_nat p :: u8)"
  have n: "16 \<le> n" "n < 2147483632" "16 dvd n" "length m = n"
    using l by (auto simp: n_def m_def dest: dvd_imp_le)
  have c: "(of_nat (length (iv @ ct)) :: u64) - 16 = of_nat n" using l(1) by (simp add: n_def)
  have g1: "\<not> (of_nat (length (iv @ ct)) :: u64) < 16 + 16"
    using of_nat_less_u64 [of "length (iv @ ct)" 32] l(1) n n_def by simp
  have "(of_nat n mod of_nat 16 :: u64) = of_nat (n mod 16)" using n by (intro of_nat_mod_u64) simp_all
  then have g2: "(of_nat n mod 16 :: u64) = 0" using n(3) by simp
  have g3: "\<not> dlen < of_nat n" using assms(8) unfolding n_def by (simp only: not_less)
  have u: "unat (of_nat n :: u64) = n" using n by (intro unat_of_nat_small) simp
  have up: "unat (of_nat p :: u8) = p" using l(5) by (intro unat_of_nat_small) simp
  have last: "m ! (n - 1 - i) = of_nat p" if "i < p" for i
  proof -
    have "n - 1 - i = length src + (p - 1 - i)" "p - 1 - i < p" using that l(2) n_def by linarith+
    then show ?thesis by (simp add: m_def nth_append)
  qed
  have pad: "m ! (n - Suc 0) = of_nat p" using last [of 0] l(4) by simp
  have g4: "(of_nat p :: u8) \<noteq> 0" "\<not> 16 < (of_nat p :: u8)"
    using up l(4,5) by (auto simp: word_less_nat_alt dest: arg_cong [of _ _ unat])
  have g5: "\<not> list_ex (\<lambda>i. m ! (n - 1 - i) \<noteq> of_nat p) [0..<p]" using last by (auto simp: list_ex_iff)
  have "ucast (of_nat p :: u8) = (of_nat p :: u64)" using up by (simp add: ucast_eq_of_nat del: of_nat_unat)
  then have r: "to_int (of_nat n - ucast (of_nat p :: u8)) = int (length src)"
    using of_nat_diff_u64 [of p n] to_int_of_nat [of "length src"] l n n_def by simp
  show ?thesis
    unfolding xylem_aes256_cbc_decrypt_def Let_def option.case c
    using g1 g2 g3 g4 g5 d r l(1)
    by (simp add: AES_CBC_decrypt_buffer_def AES_init_ctx_iv_def m_def [symmetric] u up pad del: of_nat_add)
qed





lemma cbc_decrypt_some: "16 dvd length buf \<Longrightarrow> \<exists>out iv'. cbc_decrypt rk iv buf = Some (out, iv')"
proof (induction "length buf" arbitrary: iv buf rule: less_induct)
  case less
  show ?case
  proof (cases "buf = []")
    case True
    then show ?thesis by (simp add: cbc_decrypt.simps)
  next
    case False
    then have l: "16 \<le> length buf" using less.prems by (auto dest: dvd_imp_le)
    then have "16 dvd length (drop 16 buf)" using less.prems by (simp add: dvd_diff_nat)
    then obtain o' v where "cbc_decrypt rk (take 16 buf) (drop 16 buf) = Some (o', v)"
      using less.hyps [of "drop 16 buf" "take 16 buf"] l False by auto
    then show ?thesis using l False by (subst cbc_decrypt.simps) (simp add: Let_def)
  qed
qed

lemma not_list_ex_upt: "\<not> list_ex (\<lambda>i. f i \<noteq> b) [0..<k] \<Longrightarrow> i < k \<Longrightarrow> f i = b"
  by (auto simp: list_ex_iff)

lemma pkcs7_tail:
  assumes "length pt = n" "p \<le> n" "\<forall>i < p. pt ! (n - 1 - i) = b"
  shows "drop (n - p) pt = replicate p b"
proof (intro nth_equalityI)
  fix j
  assume "j < length (drop (n - p) pt)"
  then have j: "j < p" using assms(1,2) by simp
  then have "pt ! (n - 1 - (p - 1 - j)) = b" by (intro assms(3) [rule_format]) linarith
  moreover have "n - 1 - (p - 1 - j) = n - p + j" using j assms(2) by linarith
  ultimately show "drop (n - p) pt ! j = replicate p b ! j" using j assms(1,2) by simp
qed (use assms in simp)



end
