(* ===== verification/Bswap.thy ===== *)
theory Bswap
  imports Word_Bits
begin

text \<open>
  Byte order reversal, \<open>src/encoding/xylem-bswap.c\<close>. The signed and floating point variants
  convert to the unsigned type of the same width and back; on the bit pattern they are the
  unsigned functions, so signed values are words too and a float is its 32- or 64-bit pattern.
\<close>

definition xylem_bswap_u16 :: "u16 \<Rightarrow> u16" where
  "xylem_bswap_u16 val = push_bit 8 val OR drop_bit 8 val"

definition xylem_bswap_u32 :: "u32 \<Rightarrow> u32" where
  "xylem_bswap_u32 val =
     (push_bit 24 val AND 0xFF000000) OR (push_bit 8 val AND 0x00FF0000) OR
     (drop_bit 8 val AND 0x0000FF00) OR (drop_bit 24 val AND 0x000000FF)"

definition xylem_bswap_u64 :: "u64 \<Rightarrow> u64" where
  "xylem_bswap_u64 val =
     (push_bit 56 val AND 0xFF00000000000000) OR (push_bit 40 val AND 0x00FF000000000000) OR
     (push_bit 24 val AND 0x0000FF0000000000) OR (push_bit 8 val AND 0x000000FF00000000) OR
     (drop_bit 8 val AND 0x00000000FF000000) OR (drop_bit 24 val AND 0x0000000000FF0000) OR
     (drop_bit 40 val AND 0x000000000000FF00) OR (drop_bit 56 val AND 0x00000000000000FF)"

definition xylem_bswap_i16 :: "16 word \<Rightarrow> 16 word" where
  "xylem_bswap_i16 val = xylem_bswap_u16 val"

definition xylem_bswap_i32 :: "32 word \<Rightarrow> 32 word" where
  "xylem_bswap_i32 val = xylem_bswap_u32 val"

definition xylem_bswap_i64 :: "64 word \<Rightarrow> 64 word" where
  "xylem_bswap_i64 val = xylem_bswap_u64 val"

definition xylem_bswap_f32 :: "32 word \<Rightarrow> 32 word" where
  "xylem_bswap_f32 val = xylem_bswap_u32 val"

definition xylem_bswap_f64 :: "64 word \<Rightarrow> 64 word" where
  "xylem_bswap_f64 val = xylem_bswap_u64 val"

section \<open>Bytes in memory\<close>

text \<open>The bytes of a word as a little-endian machine stores them.\<close>

definition mem_bytes :: "'w::len word \<Rightarrow> u8 list" where
  "mem_bytes w = map (\<lambda>i. ucast (drop_bit (8 * i) w)) [0..<LENGTH('w) div 8]"

lemma mem_bytes_bit:
  "i < LENGTH('w) div 8 \<Longrightarrow> j < 8 \<Longrightarrow> bit (mem_bytes (w :: 'w::len word) ! i) j = bit w (8 * i + j)"
  by (auto simp: mem_bytes_def bit_ucast_iff bit_drop_bit_eq)

lemma less_8: "(n :: nat) < 8 \<Longrightarrow> n = 0 \<or> n = 1 \<or> n = 2 \<or> n = 3 \<or> n = 4 \<or> n = 5 \<or> n = 6 \<or> n = 7"
  by auto

lemmas bswap_bits = bit_or_iff bit_and_iff bit_push_bit_iff bit_drop_bit_eq

lemma bswap16_bit:
  "i < 2 \<Longrightarrow> j < 8 \<Longrightarrow> bit (xylem_bswap_u16 w) (8 * i + j) = bit w (8 * (1 - i) + j)"
proof -
  assume "i < 2" "j < 8"
  then have "i = 0 \<or> i = 1" by auto
  moreover have "\<not> bit w (16 + j)" using bit_imp_le_length [of w "16 + j"] by auto
  ultimately show ?thesis using \<open>j < 8\<close> by (auto simp: xylem_bswap_u16_def bswap_bits add.commute)
qed

lemma masks32:
  "(0xFF000000 :: u32) = push_bit 24 (mask 8)" "(0x00FF0000 :: u32) = push_bit 16 (mask 8)"
  "(0x0000FF00 :: u32) = push_bit 8 (mask 8)" "(0x000000FF :: u32) = mask 8"
  by (simp_all add: mask_eq_exp_minus_1)

lemma masks64:
  "(0xFF00000000000000 :: u64) = push_bit 56 (mask 8)" "(0x00FF000000000000 :: u64) = push_bit 48 (mask 8)"
  "(0x0000FF0000000000 :: u64) = push_bit 40 (mask 8)" "(0x000000FF00000000 :: u64) = push_bit 32 (mask 8)"
  "(0x00000000FF000000 :: u64) = push_bit 24 (mask 8)" "(0x0000000000FF0000 :: u64) = push_bit 16 (mask 8)"
  "(0x000000000000FF00 :: u64) = push_bit 8 (mask 8)" "(0x00000000000000FF :: u64) = mask 8"
  by (simp_all add: mask_eq_exp_minus_1)

lemma bswap32_bit:
  assumes "i < 4" "j < 8"
  shows "bit (xylem_bswap_u32 w) (8 * i + j) = bit w (8 * (3 - i) + j)"
proof -
  have "i = 0 \<or> i = 1 \<or> i = 2 \<or> i = 3" using assms(1) by auto
  then show ?thesis using assms(2) unfolding xylem_bswap_u32_def masks32
    by (elim disjE) (simp_all add: bswap_bits bit_mask_iff add.commute)
qed

lemma bswap64_bit:
  assumes "i < 8" "j < 8"
  shows "bit (xylem_bswap_u64 w) (8 * i + j) = bit w (8 * (7 - i) + j)"
  using less_8 [OF assms(1)] assms(2) unfolding xylem_bswap_u64_def masks64
  by (elim disjE) (simp_all add: bswap_bits bit_mask_iff add.commute)

lemma bytes_reversed:
  fixes v w :: "'w::len word"
  assumes "\<And>i j. i < LENGTH('w) div 8 \<Longrightarrow> j < 8 \<Longrightarrow> bit v (8 * i + j) = bit w (8 * (LENGTH('w) div 8 - 1 - i) + j)"
  shows "mem_bytes v = rev (mem_bytes w)"
proof (rule nth_equalityI)
  show "length (mem_bytes v) = length (rev (mem_bytes w))" by (simp add: mem_bytes_def)
  fix i
  assume "i < length (mem_bytes v)"
  then have i: "i < LENGTH('w) div 8" by (simp add: mem_bytes_def)
  have "bit (mem_bytes v ! i) j = bit (mem_bytes w ! (LENGTH('w) div 8 - 1 - i)) j" for j
  proof (cases "j < 8")
    case True
    then show ?thesis using i assms [of i j] by (simp add: mem_bytes_bit)
  next
    case False
    then show ?thesis using bit_imp_le_length [of "mem_bytes v ! i" j] bit_imp_le_length [of _ j, where 'a = 8] by auto
  qed
  then have "mem_bytes v ! i = mem_bytes w ! (LENGTH('w) div 8 - 1 - i)" by (rule bit_eqI)
  then show "mem_bytes v ! i = rev (mem_bytes w) ! i" using i by (simp add: rev_nth mem_bytes_def)
qed

lemma mem_bytes_inj:
  fixes v w :: "'w::len word"
  assumes "8 dvd LENGTH('w)" "mem_bytes v = mem_bytes w"
  shows "v = w"
proof (rule bit_word_eqI)
  fix n
  assume "n < LENGTH('w)"
  then have "n div 8 < LENGTH('w) div 8" using assms(1) by (auto elim!: dvdE simp: div_less_iff_less_mult mult.commute)
  then have "bit v (8 * (n div 8) + n mod 8) = bit w (8 * (n div 8) + n mod 8)"
    using mem_bytes_bit [of "n div 8" "n mod 8" v] mem_bytes_bit [of "n div 8" "n mod 8" w] assms(2) by simp
  then show "bit v n = bit w n" by simp
qed


end
