(* ===== verification/Ws_Frame.thy ===== *)
theory Ws_Frame
  imports Word_Bits
begin

text \<open>
  WebSocket frames, \<open>src/net/ws/ws-frame.c\<close>. Buffers are byte lists. A function with an output structure takes its
  contents before the call and returns the contents after it together with the \<open>int\<close> result, so
  the partial writes of failing calls are part of the model.
\<close>

section \<open>Frame headers\<close>

record ws_frame_header =
  fin :: bool
  rsv1 :: bool
  opcode :: u8
  masked :: bool
  payload_len :: u64
  mask_key :: "u8 list"
  header_size :: nat

definition ws_frame_is_reserved_opcode :: "u8 \<Rightarrow> bool" where
  "ws_frame_is_reserved_opcode op \<longleftrightarrow> (op \<ge> 0x3 \<and> op \<le> 0x7) \<or> (op \<ge> 0xB \<and> op \<le> 0xF)"

definition ws_frame_is_control :: "u8 \<Rightarrow> bool" where
  "ws_frame_is_control op \<longleftrightarrow> op \<ge> 0x8"

definition be16_at :: "u8 list \<Rightarrow> nat \<Rightarrow> u64" where
  "be16_at d i = push_bit 8 (ucast (d ! i)) OR ucast (d ! (i + 1))"

definition be64_at :: "u8 list \<Rightarrow> nat \<Rightarrow> u64" where
  "be64_at d i = push_bit 56 (ucast (d ! i)) OR push_bit 48 (ucast (d ! (i + 1))) OR
     push_bit 40 (ucast (d ! (i + 2))) OR push_bit 32 (ucast (d ! (i + 3))) OR
     push_bit 24 (ucast (d ! (i + 4))) OR push_bit 16 (ucast (d ! (i + 5))) OR
     push_bit 8 (ucast (d ! (i + 6))) OR ucast (d ! (i + 7))"

text \<open>The last steps of \<open>ws_frame_decode_header\<close>: the checks on control frames, and before them the
  mask key after \<open>hdr\<close> bytes of header.\<close>

definition ws_decode_control :: "nat \<Rightarrow> ws_frame_header \<Rightarrow> int \<times> ws_frame_header" where
  "ws_decode_control hdr out =
     (let out = out\<lparr>header_size := hdr\<rparr> in
      if ws_frame_is_control (opcode out) then
        if payload_len out > 125 then (-2, out)
        else if \<not> fin out then (-2, out)
        else (0, out)
      else (0, out))"

definition ws_decode_mask :: "u8 list \<Rightarrow> nat \<Rightarrow> ws_frame_header \<Rightarrow> int \<times> ws_frame_header" where
  "ws_decode_mask dat hdr out =
     (if masked out then
        let hdr = hdr + 4 in
        if length dat < hdr then (-1, out)
        else ws_decode_control hdr (out\<lparr>mask_key := take 4 (drop (hdr - 4) dat)\<rparr>)
      else ws_decode_control hdr (out\<lparr>mask_key := replicate 4 0\<rparr>))"

definition ws_frame_decode_header :: "u8 list \<Rightarrow> ws_frame_header \<Rightarrow> int \<times> ws_frame_header" where
  "ws_frame_decode_header dat out =
     (if length dat < 2 then (-1, out)
      else let b0 = dat ! 0; b1 = dat ! 1;
        out = out\<lparr>fin := (b0 AND 0x80 \<noteq> 0), rsv1 := (b0 AND 0x40 \<noteq> 0), opcode := b0 AND 0x0F,
                  masked := (b1 AND 0x80 \<noteq> 0)\<rparr> in
      if ws_frame_is_reserved_opcode (opcode out) then (-2, out)
      else let len7 = b1 AND 0x7F in
      if len7 \<le> 125 then ws_decode_mask dat 2 (out\<lparr>payload_len := ucast len7\<rparr>)
      else if len7 = 126 then
        if length dat < 4 then (-1, out)
        else ws_decode_mask dat 4 (out\<lparr>payload_len := be16_at dat 2\<rparr>)
      else
        if length dat < 10 then (-1, out)
        else ws_decode_mask dat 10 (out\<lparr>payload_len := be64_at dat 2\<rparr>))"

text \<open>The bytes written to \<open>buf\<close>; their number is what the function returns.\<close>

definition ws_frame_encode_header :: "bool \<Rightarrow> u8 \<Rightarrow> bool \<Rightarrow> u8 list \<Rightarrow> u64 \<Rightarrow> u8 list" where
  "ws_frame_encode_header f op msk mkey plen =
     (let mask_bit = (if msk then 0x80 else 0x00) in
      ((if f then 0x80 else 0x00) OR (op AND 0x0F)) #
      (if plen \<le> 125 then [mask_bit OR ucast plen]
       else if plen \<le> 65535 then [mask_bit OR 126, ucast (drop_bit 8 plen), ucast (plen AND 0xFF)]
       else [mask_bit OR 127, ucast (drop_bit 56 plen), ucast (drop_bit 48 plen), ucast (drop_bit 40 plen),
         ucast (drop_bit 32 plen), ucast (drop_bit 24 plen), ucast (drop_bit 16 plen), ucast (drop_bit 8 plen), ucast plen]) @
      (if msk then take 4 mkey else []))"

definition ws_frame_apply_mask :: "u8 list \<Rightarrow> u8 list \<Rightarrow> u64 \<Rightarrow> u8 list" where
  "ws_frame_apply_mask dat mkey offset =
     map (\<lambda>i. dat ! i XOR mkey ! unat ((offset + of_nat i) AND 3)) [0..<length dat]"

section \<open>Close frames\<close>

definition ws_frame_close_validate_send :: "u16 \<Rightarrow> int" where
  "ws_frame_close_validate_send code =
     (if code \<ge> 1000 \<and> code \<le> 1003 then 0
      else if code \<ge> 1007 \<and> code \<le> 1011 then 0
      else if code \<ge> 3000 \<and> code \<le> 4999 then 0
      else -1)"

definition ws_frame_close_validate_recv :: "u16 \<Rightarrow> int" where
  "ws_frame_close_validate_recv code =
     (if code \<le> 999 then -1
      else if code \<ge> 1004 \<and> code \<le> 1006 then -1
      else if code = 1015 then -1
      else if code \<ge> 1016 \<and> code \<le> 2999 then -1
      else 0)"

text \<open>The first \<open>needed\<close> bytes of \<open>out\<close> afterwards, given \<open>out\<close> before; \<open>reason\<close> is \<open>None\<close> for a null
  pointer.\<close>

definition ws_frame_close_encode :: "u16 \<Rightarrow> u8 list option \<Rightarrow> nat \<Rightarrow> u8 list \<Rightarrow> int \<times> u8 list" where
  "ws_frame_close_encode code reason reason_len out =
     (if reason_len > 123 then (-1, out)
      else let needed = 2 + reason_len in
      if length out < needed then (-1, out)
      else let out = [ucast (drop_bit 8 code), ucast (code AND 0xFF)] @ drop 2 out in
        case reason of
          Some r \<Rightarrow> if reason_len > 0 then (int needed, take 2 out @ take reason_len r @ drop needed out)
                    else (int needed, out)
        | None \<Rightarrow> (int needed, out))"

text \<open>Result, code and reason; \<open>None\<close> for a reason that is a null pointer.\<close>

definition ws_frame_close_decode :: "u8 list \<Rightarrow> u16 \<Rightarrow> u8 list option \<Rightarrow> int \<times> u16 \<times> u8 list option" where
  "ws_frame_close_decode dat code reason =
     (if length dat = 0 then (0, 1005, None)
      else if length dat = 1 then (-1, code, reason)
      else let code = push_bit 8 (ucast (dat ! 0)) OR ucast (dat ! 1);
        reason = (if length dat > 2 then Some (drop 2 dat) else None) in
      if ws_frame_close_validate_recv code \<noteq> 0 then (-2, code, reason) else (0, code, reason))"

section \<open>Headers\<close>

lemma first_byte:
  "op < 16 \<longrightarrow> (((if f then 0x80 else 0x00) OR (op AND 0x0F)) AND 0x80 = (0 :: u8) \<longleftrightarrow> \<not> f) \<and>
    ((if f then 0x80 else 0x00) OR (op AND 0x0F)) AND 0x40 = (0 :: u8) \<and>
    ((if f then 0x80 else 0x00) OR (op AND 0x0F)) AND 0x0F = (op :: u8)"
  by (rule u8_exhaust_int, cases f) (simp_all add: upto_rec1)

lemma second_byte:
  "x < 128 \<longrightarrow> (((if m then 0x80 else 0x00) OR x) AND 0x80 = (0 :: u8) \<longleftrightarrow> \<not> m) \<and>
    ((if m then 0x80 else 0x00) OR x) AND 0x7F = (x :: u8)"
  by (rule u8_exhaust_int, cases m) (simp_all add: upto_rec1)

lemma small_len: "plen \<le> 125 \<Longrightarrow> (ucast plen :: u8) \<le> 125 \<and> ucast (ucast plen :: u8) = (plen :: u64)"
proof -
  assume "plen \<le> 125"
  then have n: "unat plen \<le> 125" by (simp add: word_le_nat_alt)
  then have "unat (ucast plen :: u8) = unat plen"
    unfolding ucast_eq_of_nat by (intro unat_of_nat_small) simp
  then show ?thesis using n by (simp add: word_le_nat_alt word_unat_eq_iff ucast_eq_of_nat unat_of_nat_small del: of_nat_unat)
qed

lemma be16_join:
  assumes "plen \<le> 65535"
  shows "push_bit 8 (ucast (ucast (drop_bit 8 plen) :: u8)) OR ucast (ucast (plen AND 0xFF) :: u8) = (plen :: u64)" (is "?l = _")
proof (rule bit_word_eqI)
  fix n
  have "unat plen < 2 ^ 16" using assms by (simp add: word_le_nat_alt)
  then have "bit plen n \<Longrightarrow> n < 16" by (rule bit_lt)
  moreover have "(plen AND 0xFF) = take_bit 8 plen" by (simp add: take_bit_eq_mask mask_eq_exp_minus_1)
  ultimately show "bit ?l n = bit plen n"
    by (auto simp: bit_or_iff bit_byte_at bit_byte_low bit_take_bit_iff)
qed

lemma decode_mask_encode:
  assumes "length mkey = 4" "length ph = h" "masked out = m" "(\<not> m \<longrightarrow> mkey = replicate 4 0)"
    and "ws_frame_is_control (opcode out) \<Longrightarrow> payload_len out \<le> 125 \<and> fin out"
  shows "ws_decode_mask (ph @ (if m then mkey else []) @ rest) h out =
    (0, out\<lparr>mask_key := mkey, header_size := h + (if m then 4 else 0)\<rparr>)"
  using assms by (auto simp: ws_decode_mask_def ws_decode_control_def Let_def not_less)



section \<open>Masks and close frames\<close>

lemma and_3_mod: "unat ((w :: u64) AND 3) = unat w mod 4"
  using unat_and_mask [of w 2] by (simp add: mask_eq_exp_minus_1)

lemma length_apply_mask [simp]: "length (ws_frame_apply_mask dat k off) = length dat"
  by (simp add: ws_frame_apply_mask_def)


text \<open>C37. Close frames: a code that may be sent is accepted on receipt, and the payload that is encoded for it
  decodes to the same code and reason, within the 125 bytes of a control frame.\<close>

theorem ws_close_roundtrip:
  assumes "ws_frame_close_validate_send code = 0" "length r \<le> 123" "length out = 125"
  shows "\<exists>out'. ws_frame_close_encode code (Some r) (length r) out = (int (2 + length r), out') \<and>
    length out' = 125 \<and>
    ws_frame_close_decode (take (2 + length r) out') c0 r0 = (0, code, if r = [] then None else Some r)"
proof -
  have v: "ws_frame_close_validate_recv code = 0"
    using assms(1) by (auto simp: ws_frame_close_validate_send_def ws_frame_close_validate_recv_def word_le_nat_alt
        word_unat_eq_iff split: if_splits)
  define h where "h = [ucast (drop_bit 8 code), ucast (code AND 0xFF) :: u8]"
  have "(code AND 0xFF) = take_bit 8 code" by (simp add: take_bit_eq_mask mask_eq_exp_minus_1)
  then have "(ucast (code AND 0xFF) :: u8) = ucast code"
    by (simp only:) (rule bit_word_eqI, simp add: bit_ucast_iff bit_take_bit_iff)
  then have j: "push_bit 8 (ucast (h ! 0)) OR ucast (h ! 1) = code" using be_join16 [of code] by (simp add: h_def)
  have "ws_frame_close_encode code (Some r) (length r) out = (int (2 + length r), h @ r @ drop (2 + length r) out)"
    using assms(2,3) by (cases r) (auto simp: ws_frame_close_encode_def h_def Let_def)
  moreover have "take (2 + length r) (h @ r @ drop (2 + length r) out) = h @ r" by (simp add: h_def)
  moreover have "ws_frame_close_decode (h @ r) c0 r0 = (0, code, if r = [] then None else Some r)"
    using v j by (auto simp: ws_frame_close_decode_def h_def Let_def)
  ultimately show ?thesis using assms(2,3) by (simp add: h_def)
qed

theorem ws_close_roundtrip_witness:
  "\<exists>out'. ws_frame_close_encode 1000 (Some [111, 107]) 2 (replicate 125 0) = (4, out') \<and>
    length out' = 125 \<and> ws_frame_close_decode (take 4 out') 0 None = (0, 1000, Some [111, 107])"
proof -
  have "ws_frame_close_validate_send 1000 = 0" by (simp add: ws_frame_close_validate_send_def)
  from ws_close_roundtrip [OF this, of "[111, 107]" "replicate 125 0" 0 None] show ?thesis
    by (simp add: numeral_eq_Suc)
qed

end
