(* ===== verification/Ws_Utf8.thy ===== *)
theory Ws_Utf8
  imports Word_Bits
begin

text \<open>
  The UTF-8 validator for WebSocket text messages, \<open>src/net/ws/ws-utf8.c\<close>, and the theorem that it
  accepts exactly the encodings of sequences of Unicode scalar values: no overlong forms, no
  surrogates, nothing above U+10FFFF, nothing truncated.
\<close>

section \<open>The validator\<close>

text \<open>The loop of \<open>ws_utf8_validate\<close> on the bytes from position \<open>i\<close> on.\<close>

function utf8_loop :: "u8 list \<Rightarrow> int" where
  "utf8_loop [] = 0"
| "utf8_loop (b # dat) =
     (if b \<le> 0x7F then utf8_loop (dropWhile (\<lambda>c. c \<le> 0x7F) dat)
      else if b AND 0xE0 = 0xC0 then
        if b < 0xC2 then -1
        else case dat of b1 # dat' \<Rightarrow> if b1 AND 0xC0 \<noteq> 0x80 then -1 else utf8_loop dat' | _ \<Rightarrow> -1
      else if b AND 0xF0 = 0xE0 then
        case dat of b1 # b2 # dat' \<Rightarrow>
          if b1 AND 0xC0 \<noteq> 0x80 \<or> b2 AND 0xC0 \<noteq> 0x80 then -1
          else if b = 0xE0 \<and> b1 < 0xA0 then -1
          else if b = 0xED \<and> b1 \<ge> 0xA0 then -1
          else utf8_loop dat'
        | _ \<Rightarrow> -1
      else if b AND 0xF8 = 0xF0 then
        if b > 0xF4 then -1
        else case dat of b1 # b2 # b3 # dat' \<Rightarrow>
          if b1 AND 0xC0 \<noteq> 0x80 \<or> b2 AND 0xC0 \<noteq> 0x80 \<or> b3 AND 0xC0 \<noteq> 0x80 then -1
          else if b = 0xF0 \<and> b1 < 0x90 then -1
          else if b = 0xF4 \<and> b1 > 0x8F then -1
          else utf8_loop dat'
        | _ \<Rightarrow> -1
      else -1)"
  by pat_completeness auto
termination by (relation "measure length") (auto simp: le_imp_less_Suc length_dropWhile_le)

definition ws_utf8_validate :: "u8 list \<Rightarrow> int" where
  "ws_utf8_validate dat = utf8_loop dat"

section \<open>The reference\<close>

text \<open>Unicode scalar values and their encoding.\<close>

definition scalar_value :: "nat \<Rightarrow> bool" where
  "scalar_value c \<longleftrightarrow> c < 0xD800 \<or> 0xE000 \<le> c \<and> c < 0x110000"

definition utf8_encode :: "nat \<Rightarrow> u8 list" where
  "utf8_encode c = map of_nat
     (if c < 0x80 then [c]
      else if c < 0x800 then [0xC0 + c div 64, 0x80 + c mod 64]
      else if c < 0x10000 then [0xE0 + c div 4096, 0x80 + c div 64 mod 64, 0x80 + c mod 64]
      else [0xF0 + c div 262144, 0x80 + c div 4096 mod 64, 0x80 + c div 64 mod 64, 0x80 + c mod 64])"

section \<open>Bytes\<close>

text \<open>One character at the front, by the numeric ranges of its bytes.\<close>

definition utf8_char :: "nat list \<Rightarrow> bool" where
  "utf8_char ns = (case ns of
     [a] \<Rightarrow> a < 0x80
   | [a, b] \<Rightarrow> 0xC2 \<le> a \<and> a < 0xE0 \<and> 0x80 \<le> b \<and> b < 0xC0
   | [a, b, c] \<Rightarrow> 0xE0 \<le> a \<and> a < 0xF0 \<and> 0x80 \<le> b \<and> b < 0xC0 \<and> 0x80 \<le> c \<and> c < 0xC0 \<and>
       (a = 0xE0 \<longrightarrow> 0xA0 \<le> b) \<and> (a = 0xED \<longrightarrow> b < 0xA0)
   | [a, b, c, d] \<Rightarrow> 0xF0 \<le> a \<and> a \<le> 0xF4 \<and> 0x80 \<le> b \<and> b < 0xC0 \<and> 0x80 \<le> c \<and> c < 0xC0 \<and>
       0x80 \<le> d \<and> d < 0xC0 \<and> (a = 0xF0 \<longrightarrow> 0x90 \<le> b) \<and> (a = 0xF4 \<longrightarrow> b < 0x90)
   | _ \<Rightarrow> False)"

section \<open>Correctness\<close>

lemma lead_bytes:
  "(b AND 0xE0 :: u8) = 0xC0 \<longleftrightarrow> 0xC0 \<le> unat b \<and> unat b < 0xE0"
  "(b AND 0xF0 :: u8) = 0xE0 \<longleftrightarrow> 0xE0 \<le> unat b \<and> unat b < 0xF0"
  "(b AND 0xF8 :: u8) = 0xF0 \<longleftrightarrow> 0xF0 \<le> unat b \<and> unat b < 0xF8"
  "(b AND 0xC0 :: u8) = 0x80 \<longleftrightarrow> 0x80 \<le> unat b \<and> unat b < 0xC0"
  by (rule u8_exhaust_int, simp add: upto_rec1)+

lemma byte_order:
  "b \<le> 0x7F \<longleftrightarrow> unat (b :: u8) < 0x80" "b < 0xC2 \<longleftrightarrow> unat b < 0xC2" "b < 0xA0 \<longleftrightarrow> unat b < 0xA0"
  "b \<ge> 0xA0 \<longleftrightarrow> 0xA0 \<le> unat b" "b > 0xF4 \<longleftrightarrow> 0xF4 < unat b" "b < 0x90 \<longleftrightarrow> unat b < 0x90"
  "b > 0x8F \<longleftrightarrow> 0x8F < unat b"
  by (auto simp: word_le_nat_alt word_less_nat_alt)

lemma byte_eq:
  "unat (b :: u8) = 0xE0 \<longleftrightarrow> b = 0xE0" "unat b = 0xED \<longleftrightarrow> b = 0xED" "unat b = 0xF0 \<longleftrightarrow> b = 0xF0" "unat b = 0xF4 \<longleftrightarrow> b = 0xF4"
  by (auto simp: word_unat_eq_iff)

lemmas byte_ranges = lead_bytes byte_order

lemma utf8_loop_skip: "utf8_loop (dropWhile (\<lambda>c. unat c < 0x80) xs) = utf8_loop xs"
  unfolding byte_order(1) [symmetric] by (cases xs) simp_all

lemma if_err: "(if c then -1 else x) = (0 :: int) \<longleftrightarrow> \<not> c \<and> x = 0"
  by simp

lemma utf8_loop_char:
  assumes "utf8_char (map unat bs)"
  shows "utf8_loop (bs @ dat) = utf8_loop dat"
proof -
  consider a where "bs = [a]" | a b where "bs = [a, b]" | a b c where "bs = [a, b, c]"
    | a b c d where "bs = [a, b, c, d]"
    using assms by (auto simp: utf8_char_def map_eq_Cons_conv split: list.splits)
  then show ?thesis
  proof cases
    case (1 a)
    then show ?thesis using assms by (simp add: utf8_char_def byte_ranges utf8_loop_skip)
  next
    case (2 a b)
    then show ?thesis using assms by (simp add: utf8_char_def byte_ranges)
  next
    case (3 a b c)
    then have "\<not> (a = 0xE0 \<and> unat b < 0xA0)" "\<not> (a = 0xED \<and> 0xA0 \<le> unat b)"
      using assms by (auto simp: utf8_char_def)
    then show ?thesis using assms 3 by (simp add: utf8_char_def byte_ranges) blast
  next
    case (4 a b c d)
    then have "\<not> (a = 0xF0 \<and> unat b < 0x90)" "\<not> (a = 0xF4 \<and> 0x8F < unat b)"
      using assms by (auto simp: utf8_char_def)
    then show ?thesis using assms 4 by (simp add: utf8_char_def byte_ranges) blast
  qed
qed

lemma utf8_loop_split:
  assumes "utf8_loop dat = 0" "dat \<noteq> []"
  shows "\<exists>bs rest. dat = bs @ rest \<and> utf8_char (map unat bs) \<and> utf8_loop rest = 0"
proof -
  obtain b d where d: "dat = b # d" using assms(2) by (cases dat) auto
  have l: "utf8_loop (b # d) = 0" using assms(1) d by simp
  consider "unat b < 0x80" | "0xC2 \<le> unat b" "unat b < 0xE0" | "0xE0 \<le> unat b" "unat b < 0xF0"
    | "0xF0 \<le> unat b" "unat b \<le> 0xF4"
    using l by (auto simp: byte_ranges not_less split: if_splits)
  then show ?thesis
  proof cases
    case 1
    then show ?thesis using l d by (intro exI [of _ "[b]"] exI [of _ d]) (simp add: byte_ranges utf8_loop_skip utf8_char_def)
  next
    case 2
    then obtain b1 r where r: "d = b1 # r" using l by (cases d) (simp_all add: byte_ranges)
    have "utf8_loop r = 0" "0x80 \<le> unat b1" "unat b1 < 0xC0" using l 2 unfolding r by (simp_all add: byte_ranges if_err)
    then show ?thesis using 2 d r by (intro exI [of _ "[b, b1]"] exI [of _ r]) (simp add: utf8_char_def byte_eq)
  next
    case 3
    have "d \<noteq> []" "\<And>x. d \<noteq> [x]" using l 3 by (auto simp: byte_ranges)
    then obtain b1 b2 r where r: "d = b1 # b2 # r" by (metis list.exhaust)
    have "\<not> (b1 AND 0xC0 \<noteq> 0x80 \<or> b2 AND 0xC0 \<noteq> 0x80) \<and> \<not> (b = 0xE0 \<and> b1 < 0xA0) \<and>
        \<not> (b = 0xED \<and> b1 \<ge> 0xA0) \<and> utf8_loop r = 0"
      using l 3 unfolding r by (simp only: utf8_loop.simps list.case byte_ranges(1-3,5) if_err) (auto simp: if_err)
    then show ?thesis using 3 d r by (intro exI [of _ "[b, b1, b2]"] exI [of _ r]) (auto simp: utf8_char_def byte_eq byte_ranges)
  next
    case 4
    have "d \<noteq> []" "\<And>x. d \<noteq> [x]" "\<And>x y. d \<noteq> [x, y]" using l 4 by (auto simp: byte_ranges)
    then obtain b1 b2 b3 r where r: "d = b1 # b2 # b3 # r" by (metis list.exhaust)
    have "\<not> (b1 AND 0xC0 \<noteq> 0x80 \<or> b2 AND 0xC0 \<noteq> 0x80 \<or> b3 AND 0xC0 \<noteq> 0x80) \<and>
        \<not> (b = 0xF0 \<and> b1 < 0x90) \<and> \<not> (b = 0xF4 \<and> b1 > 0x8F) \<and> utf8_loop r = 0"
      using l 4 unfolding r by (simp only: utf8_loop.simps list.case byte_ranges(1-3,5,9) if_err) (auto simp: if_err)
    then show ?thesis using 4 d r by (intro exI [of _ "[b, b1, b2, b3]"] exI [of _ r]) (auto simp: utf8_char_def byte_eq byte_ranges)
  qed
qed

section \<open>Characters and scalar values\<close>

lemma radix3:
  fixes x y z :: nat
  assumes "y < 64" "z < 64" "c = x * 4096 + y * 64 + z"
  shows "c div 4096 = x" "c div 64 mod 64 = y" "c mod 64 = z"
proof -
  show "c div 4096 = x" using assms by (intro div_nat_eqI) auto
  have "c div 64 = x * 64 + y" using assms by (intro div_nat_eqI) auto
  then show "c div 64 mod 64 = y" using assms(1) by (simp only: mod_mult_self3 mod_less)
  have "c = (x * 64 + y) * 64 + z" using assms(3) by simp
  then show "c mod 64 = z" using assms(2) by (simp only: mod_mult_self3 mod_less)
qed

lemma split3: "c = c div 4096 * 4096 + c div 64 mod 64 * 64 + c mod (64 :: nat)"
proof -
  have "c div 64 = c div 4096 * 64 + c div 64 mod 64"
    using div_mult_mod_eq [of "c div 64" 64] by (simp add: div_mult2_eq [symmetric])
  then show ?thesis using div_mult_mod_eq [of c 64] by linarith
qed

lemma split4: "c div 4096 = c div 262144 * 64 + c div 4096 mod (64 :: nat)"
  using div_mult_mod_eq [of "c div 4096" 64] by (simp add: div_mult2_eq [symmetric])

lemma map_unat_small: "\<forall>n \<in> set ns. n < 256 \<Longrightarrow> map unat (map of_nat ns :: u8 list) = ns"
  by (induction ns) (simp_all add: unat_of_nat_small)

lemma utf8_encode_char:
  assumes "scalar_value c"
  shows "utf8_char (map unat (utf8_encode c))"
proof -
  define x y z where "x = c div 4096" and "y = c div 64 mod 64" and "z = c mod 64"
  have c: "c = x * 4096 + y * 64 + z" "y < 64" "z < 64" using split3 [of c] by (simp_all add: x_def y_def z_def)
  consider "c < 0x80" | "0x80 \<le> c" "c < 0x800" | "0x800 \<le> c" "c < 0x10000" | "0x10000 \<le> c" by linarith
  then show ?thesis
  proof cases
    case 1
    then show ?thesis by (simp add: utf8_encode_def utf8_char_def unat_of_nat_small)
  next
    case 2
    then have "c div 64 < 32" "2 \<le> c div 64" by (simp_all add: div_less_iff_less_mult div_le_mono [of 128 c 64, simplified])
    then have "map unat (utf8_encode c) = [0xC0 + c div 64, 0x80 + z]"
      using 2 c(3) unfolding utf8_encode_def z_def by (subst map_unat_small) auto
    then show ?thesis using \<open>c div 64 < 32\<close> \<open>2 \<le> c div 64\<close> c(3) by (simp add: utf8_char_def)
  next
    case 3
    then have "x < 16" by (simp add: x_def div_less_iff_less_mult)
    then have "map unat (utf8_encode c) = [0xE0 + x, 0x80 + y, 0x80 + z]"
      using 3 c unfolding utf8_encode_def x_def y_def z_def by (subst map_unat_small) auto
    moreover have "x = 0 \<longrightarrow> 0x20 \<le> y" "x = 13 \<longrightarrow> y < 0x20" using 3 c assms by (auto simp: scalar_value_def)
    ultimately show ?thesis using \<open>x < 16\<close> c by (simp add: utf8_char_def)
  next
    case 4
    define v w where "v = c div 262144" and "w = c div 4096 mod 64"
    have x: "x = v * 64 + w" "w < 64" using split4 [of c] by (simp_all add: x_def v_def w_def)
    have v: "v \<le> 4" "v = 0 \<longrightarrow> 0x10 \<le> w" "v = 4 \<longrightarrow> w < 0x10" using assms 4 c x by (auto simp: scalar_value_def)
    have "utf8_encode c = map of_nat [0xF0 + v, 0x80 + w, 0x80 + y, 0x80 + z]"
      using 4 unfolding utf8_encode_def v_def w_def y_def z_def by simp
    then have "map unat (utf8_encode c) = [0xF0 + v, 0x80 + w, 0x80 + y, 0x80 + z]"
      using v(1) c(2,3) x(2) by (simp only:) (subst map_unat_small, simp_all)
    then show ?thesis using v c x by (simp add: utf8_char_def)
  qed
qed

lemma utf8_char_encode:
  assumes "utf8_char (map unat bs)"
  shows "\<exists>c. scalar_value c \<and> bs = utf8_encode c"
proof -
  have rt: "of_nat (unat b) = b" for b :: u8 by simp
  consider a where "bs = [a]" | a b where "bs = [a, b]" | a b d where "bs = [a, b, d]"
    | a b d e where "bs = [a, b, d, e]"
    using assms by (auto simp: utf8_char_def map_eq_Cons_conv split: list.splits)
  then show ?thesis
  proof cases
    case (1 a)
    then show ?thesis using assms
      by (intro exI [of _ "unat a"]) (simp add: utf8_char_def scalar_value_def utf8_encode_def)
  next
    case (2 a b)
    define x z where "x = unat a - 0xC0" and "z = unat b - 0x80"
    have n: "2 \<le> x" "x < 32" "z < 64" "unat a = 0xC0 + x" "unat b = 0x80 + z"
      using assms 2 by (auto simp: utf8_char_def x_def z_def)
    define c where "c = x * 64 + z"
    have "c div 64 = x" "c mod 64 = z" using n(3) by (simp_all add: c_def)
    moreover have "0x80 \<le> c" "c < 0x800" using n by (simp_all add: c_def)
    ultimately have "utf8_encode c = map of_nat [unat a, unat b]" unfolding n(4,5) by (simp add: utf8_encode_def)
    then show ?thesis using 2 \<open>c < 0x800\<close> by (intro exI [of _ c]) (simp add: scalar_value_def)
  next
    case (3 a b d)
    define x y z where "x = unat a - 0xE0" and "y = unat b - 0x80" and "z = unat d - 0x80"
    have n: "x < 16" "y < 64" "z < 64" "x = 0 \<longrightarrow> 0x20 \<le> y" "x = 13 \<longrightarrow> y < 0x20"
      "unat a = 0xE0 + x" "unat b = 0x80 + y" "unat d = 0x80 + z"
      using assms 3 by (auto simp: utf8_char_def x_def y_def z_def)
    define c where "c = x * 4096 + y * 64 + z"
    have c: "0x800 \<le> c" "c < 0x10000" using n(1-4) by (auto simp: c_def)
    have "c < 0xD800 \<or> 0xE000 \<le> c" using n(2,3,5) unfolding c_def by (cases "x = 13"; cases "x < 13") auto
    then have "scalar_value c" using c by (simp add: scalar_value_def)
    moreover have "utf8_encode c = map of_nat [unat a, unat b, unat d]"
      unfolding n(6-8) using radix3 [OF n(2,3) c_def] c by (simp add: utf8_encode_def)
    ultimately show ?thesis using 3 by (intro exI [of _ c]) simp
  next
    case (4 a b d e)
    define v w y z where "v = unat a - 0xF0" and "w = unat b - 0x80" and "y = unat d - 0x80" and "z = unat e - 0x80"
    have n: "v \<le> 4" "w < 64" "y < 64" "z < 64" "v = 0 \<longrightarrow> 0x10 \<le> w" "v = 4 \<longrightarrow> w < 0x10"
      "unat a = 0xF0 + v" "unat b = 0x80 + w" "unat d = 0x80 + y" "unat e = 0x80 + z"
      using assms 4 by (auto simp: utf8_char_def v_def w_def y_def z_def)
    define c where "c = (v * 64 + w) * 4096 + y * 64 + z"
    have c: "0x10000 \<le> c" "c < 0x110000" using n(1-6) by (auto simp: c_def)
    note r = radix3 [OF n(3,4) c_def]
    have "c div 262144 = v" "c div 4096 mod 64 = w" using r(1) n(2) split4 [of c] by auto
    then have "utf8_encode c = map of_nat [unat a, unat b, unat d, unat e]"
      unfolding n(7-10) using r c by (simp add: utf8_encode_def)
    then show ?thesis using 4 c by (intro exI [of _ c]) (simp add: scalar_value_def)
  qed
qed

lemma utf8_loop_encode:
  "\<forall>c \<in> set cs. scalar_value c \<Longrightarrow> utf8_loop (concat (map utf8_encode cs)) = 0"
  by (induction cs) (simp_all add: utf8_loop_char utf8_encode_char)

lemma utf8_loop_decode:
  "utf8_loop dat = 0 \<Longrightarrow> \<exists>cs. (\<forall>c \<in> set cs. scalar_value c) \<and> dat = concat (map utf8_encode cs)"
proof (induction "length dat" arbitrary: dat rule: less_induct)
  case less
  show ?case
  proof (cases "dat = []")
    case True
    then show ?thesis by (intro exI [of _ "[]"]) simp
  next
    case False
    then obtain bs rest where s: "dat = bs @ rest" "utf8_char (map unat bs)" "utf8_loop rest = 0"
      using utf8_loop_split less.prems by blast
    then have "length rest < length dat" by (cases bs) (simp_all add: utf8_char_def)
    then obtain cs where "\<forall>c \<in> set cs. scalar_value c" "rest = concat (map utf8_encode cs)"
      using less.hyps s(3) by blast
    moreover obtain c where "scalar_value c" "bs = utf8_encode c" using utf8_char_encode s(2) by blast
    ultimately show ?thesis using s(1) by (intro exI [of _ "c # cs"]) simp
  qed
qed

text \<open>C34. The validator accepts exactly well-formed UTF-8: a byte sequence is accepted if and only if it is the
  encoding of a sequence of Unicode scalar values. Overlong forms, surrogates, values above
  U+10FFFF, stray continuation bytes and truncated characters are refused.\<close>

theorem ws_utf8_validate_exact:
  "(ws_utf8_validate dat = 0) = (\<exists>cs. list_all scalar_value cs \<and> dat = concat (map utf8_encode cs))"
  using utf8_loop_encode utf8_loop_decode unfolding ws_utf8_validate_def list_all_iff by blast

end
