(* ===== verification/Mux_Stream.thy ===== *)
theory Mux_Stream
  imports Word_Bits
begin

text \<open>
  Frames and streams of the multiplexer: \<open>src/net/mux/mux-frame.c\<close>, \<open>src/net/mux/mux-stream.c\<close>, and the
  parts of \<open>src/net/mux/xylem-mux.c\<close> that work on one stream under its spin lock. The bytes of
  \<open>recv_buf\<close> below \<open>recv_len\<close> are a list. A function that wakes a parked coroutine returns it, \<open>NULL\<close>
  for none. The result of an allocation is a boolean argument.
\<close>

section \<open>Frames\<close>

record mux_frame_hdr =
  version :: u8
  hdr_type :: u8
  flags :: u16
  stream_id :: u32
  hdr_length :: u32

definition MUX_TYPE_DATA :: u8 where "MUX_TYPE_DATA = 0"
definition MUX_TYPE_WINDOW_UPDATE :: u8 where "MUX_TYPE_WINDOW_UPDATE = 1"
definition MUX_TYPE_PING :: u8 where "MUX_TYPE_PING = 2"
definition MUX_TYPE_GO_AWAY :: u8 where "MUX_TYPE_GO_AWAY = 3"

definition MUX_FLAG_SYN :: u16 where "MUX_FLAG_SYN = 0x0001"
definition MUX_FLAG_ACK :: u16 where "MUX_FLAG_ACK = 0x0002"
definition MUX_FLAG_FIN :: u16 where "MUX_FLAG_FIN = 0x0004"
definition MUX_FLAG_RST :: u16 where "MUX_FLAG_RST = 0x0008"

definition mux_frame_encode :: "mux_frame_hdr \<Rightarrow> u8 list" where
  "mux_frame_encode hdr =
    [version hdr, hdr_type hdr, ucast (drop_bit 8 (flags hdr)), ucast (flags hdr),
     ucast (drop_bit 24 (stream_id hdr)), ucast (drop_bit 16 (stream_id hdr)),
     ucast (drop_bit 8 (stream_id hdr)), ucast (stream_id hdr),
     ucast (drop_bit 24 (hdr_length hdr)), ucast (drop_bit 16 (hdr_length hdr)),
     ucast (drop_bit 8 (hdr_length hdr)), ucast (hdr_length hdr)]"

definition mux_frame_decode :: "u8 list \<Rightarrow> mux_frame_hdr" where
  "mux_frame_decode buf =
     \<lparr>version = buf ! 0, hdr_type = buf ! 1, flags = push_bit 8 (ucast (buf ! 2)) OR ucast (buf ! 3),
      stream_id = push_bit 24 (ucast (buf ! 4)) OR push_bit 16 (ucast (buf ! 5)) OR
        push_bit 8 (ucast (buf ! 6)) OR ucast (buf ! 7),
      hdr_length = push_bit 24 (ucast (buf ! 8)) OR push_bit 16 (ucast (buf ! 9)) OR
        push_bit 8 (ucast (buf ! 10)) OR ucast (buf ! 11)\<rparr>"

section \<open>Streams\<close>

datatype mux_stream_state = MUX_STREAM_INIT | MUX_STREAM_SYN_SENT | MUX_STREAM_ESTABLISHED
  | MUX_STREAM_LOCAL_CLOSE | MUX_STREAM_REMOTE_CLOSE | MUX_STREAM_CLOSED

record mux_stream =
  id :: u32
  state :: mux_stream_state
  recv_buf :: "u8 list"
  recv_cap :: u64
  recv_window :: u32
  recv_waiter :: ptr
  send_window :: u32
  send_waiter :: ptr
  rd_deadline :: u64
  wr_deadline :: u64
  closed :: bool
  refcnt :: "32 word"

definition mux_stream_create :: "bool \<Rightarrow> bool \<Rightarrow> u32 \<Rightarrow> u32 \<Rightarrow> mux_stream option" where
  "mux_stream_create alloc alloc_buf i window =
     (if \<not> alloc then None
      else if \<not> alloc_buf then None
      else Some \<lparr>id = i, state = MUX_STREAM_INIT, recv_buf = [], recv_cap = ucast window, recv_window = window,
        recv_waiter = NULL, send_window = window, send_waiter = NULL, rd_deadline = 0, wr_deadline = 0,
        closed = False, refcnt = 1\<rparr>)"

definition mux_stream_ref :: "mux_stream mem \<Rightarrow> ptr \<Rightarrow> mux_stream mem option" where
  "mux_stream_ref m s = modify m s (\<lambda>st. st\<lparr>refcnt := refcnt st + 1\<rparr>)"

definition mux_stream_unref :: "mux_stream mem \<Rightarrow> ptr \<Rightarrow> mux_stream mem option" where
  "mux_stream_unref m s = do {
     st \<leftarrow> load m s;
     m \<leftarrow> modify m s (\<lambda>st. st\<lparr>refcnt := refcnt st - 1\<rparr>);
     if refcnt st \<noteq> 1 then Some m else release m s }"

definition mux_stream_detach_recv :: "mux_stream \<Rightarrow> ptr \<times> mux_stream" where
  "mux_stream_detach_recv s = (recv_waiter s, s\<lparr>recv_waiter := NULL\<rparr>)"

definition mux_stream_detach_send :: "mux_stream \<Rightarrow> ptr \<times> mux_stream" where
  "mux_stream_detach_send s = (send_waiter s, s\<lparr>send_waiter := NULL\<rparr>)"

text \<open>The loop that doubles the capacity; it does not end when the capacity is zero.\<close>

partial_function (option) grow_cap :: "u64 \<Rightarrow> u64 \<Rightarrow> u64 option" where
  "grow_cap new_cap need = (if new_cap < need then grow_cap (new_cap * 2) need else Some new_cap)"

declare grow_cap.simps [code]

definition mux_stream_push_data :: "bool \<Rightarrow> mux_stream \<Rightarrow> u8 list \<Rightarrow> (ptr \<times> mux_stream) option" where
  "mux_stream_push_data realloc_ok s dat =
     (let len = of_nat (length dat); recv_len = of_nat (length (recv_buf s)) in
      if length dat = 0 then Some (NULL, s)
      else do {
        new_cap \<leftarrow> (if recv_len + len > recv_cap s then grow_cap (recv_cap s * 2) (recv_len + len) else Some (recv_cap s));
        if recv_len + len > recv_cap s \<and> \<not> realloc_ok then Some (NULL, s)
        else let s = s\<lparr>recv_cap := new_cap, recv_buf := recv_buf s @ dat, recv_window := recv_window s - ucast len\<rparr> in
          Some (mux_stream_detach_recv s) })"

definition mux_stream_update_send_window :: "mux_stream \<Rightarrow> u32 \<Rightarrow> ptr \<times> mux_stream" where
  "mux_stream_update_send_window s delta = mux_stream_detach_send (s\<lparr>send_window := send_window s + delta\<rparr>)"

definition mux_stream_notify_remote_fin :: "mux_stream \<Rightarrow> ptr \<times> mux_stream" where
  "mux_stream_notify_remote_fin s =
     (let s = (if state s = MUX_STREAM_ESTABLISHED then s\<lparr>state := MUX_STREAM_REMOTE_CLOSE\<rparr>
               else if state s = MUX_STREAM_LOCAL_CLOSE then s\<lparr>state := MUX_STREAM_CLOSED\<rparr>
               else s) in
      mux_stream_detach_recv s)"

definition mux_stream_notify_reset :: "mux_stream \<Rightarrow> ptr list \<times> mux_stream" where
  "mux_stream_notify_reset s =
     (let s = s\<lparr>state := MUX_STREAM_CLOSED, closed := True\<rparr>;
          (r, s) = mux_stream_detach_recv s;
          (w, s) = mux_stream_detach_send s in
      ([r, w], s))"

section \<open>Reading, writing and closing one stream\<close>

text \<open>The commit callbacks of a park: whether the coroutine \<open>co\<close> stays parked; \<open>None\<close> is the call of
  \<open>abort\<close> for a second waiter.\<close>

definition mux_recv_wait_commit_cb :: "mux_stream \<Rightarrow> ptr \<Rightarrow> (bool \<times> mux_stream) option" where
  "mux_recv_wait_commit_cb s co =
     (if recv_buf s \<noteq> [] \<or> state s = MUX_STREAM_REMOTE_CLOSE \<or> state s = MUX_STREAM_CLOSED \<or> closed s
      then Some (False, s)
      else if recv_waiter s \<noteq> NULL then None
      else Some (True, s\<lparr>recv_waiter := co\<rparr>))"

definition mux_send_wait_commit_cb :: "mux_stream \<Rightarrow> ptr \<Rightarrow> (bool \<times> mux_stream) option" where
  "mux_send_wait_commit_cb s co =
     (if send_window s > 0 \<or> state s = MUX_STREAM_CLOSED \<or> closed s then Some (False, s)
      else if send_waiter s \<noteq> NULL then None
      else Some (True, s\<lparr>send_waiter := co\<rparr>))"

text \<open>One round of the loop of \<open>xylem_mux_read\<close>: the bytes read and the credit to announce, the value
  to return at the end of the stream, or a park.\<close>

datatype mux_read_result = ReadBytes "u8 list" "u32 option" | ReadEnd int | ReadPark

definition mux_read_round :: "u32 \<Rightarrow> mux_stream \<Rightarrow> nat \<Rightarrow> mux_read_result \<times> mux_stream" where
  "mux_read_round max_window s len =
     (if recv_buf s \<noteq> [] then
        let n = (if length (recv_buf s) < len then length (recv_buf s) else len);
            out = take n (recv_buf s);
            s = s\<lparr>recv_buf := drop n (recv_buf s)\<rparr>;
            consumed = max_window - recv_window s - of_nat (length (recv_buf s)) in
        if consumed \<ge> max_window div 2
        then (ReadBytes out (Some consumed), s\<lparr>recv_window := recv_window s + consumed\<rparr>)
        else (ReadBytes out None, s)
      else if state s = MUX_STREAM_REMOTE_CLOSE \<or> state s = MUX_STREAM_CLOSED \<or> closed s
      then (ReadEnd (if state s = MUX_STREAM_CLOSED then -1 else 0), s)
      else (ReadPark, s))"

text \<open>One round of the loop of \<open>xylem_mux_write\<close>, up to the transport write: the size of the next chunk
  of \<open>rem\<close> remaining bytes.\<close>

datatype mux_write_result = WriteClosed | WritePark | WriteChunk u32

definition mux_write_round :: "mux_stream \<Rightarrow> nat \<Rightarrow> mux_write_result" where
  "mux_write_round s rem =
     (if closed s \<or> state s = MUX_STREAM_CLOSED then WriteClosed
      else let window = send_window s in
      if window = 0 then WritePark
      else let chunk = (if window > 65535 then 65535 else window);
               chunk = (if chunk > of_nat rem then of_nat rem else chunk) in
        WriteChunk chunk)"

definition mux_write_sent :: "mux_stream \<Rightarrow> u32 \<Rightarrow> mux_stream" where
  "mux_write_sent s chunk = s\<lparr>send_window := send_window s - chunk\<rparr>"

text \<open>\<open>xylem_mux_close_stream\<close> up to the transport write of the FIN frame; \<open>None\<close> if it was closed
  already.\<close>

definition mux_close_local :: "mux_stream \<Rightarrow> (ptr list \<times> mux_stream) option" where
  "mux_close_local s =
     (if closed s then None
      else Some ([recv_waiter s, send_waiter s],
        s\<lparr>closed := True,
          state := (if state s = MUX_STREAM_ESTABLISHED then MUX_STREAM_LOCAL_CLOSE else MUX_STREAM_CLOSED),
          recv_waiter := NULL, send_waiter := NULL\<rparr>))"

definition xylem_mux_set_read_deadline :: "mux_stream \<Rightarrow> u64 \<Rightarrow> mux_stream" where
  "xylem_mux_set_read_deadline s deadline_ms = s\<lparr>rd_deadline := deadline_ms\<rparr>"

definition xylem_mux_set_write_deadline :: "mux_stream \<Rightarrow> u64 \<Rightarrow> mux_stream" where
  "xylem_mux_set_write_deadline s deadline_ms = s\<lparr>wr_deadline := deadline_ms\<rparr>"

section \<open>Flow control of the receiving side\<close>

text \<open>The window is the credit the peer may still use, the buffer holds what it has used and the
  application has not read; the difference to the maximum has been read and not announced yet.\<close>

definition recv_credit :: "u32 \<Rightarrow> mux_stream \<Rightarrow> bool" where
  "recv_credit max_window s \<longleftrightarrow> unat (recv_window s) + length (recv_buf s) \<le> unat max_window"

definition unannounced :: "u32 \<Rightarrow> mux_stream \<Rightarrow> nat" where
  "unannounced max_window s = unat max_window - unat (recv_window s) - length (recv_buf s)"

text \<open>A run of one stream: the peer sends whenever its credit allows, the application reads. The
  result is what was pushed, what was read, the sum of the announced credits, and the stream.\<close>

datatype mux_op = Push "u8 list" | Read nat

fun mux_run :: "u32 \<Rightarrow> mux_stream \<Rightarrow> mux_op list \<Rightarrow> (u8 list \<times> u8 list \<times> nat \<times> mux_stream) option" where
  "mux_run mw s [] = Some ([], [], 0, s)"
| "mux_run mw s (Push dat # ops) =
     (if length dat \<le> unat (recv_window s) then do {
        (co, s) \<leftarrow> mux_stream_push_data True s dat;
        (pushed, out, ann, s) \<leftarrow> mux_run mw s ops;
        Some (dat @ pushed, out, ann, s) }
      else mux_run mw s ops)"
| "mux_run mw s (Read n # ops) =
     (let (r, s) = mux_read_round mw s n in
      do { (pushed, out, ann, s) \<leftarrow> mux_run mw s ops;
           case r of ReadBytes bs credit \<Rightarrow>
               Some (pushed, bs @ out, (case credit of None \<Rightarrow> 0 | Some c \<Rightarrow> unat c) + ann, s)
           | _ \<Rightarrow> Some (pushed, out, ann, s) })"

section \<open>The life of a stream\<close>

text \<open>What the reader coroutine and the user coroutines do to a stream, in any order; each step is one
  critical section. There is one writer per stream, so no writer is parked while one is between its
  transport write and the update of the window.\<close>

inductive mux_step :: "mux_stream \<Rightarrow> mux_stream \<Rightarrow> bool" where
  push: "mux_stream_push_data ok s dat = Some (co, s') \<Longrightarrow> mux_step s s'"
| window: "mux_stream_update_send_window s delta = (co, s') \<Longrightarrow> mux_step s s'"
| fin: "mux_stream_notify_remote_fin s = (co, s') \<Longrightarrow> mux_step s s'"
| reset: "mux_stream_notify_reset s = (cos, s') \<Longrightarrow> mux_step s s'"
| read: "mux_read_round mw s n = (r, s') \<Longrightarrow> mux_step s s'"
| park_read: "mux_recv_wait_commit_cb s co = Some (b, s') \<Longrightarrow> mux_step s s'"
| park_write: "mux_send_wait_commit_cb s co = Some (b, s') \<Longrightarrow> mux_step s s'"
| sent: "send_waiter s = NULL \<Longrightarrow> mux_step s (mux_write_sent s chunk)"
| close: "mux_close_local s = Some (cos, s') \<Longrightarrow> mux_step s s'"

text \<open>A parked reader has nothing to read and nothing to learn, a parked writer no credit, and a stream
  that was closed keeps nobody parked.\<close>

definition waiters_ok :: "mux_stream \<Rightarrow> bool" where
  "waiters_ok s \<longleftrightarrow>
     (recv_waiter s \<noteq> NULL \<longrightarrow> recv_buf s = [] \<and> state s \<noteq> MUX_STREAM_REMOTE_CLOSE) \<and>
     (send_waiter s \<noteq> NULL \<longrightarrow> send_window s = 0) \<and>
     (closed s \<or> state s = MUX_STREAM_CLOSED \<longrightarrow> recv_waiter s = NULL \<and> send_waiter s = NULL) \<and>
     (closed s \<longleftrightarrow> state s = MUX_STREAM_LOCAL_CLOSE \<or> state s = MUX_STREAM_CLOSED)"

section \<open>Lemmas\<close>

text \<open>C26. Multiplexer frame headers: decoding the twelve bytes of an encoded header, whatever follows them,
  gives back every field.\<close>

theorem mux_frame_roundtrip:
  "length (mux_frame_encode hdr) = 12 \<and> mux_frame_decode (mux_frame_encode hdr @ rest) = hdr"
  using be_join16 [of "flags hdr"] be_join32 [of "stream_id hdr"] be_join32 [of "hdr_length hdr"]
  by (simp add: mux_frame_encode_def mux_frame_decode_def)

lemma grow_cap_some:
  assumes "0 < unat cap" "unat cap < unat need" "unat need \<le> 2 ^ 62"
  shows "\<exists>c. grow_cap (cap * 2) need = Some c \<and> need \<le> c \<and> unat c < 2 * unat need"
  using assms
proof (induction "unat need - unat cap" arbitrary: cap rule: less_induct)
  case less
  have u: "unat (cap * 2) = unat cap * 2"
    using less.prems(2,3) by (simp add: unat_word_ariths)
  show ?case
  proof (cases "cap * 2 < need")
    case True
    then have "unat cap * 2 < unat need" by (simp add: word_less_nat_alt u)
    then have "\<exists>c. grow_cap (cap * 2 * 2) need = Some c \<and> need \<le> c \<and> unat c < 2 * unat need"
      using less.prems u by (intro less.hyps) (simp_all add: u)
    then show ?thesis using True by (subst grow_cap.simps) simp
  next
    case False
    then have "need \<le> cap * 2" by (simp only: not_less)
    then show ?thesis using False less.prems(2) u by (subst grow_cap.simps) simp
  qed
qed

text \<open>The data path of one stream: what is pushed comes out in the same order, and the credit for the
  peer stays exact as long as the peer keeps to its window.\<close>

lemma push_data_ok:
  assumes "recv_credit mw s" "length dat \<le> unat (recv_window s)" "0 < unat (recv_cap s)" "unat (recv_cap s) \<le> 2 ^ 62"
  shows "\<exists>co s'. mux_stream_push_data True s dat = Some (co, s') \<and> recv_buf s' = recv_buf s @ dat \<and>
    recv_credit mw s' \<and> unat (recv_window s') = unat (recv_window s) - length dat \<and>
    0 < unat (recv_cap s') \<and> unat (recv_cap s') \<le> 2 ^ 62 \<and>
    (dat \<noteq> [] \<longrightarrow> co = recv_waiter s \<and> recv_waiter s' = NULL)"
proof (cases "dat = []")
  case True
  then show ?thesis using assms by (simp add: mux_stream_push_data_def)
next
  case False
  define n where "n = length (recv_buf s) + length dat"
  have n: "n < 2 ^ 32" using assms(1,2) unat_less [of mw] by (simp add: recv_credit_def n_def)
  have need: "(of_nat (length (recv_buf s)) + of_nat (length dat) :: u64) = of_nat n" by (simp add: n_def)
  have un: "unat (of_nat n :: u64) = n" using n by (intro unat_of_nat_small) simp
  obtain c where c: "(if of_nat n > recv_cap s then grow_cap (recv_cap s * 2) (of_nat n) else Some (recv_cap s)) = Some c"
    "0 < unat c" "unat c \<le> 2 ^ 62"
  proof (cases "of_nat n > recv_cap s")
    case True
    then have "unat (recv_cap s) < unat (of_nat n :: u64)" by (simp add: word_less_nat_alt)
    from grow_cap_some [OF assms(3) this] n un obtain c where "grow_cap (recv_cap s * 2) (of_nat n) = Some c"
      "of_nat n \<le> c" "unat c < 2 * n" by auto
    then show thesis using True n that [of c] un \<open>unat (recv_cap s) < _\<close> by (simp add: word_le_nat_alt)
  next
    case False
    then show thesis using that [of "recv_cap s"] assms(3,4) by simp
  qed
  have "length dat < 2 ^ 32" using n by (simp add: n_def)
  then have l: "(ucast (of_nat (length dat) :: u64) :: u32) = of_nat (length dat)"
    by (simp add: ucast_eq_of_nat unat_of_nat_small del: of_nat_unat)
  have w: "unat (recv_window s - of_nat (length dat)) = unat (recv_window s) - length dat"
    using assms(2) \<open>length dat < 2 ^ 32\<close> by (simp add: unat_sub_if_size word_le_nat_alt unat_of_nat_small)
  show ?thesis
    using False c assms(1,2) unfolding mux_stream_push_data_def Let_def need l
    by (auto simp: mux_stream_detach_recv_def recv_credit_def w)
qed

lemma read_round_ok:
  assumes "recv_credit mw s" "mux_read_round mw s n = (r, s')"
  shows "recv_credit mw s' \<and> recv_cap s' = recv_cap s \<and>
    (case r of
       ReadBytes bs None \<Rightarrow> recv_buf s = bs @ recv_buf s' \<and> recv_window s' = recv_window s
     | ReadBytes bs (Some c) \<Rightarrow> recv_buf s = bs @ recv_buf s' \<and> unat (recv_window s') = unat (recv_window s) + unat c \<and>
         unannounced mw s' = 0
     | _ \<Rightarrow> s' = s \<and> recv_buf s = [])"
proof (cases "recv_buf s = []")
  case True
  then show ?thesis using assms by (auto simp: mux_read_round_def split: if_splits)
next
  case False
  define k where "k = (if length (recv_buf s) < n then length (recv_buf s) else n)"
  define b where "b = drop k (recv_buf s)"
  define c where "c = mw - recv_window s - of_nat (length b)"
  have le: "unat (recv_window s) + length b \<le> unat mw" "length b < 2 ^ 32"
    using assms(1) unat_less [of mw] by (auto simp: recv_credit_def b_def)
  have "recv_window s \<le> mw" using le(1) by (simp add: word_le_nat_alt)
  then have u: "unat (mw - recv_window s) = unat mw - unat (recv_window s)" by (rule unat_sub)
  have ub: "unat (of_nat (length b) :: u32) = length b" using le(2) by (intro unat_of_nat_small) simp
  then have "(of_nat (length b) :: u32) \<le> mw - recv_window s" using le(1) u by (simp add: word_le_nat_alt)
  then have uc: "unat c = unat mw - unat (recv_window s) - length b" unfolding c_def using u ub by (simp add: unat_sub)
  then have uw: "unat (recv_window s + c) = unat (recv_window s) + unat c"
    using le(1) unat_less [of mw] by (simp add: unat_word_ariths)
  have e: "mux_read_round mw s n = (if c \<ge> mw div 2
      then (ReadBytes (take k (recv_buf s)) (Some c), s\<lparr>recv_buf := b, recv_window := recv_window s + c\<rparr>)
      else (ReadBytes (take k (recv_buf s)) None, s\<lparr>recv_buf := b\<rparr>))"
    using False by (simp add: mux_read_round_def Let_def k_def b_def c_def)
  show ?thesis
  proof (cases "c \<ge> mw div 2")
    case True
    then show ?thesis using e assms(2) le(1) uw uc by (auto simp: recv_credit_def unannounced_def b_def)
  next
    case False
    then show ?thesis using e assms(2) le(1) by (auto simp: recv_credit_def b_def)
  qed
qed

lemma mux_run_ok:
  assumes "recv_credit mw s" "0 < unat (recv_cap s)" "unat (recv_cap s) \<le> 2 ^ 62"
  shows "\<exists>pushed out ann s'. mux_run mw s ops = Some (pushed, out, ann, s') \<and>
    recv_buf s @ pushed = out @ recv_buf s' \<and> recv_credit mw s' \<and>
    unat (recv_window s') + length pushed = unat (recv_window s) + ann"
  using assms
proof (induction mw s ops rule: mux_run.induct)
  case (1 mw s)
  then show ?case by simp
next
  case (2 mw s dat ops)
  show ?case
  proof (cases "length dat \<le> unat (recv_window s)")
    case True
    then obtain co s1 where p: "mux_stream_push_data True s dat = Some (co, s1)" "recv_buf s1 = recv_buf s @ dat"
      "recv_credit mw s1" "unat (recv_window s1) = unat (recv_window s) - length dat" "0 < unat (recv_cap s1)"
      "unat (recv_cap s1) \<le> 2 ^ 62"
      using push_data_ok [OF 2(3) True] 2(4,5) by blast
    then obtain pushed out ann s' where "mux_run mw s1 ops = Some (pushed, out, ann, s')"
      "recv_buf s1 @ pushed = out @ recv_buf s'" "recv_credit mw s'"
      "unat (recv_window s') + length pushed = unat (recv_window s1) + ann"
      using 2(1) [OF True p(1) refl] by blast
    then show ?thesis using p True by simp
  next
    case False
    then show ?thesis using 2 by simp
  qed
next
  case (3 mw s n ops)
  obtain r s1 where r: "mux_read_round mw s n = (r, s1)" by fastforce
  note ok = read_round_ok [OF 3(2) r]
  then obtain pushed out ann s' where "mux_run mw s1 ops = Some (pushed, out, ann, s')"
    "recv_buf s1 @ pushed = out @ recv_buf s'" "recv_credit mw s'"
    "unat (recv_window s') + length pushed = unat (recv_window s1) + ann"
    using 3(1) [OF r [symmetric] refl] 3(3,4) by auto
  then show ?case using ok r
    by (cases r) (auto simp: Let_def split: option.splits)
qed



section \<open>Wake-ups\<close>

lemma push_data_fields:
  assumes "mux_stream_push_data ok s dat = Some (co, s')"
  shows "s' = s \<or> (recv_waiter s' = NULL \<and> send_waiter s' = send_waiter s \<and> send_window s' = send_window s \<and>
    state s' = state s \<and> closed s' = closed s)"
  using assms by (auto simp: mux_stream_push_data_def mux_stream_detach_recv_def Let_def split: if_splits bind_splits)

lemma read_round_fields:
  assumes "mux_read_round mw s n = (r, s')"
  shows "recv_waiter s' = recv_waiter s \<and> send_waiter s' = send_waiter s \<and> send_window s' = send_window s \<and>
    state s' = state s \<and> closed s' = closed s \<and> (recv_buf s = [] \<longrightarrow> recv_buf s' = [])"
  using assms unfolding mux_read_round_def Let_def
  by (cases "recv_buf s = []") (auto split: if_splits)

lemma waiters_reset: "mux_stream_notify_reset s = (cos, s') \<Longrightarrow> waiters_ok s'"
  by (auto simp: mux_stream_notify_reset_def mux_stream_detach_recv_def mux_stream_detach_send_def waiters_ok_def)

lemma waiters_fin: "mux_stream_notify_remote_fin s = (co, s') \<Longrightarrow> waiters_ok s \<Longrightarrow> waiters_ok s'"
  by (cases "state s") (auto simp: mux_stream_notify_remote_fin_def mux_stream_detach_recv_def waiters_ok_def)

lemma waiters_close: "mux_close_local s = Some (cos, s') \<Longrightarrow> waiters_ok s \<Longrightarrow> waiters_ok s'"
  by (cases "state s") (auto simp: mux_close_local_def waiters_ok_def split: if_splits)

lemma waiters_park:
  "mux_recv_wait_commit_cb s co = Some (b, s') \<Longrightarrow> waiters_ok s \<Longrightarrow> waiters_ok s'"
  "mux_send_wait_commit_cb s co = Some (b, s') \<Longrightarrow> waiters_ok s \<Longrightarrow> waiters_ok s'"
  by (auto simp: mux_recv_wait_commit_cb_def mux_send_wait_commit_cb_def waiters_ok_def word_gt_0 split: if_splits)

lemma waiters_step:
  assumes "mux_step s s'" "waiters_ok s"
  shows "waiters_ok s'"
  using assms(1)
proof cases
  case (push ok dat co)
  from push_data_fields [OF push] show ?thesis
  proof (elim disjE)
    assume "s' = s"
    with assms(2) show ?thesis by simp
  next
    assume "recv_waiter s' = NULL \<and> send_waiter s' = send_waiter s \<and> send_window s' = send_window s \<and>
      state s' = state s \<and> closed s' = closed s"
    with assms(2) show ?thesis by (simp add: waiters_ok_def)
  qed
next
  case (window delta co)
  then have "s' = s\<lparr>send_window := send_window s + delta, send_waiter := NULL\<rparr>"
    by (simp add: mux_stream_update_send_window_def mux_stream_detach_send_def)
  with assms(2) show ?thesis by (simp add: waiters_ok_def)
next
  case (read mw n r)
  from read_round_fields [OF read] assms(2) show ?thesis by (simp add: waiters_ok_def)
next
  case (sent chunk)
  then show ?thesis using assms(2) by (auto simp: mux_write_sent_def waiters_ok_def)
qed (use assms(2) waiters_reset waiters_fin waiters_close waiters_park in blast)+



end
