(* ===== verification/Mux_Session.thy ===== *)
theory Mux_Session
  imports Mux_Stream
begin

text \<open>
  The multiplexer session, \<open>src/net/mux/xylem-mux.c\<close>. The transport is the parameter that it is in the
  code: its state and the three functions \<open>read_fn\<close>, \<open>write_fn\<close>, \<open>close_fn\<close> are fields of the session.
  A call of \<open>read_fn\<close> returns the result of the C function and the bytes it stored.

  Streams live in a store and are known by their addresses. The field \<open>allocs\<close> lists the results of
  the coming allocations (\<open>NULL\<close> for a failed one, and so is every further one when the list ends),
  \<open>junk\<close> is what fresh memory from \<open>malloc\<close> holds, \<open>ready\<close> the coroutines made runnable. \<open>accept_ch\<close> is
  the queue of the channel of new streams. A handler is one step; \<open>None\<close> is undefined behaviour or a
  call of \<open>abort\<close>.
\<close>

section \<open>State\<close>

datatype mux_transport = XYLEM_MUX_TCP | XYLEM_MUX_TLS | XYLEM_MUX_UDS | XYLEM_MUX_RUDP_STREAM

datatype mux_role = XYLEM_MUX_CLIENT | XYLEM_MUX_SERVER

type_synonym 't mux_read_fn = "'t \<Rightarrow> int \<Rightarrow> int \<times> u8 list \<times> 't"
type_synonym 't mux_write_fn = "'t \<Rightarrow> u8 list \<Rightarrow> int \<times> 't"
type_synonym 't mux_close_fn = "'t \<Rightarrow> 't"

record 't mux =
  transport_ctx :: 't
  read_fn :: "'t mux_read_fn"
  write_fn :: "'t mux_write_fn"
  close_fn :: "'t mux_close_fn"
  role :: mux_role
  next_stream_id :: u32
  accept_ch :: "ptr list"
  accept_closed :: bool
  streams :: "ptr list"
  stream_cap :: nat
  max_stream_window :: u32
  mux_closed :: bool
  reader_done :: bool
  smem :: "mux_stream mem"
  allocs :: "ptr list"
  junk :: u8
  ready :: "ptr list"

definition alloc :: "'t mux \<Rightarrow> ptr \<times> 't mux" where
  "alloc m = (case allocs m of [] \<Rightarrow> (NULL, m) | p # ps \<Rightarrow> (p, m\<lparr>allocs := ps\<rparr>))"

definition coro_ready :: "'t mux \<Rightarrow> ptr \<Rightarrow> 't mux" where
  "coro_ready m co = (if co \<noteq> NULL then m\<lparr>ready := ready m @ [co]\<rparr> else m)"

text \<open>Storing back a stream and waking the coroutines that were detached from it.\<close>

definition put_stream :: "'t mux \<Rightarrow> ptr \<Rightarrow> ptr list \<times> mux_stream \<Rightarrow> 't mux" where
  "put_stream m p r = foldl coro_ready (m\<lparr>smem := (smem m)(p \<mapsto> snd r)\<rparr>) (fst r)"

section \<open>Streams of a session\<close>

fun find_stream :: "mux_stream mem \<Rightarrow> ptr list \<Rightarrow> u32 \<Rightarrow> ptr option" where
  "find_stream h [] i = Some NULL"
| "find_stream h (p # ps) i =
     (if p = NULL then find_stream h ps i
      else do { s \<leftarrow> load h p; if id s = i then Some p else find_stream h ps i })"

definition mux_find_stream :: "'t mux \<Rightarrow> u32 \<Rightarrow> ptr option" where
  "mux_find_stream m i = find_stream (smem m) (streams m) i"

definition mux_add_stream :: "'t mux \<Rightarrow> ptr \<Rightarrow> int \<times> 't mux" where
  "mux_add_stream m s =
     (if length (streams m) = stream_cap m then
        let new_cap = (if stream_cap m = 0 then 16 else stream_cap m * 2);
            (arr, m) = alloc m in
        if arr = NULL then (-1, m)
        else (0, m\<lparr>stream_cap := new_cap, streams := streams m @ [s]\<rparr>)
      else (0, m\<lparr>streams := streams m @ [s]\<rparr>))"

text \<open>Creating a stream: two allocations, the second one only after the first succeeded.\<close>

definition mux_new_stream :: "'t mux \<Rightarrow> u32 \<Rightarrow> ptr \<times> 't mux" where
  "mux_new_stream m i =
     (let (p, m) = alloc m in
      if p = NULL then (NULL, m)
      else let (b, m) = alloc m in
        case mux_stream_create True (b \<noteq> NULL) i (max_stream_window m) of
          None \<Rightarrow> (NULL, m)
        | Some s \<Rightarrow> (p, m\<lparr>smem := (smem m)(p \<mapsto> s)\<rparr>))"

definition accept_send :: "'t mux \<Rightarrow> ptr \<Rightarrow> 't mux option" where
  "accept_send m s = (if accept_closed m then None
     else let (msg, m) = alloc m in
       if msg = NULL then Some m else Some (m\<lparr>accept_ch := accept_ch m @ [s]\<rparr>))"

section \<open>Transport\<close>

function mux_read_full :: "'t mux \<Rightarrow> int \<Rightarrow> u8 list option \<times> 't mux" where
  "mux_read_full m rem =
     (if rem > 0 then
        let (n, bs, t) = read_fn m (transport_ctx m) rem; m = m\<lparr>transport_ctx := t\<rparr> in
        if n \<le> 0 then (None, m)
        else let (r, m) = mux_read_full m (rem - n) in (map_option ((@) bs) r, m)
      else (Some [], m))"
  by pat_completeness auto
termination by (relation "measure (\<lambda>(_, rem). nat rem)") auto

declare mux_read_full.simps [simp del]

definition mux_write_frame :: "'t mux \<Rightarrow> mux_frame_hdr \<Rightarrow> u8 list option \<Rightarrow> int \<times> 't mux" where
  "mux_write_frame m hdr dat =
     (let (rc, t) = write_fn m (transport_ctx m) (mux_frame_encode hdr); m = m\<lparr>transport_ctx := t\<rparr> in
      case dat of
        Some d \<Rightarrow> if rc = 0 \<and> hdr_length hdr > 0 then
            let (rc, t) = write_fn m (transport_ctx m) (take (unat (hdr_length hdr)) d) in (rc, m\<lparr>transport_ctx := t\<rparr>)
          else (rc, m)
      | None \<Rightarrow> (rc, m))"

definition mux_write_frame_try :: "bool \<Rightarrow> 't mux \<Rightarrow> mux_frame_hdr \<Rightarrow> u8 list option \<Rightarrow> int \<times> 't mux" where
  "mux_write_frame_try locked m hdr dat = (if \<not> locked then (-1, m) else mux_write_frame m hdr dat)"

definition mux_send_window_update :: "'t mux \<Rightarrow> u32 \<Rightarrow> u32 \<Rightarrow> 't mux" where
  "mux_send_window_update m i delta = snd (mux_write_frame m
     \<lparr>version = 0, hdr_type = MUX_TYPE_WINDOW_UPDATE, flags = 0, stream_id = i, hdr_length = delta\<rparr> None)"

section \<open>Incoming frames\<close>

definition mux_accept_syn :: "'t mux \<Rightarrow> u32 \<Rightarrow> (ptr \<times> 't mux) option" where
  "mux_accept_syn m i =
     (if mux_closed m then Some (NULL, m)
      else do {
        s \<leftarrow> mux_find_stream m i;
        if s \<noteq> NULL then Some (s, m)
        else let (s, m) = mux_new_stream m i in
          if s = NULL then Some (NULL, m)
          else do {
            h \<leftarrow> modify (smem m) s (\<lambda>st. st\<lparr>state := MUX_STREAM_ESTABLISHED\<rparr>);
            h \<leftarrow> mux_stream_ref h s;
            let m = snd (mux_add_stream (m\<lparr>smem := h\<rparr>) s);
            m \<leftarrow> accept_send m s;
            Some (s, m) } })"

text \<open>The conversion of a 32-bit length to \<open>int\<close>.\<close>

definition len_int :: "u32 \<Rightarrow> int" where
  "len_int n = sint n"

function discard_loop :: "'t mux \<Rightarrow> int \<Rightarrow> int \<times> 't mux" where
  "discard_loop m rem =
     (if rem > 0 then
        let chunk = (if rem < 4096 then rem else 4096); (r, m) = mux_read_full m chunk in
        if r = None then (-1, m) else discard_loop m (rem - chunk)
      else (0, m))"
  by pat_completeness auto
termination by (relation "measure (\<lambda>(_, rem). nat rem)") auto

declare discard_loop.simps [simp del]

definition mux_discard_payload :: "'t mux \<Rightarrow> u32 \<Rightarrow> int \<times> 't mux" where
  "mux_discard_payload m n = discard_loop m (len_int n)"

text \<open>The bytes of the payload buffer after \<open>_mux_read_full\<close> stored \<open>bs\<close> at its front.\<close>

definition payload_buf :: "'t mux \<Rightarrow> u32 \<Rightarrow> u8 list \<Rightarrow> u8 list" where
  "payload_buf m n bs = bs @ replicate (unat n - length bs) (junk m)"

definition has_flag :: "mux_frame_hdr \<Rightarrow> u16 \<Rightarrow> bool" where
  "has_flag hdr f \<longleftrightarrow> flags hdr AND f \<noteq> 0"

text \<open>Appending the payload; the buffer of the stream grows by one allocation when it is too small.\<close>

definition mux_push_payload :: "'t mux \<Rightarrow> ptr \<Rightarrow> u32 \<Rightarrow> u8 list \<Rightarrow> 't mux option" where
  "mux_push_payload m s n bs = do {
     st \<leftarrow> load (smem m) s;
     let (buf, m) = (if length (recv_buf st) + unat n > unat (recv_cap st) then alloc m else (s, m));
     (co, st) \<leftarrow> mux_stream_push_data (buf \<noteq> NULL) st (payload_buf m n bs);
     Some (put_stream m s ([co], st)) }"

definition mux_handle_payload :: "'t mux \<Rightarrow> ptr \<Rightarrow> mux_frame_hdr \<Rightarrow> (int \<times> 't mux) option" where
  "mux_handle_payload m s hdr =
     (if s \<noteq> NULL \<and> hdr_length hdr > 0 then
        let (payload, m) = alloc m in
        if payload = NULL then Some (0, m)
        else (case mux_read_full m (len_int (hdr_length hdr)) of
            (None, m) \<Rightarrow> Some (0, m)
          | (Some bs, m) \<Rightarrow> do { m \<leftarrow> mux_push_payload m s (hdr_length hdr) bs; Some (0, m) })
      else if hdr_length hdr > 0 then Some (mux_discard_payload m (hdr_length hdr))
      else Some (0, m))"

definition mux_handle_data :: "'t mux \<Rightarrow> mux_frame_hdr \<Rightarrow> (int \<times> 't mux) option" where
  "mux_handle_data m hdr = do {
     s \<leftarrow> mux_find_stream m (stream_id hdr);
     (s, m) \<leftarrow> (if has_flag hdr MUX_FLAG_SYN then mux_accept_syn m (stream_id hdr) else Some (s, m));
     (rc, m) \<leftarrow> mux_handle_payload m s hdr;
     if rc \<noteq> 0 then Some (-1, m)
     else do {
       m \<leftarrow> (if s \<noteq> NULL \<and> has_flag hdr MUX_FLAG_FIN
         then do { st \<leftarrow> load (smem m) s; let (co, st) = mux_stream_notify_remote_fin st; Some (put_stream m s ([co], st)) }
         else Some m);
       m \<leftarrow> (if s \<noteq> NULL \<and> has_flag hdr MUX_FLAG_RST
         then do { st \<leftarrow> load (smem m) s; Some (put_stream m s (mux_stream_notify_reset st)) }
         else Some m);
       Some (0, m) } }"

definition mux_handle_window_update :: "'t mux \<Rightarrow> mux_frame_hdr \<Rightarrow> 't mux option" where
  "mux_handle_window_update m hdr = do {
     m \<leftarrow> (if has_flag hdr MUX_FLAG_SYN then do { (_, m) \<leftarrow> mux_accept_syn m (stream_id hdr); Some m } else Some m);
     s \<leftarrow> mux_find_stream m (stream_id hdr);
     if s = NULL then Some m
     else do {
       st \<leftarrow> load (smem m) s;
       let (co, st) = mux_stream_update_send_window st (hdr_length hdr);
       Some (put_stream m s ([co], st)) } }"

definition mux_handle_ping :: "'t mux \<Rightarrow> mux_frame_hdr \<Rightarrow> 't mux" where
  "mux_handle_ping m hdr =
     (if \<not> has_flag hdr MUX_FLAG_ACK then snd (mux_write_frame m
        \<lparr>version = 0, hdr_type = MUX_TYPE_PING, flags = MUX_FLAG_ACK, stream_id = 0, hdr_length = hdr_length hdr\<rparr> None)
      else m)"

section \<open>Closing and the reader\<close>

fun reset_streams :: "'t mux \<Rightarrow> ptr list \<Rightarrow> 't mux option" where
  "reset_streams m [] = Some m"
| "reset_streams m (p # ps) =
     (if p = NULL then reset_streams m ps
      else do { s \<leftarrow> load (smem m) p; reset_streams (put_stream m p (mux_stream_notify_reset s)) ps })"

definition mux_reset_streams :: "'t mux \<Rightarrow> 't mux option" where
  "mux_reset_streams m = reset_streams m (streams m)"

text \<open>\<open>locked\<close> is the result of \<open>xylem_mutex_trylock\<close>.\<close>

definition mux_close_session :: "bool \<Rightarrow> 't mux \<Rightarrow> 't mux option" where
  "mux_close_session locked m =
     (if mux_closed m then Some m
      else do {
        m \<leftarrow> mux_reset_streams (m\<lparr>mux_closed := True\<rparr>);
        let m = snd (mux_write_frame_try locked m
          \<lparr>version = 0, hdr_type = MUX_TYPE_GO_AWAY, flags = 0, stream_id = 0, hdr_length = 0\<rparr> None);
        Some (m\<lparr>transport_ctx := close_fn m (transport_ctx m)\<rparr>) })"

definition mux_teardown :: "bool \<Rightarrow> 't mux \<Rightarrow> 't mux option" where
  "mux_teardown locked m = do {
     m \<leftarrow> mux_close_session locked m;
     if accept_closed m then None
     else Some (m\<lparr>accept_closed := True, reader_done := True\<rparr>) }"

definition mux_dispatch :: "'t mux \<Rightarrow> mux_frame_hdr \<Rightarrow> (int \<times> 't mux) option" where
  "mux_dispatch m hdr =
     (if hdr_type hdr = MUX_TYPE_DATA then mux_handle_data m hdr
      else if hdr_type hdr = MUX_TYPE_WINDOW_UPDATE then do { m \<leftarrow> mux_handle_window_update m hdr; Some (0, m) }
      else if hdr_type hdr = MUX_TYPE_PING then Some (0, mux_handle_ping m hdr)
      else if hdr_type hdr = MUX_TYPE_GO_AWAY then Some (-1, m)
      else Some (0, m))"

partial_function (option) reader_loop :: "'t mux \<Rightarrow> 't mux option" where
  "reader_loop m =
     (if mux_closed m then Some m
      else case mux_read_full m 12 of
        (None, m) \<Rightarrow> Some m
      | (Some buf, m) \<Rightarrow>
          let hdr = mux_frame_decode buf in
          if version hdr \<noteq> 0 then Some m
          else do {
            (rc, m) \<leftarrow> mux_dispatch m hdr;
            if rc \<noteq> 0 then Some m else reader_loop m })"

declare reader_loop.simps [code]

definition mux_reader_loop :: "bool \<Rightarrow> 't mux \<Rightarrow> 't mux option" where
  "mux_reader_loop locked m = do { m \<leftarrow> reader_loop m; mux_teardown locked m }"

section \<open>The interface\<close>

fun unref_all :: "mux_stream mem \<Rightarrow> ptr list \<Rightarrow> mux_stream mem option" where
  "unref_all h [] = Some h"
| "unref_all h (p # ps) = (if p = NULL then unref_all h ps else do { h \<leftarrow> mux_stream_unref h p; unref_all h ps })"

text \<open>The store of streams after the session is freed.\<close>

definition mux_free :: "'t mux \<Rightarrow> mux_stream mem option" where
  "mux_free m = do { h \<leftarrow> unref_all (smem m) (accept_ch m); unref_all h (streams m) }"

definition mux_resolve_transport ::
    "(mux_transport \<Rightarrow> 't mux_read_fn \<times> 't mux_write_fn \<times> 't mux_close_fn) \<Rightarrow> mux_transport \<Rightarrow>
     ('t mux_read_fn \<times> 't mux_write_fn \<times> 't mux_close_fn) option" where
  "mux_resolve_transport impl t = (case t of
       XYLEM_MUX_TCP \<Rightarrow> Some (impl XYLEM_MUX_TCP)
     | XYLEM_MUX_TLS \<Rightarrow> Some (impl XYLEM_MUX_TLS)
     | XYLEM_MUX_UDS \<Rightarrow> Some (impl XYLEM_MUX_UDS)
     | XYLEM_MUX_RUDP_STREAM \<Rightarrow> None)"

text \<open>\<open>oks\<close>: whether the session, its channel, its mutex and its reader coroutine could be created.\<close>

definition xylem_mux_create ::
    "(mux_transport \<Rightarrow> 't mux_read_fn \<times> 't mux_write_fn \<times> 't mux_close_fn) \<Rightarrow> bool \<Rightarrow> 't \<Rightarrow> mux_transport \<Rightarrow>
     mux_role \<Rightarrow> u32 option \<Rightarrow> ptr list \<Rightarrow> u8 \<Rightarrow> 't mux option" where
  "xylem_mux_create impl oks conn t r opts as j = do {
     (rd, wr, cl) \<leftarrow> mux_resolve_transport impl t;
     if \<not> oks then None
     else Some \<lparr>transport_ctx = conn, read_fn = rd, write_fn = wr, close_fn = cl, role = r,
       next_stream_id = (if r = XYLEM_MUX_CLIENT then 1 else 2), accept_ch = [], accept_closed = False,
       streams = [], stream_cap = 0,
       max_stream_window = (case opts of Some w \<Rightarrow> if w > 0 then w else 262144 | None \<Rightarrow> 262144),
       mux_closed = False, reader_done = False, smem = Map.empty, allocs = as, junk = j, ready = []\<rparr> }"

definition xylem_mux_close :: "bool \<Rightarrow> 't mux \<Rightarrow> 't mux option" where
  "xylem_mux_close locked m = mux_close_session locked m"

text \<open>The inner \<open>None\<close>: the loop that waits for the reader still yields.\<close>

definition xylem_mux_destroy :: "bool \<Rightarrow> 't mux \<Rightarrow> mux_stream mem option option" where
  "xylem_mux_destroy locked m = do {
     m \<leftarrow> xylem_mux_close locked m;
     if \<not> reader_done m then Some None
     else do { h \<leftarrow> mux_free m; Some (Some h) } }"

text \<open>\<open>close_now\<close>: another coroutine closed the session while the SYN frame was written.\<close>

definition xylem_mux_open_stream :: "bool \<Rightarrow> 't mux \<Rightarrow> (ptr \<times> 't mux) option" where
  "xylem_mux_open_stream close_now m =
     (if mux_closed m then Some (NULL, m)
      else let i = next_stream_id m; m = m\<lparr>next_stream_id := next_stream_id m + 2\<rparr>;
               (s, m) = mux_new_stream m i in
      if s = NULL then Some (NULL, m)
      else do {
        h \<leftarrow> modify (smem m) s (\<lambda>st. st\<lparr>state := MUX_STREAM_ESTABLISHED\<rparr>);
        let (rc, m) = mux_write_frame (m\<lparr>smem := h\<rparr>)
          \<lparr>version = 0, hdr_type = MUX_TYPE_WINDOW_UPDATE, flags = MUX_FLAG_SYN, stream_id = i,
           hdr_length = max_stream_window m\<rparr> None;
        if rc \<noteq> 0 then do { h \<leftarrow> mux_stream_unref (smem m) s; Some (NULL, m\<lparr>smem := h\<rparr>) }
        else do {
          h \<leftarrow> mux_stream_ref (smem m) s;
          let m = m\<lparr>smem := h, mux_closed := mux_closed m \<or> close_now\<rparr>;
          if mux_closed m then do {
            h \<leftarrow> mux_stream_unref (smem m) s;
            h \<leftarrow> mux_stream_unref h s;
            Some (NULL, m\<lparr>smem := h\<rparr>) }
          else Some (s, snd (mux_add_stream m s)) } })"

text \<open>\<open>None\<close> in the result: the coroutine parks in the channel.\<close>

definition xylem_mux_accept_stream :: "'t mux \<Rightarrow> ptr option \<times> 't mux" where
  "xylem_mux_accept_stream m =
     (if mux_closed m then (Some NULL, m)
      else case accept_ch m of
        p # ps \<Rightarrow> (Some p, m\<lparr>accept_ch := ps\<rparr>)
      | [] \<Rightarrow> if accept_closed m then (Some NULL, m) else (None, m))"

text \<open>A pass of \<open>xylem_mux_read\<close> into a buffer (\<open>buf\<close>: it is not \<open>NULL\<close>): its result (bytes read, or an empty list
  with 0 or -1), or a park with the decision of the commit callback. The reference that
  \<open>xylem_mux_read\<close> and \<open>xylem_mux_write\<close> take at their start and drop at their end is left out: it cancels out
  in a call that no other call overlaps.\<close>

datatype mux_io = Returned int "u8 list" | Parked | Retry

definition xylem_mux_read :: "'t mux \<Rightarrow> ptr \<Rightarrow> ptr \<Rightarrow> bool \<Rightarrow> int \<Rightarrow> (mux_io \<times> 't mux) option" where
  "xylem_mux_read m p co buf len =
     (if \<not> buf \<or> len \<le> 0 then Some (Returned (-1) [], m)
      else do {
        s \<leftarrow> load (smem m) p;
        let (r, s) = mux_read_round (max_stream_window m) s (nat len);
        let m = m\<lparr>smem := (smem m)(p \<mapsto> s)\<rparr>;
        case r of
          ReadBytes bs credit \<Rightarrow> Some (Returned (int (length bs)) bs,
            (case credit of None \<Rightarrow> m | Some c \<Rightarrow> mux_send_window_update m (id s) c))
        | ReadEnd rc \<Rightarrow> Some (Returned rc [], m)
        | ReadPark \<Rightarrow> do {
            (parked, s) \<leftarrow> mux_recv_wait_commit_cb s co;
            Some (if parked then Parked else Retry, m\<lparr>smem := (smem m)(p \<mapsto> s)\<rparr>) } })"

text \<open>\<open>xylem_mux_write\<close> runs until all is sent, an error, or a park with the bytes that remain. A chunk of
  0 bytes would repeat the round for ever: \<open>None\<close>.\<close>

definition write_chunk :: "'t mux \<Rightarrow> ptr \<Rightarrow> u32 \<Rightarrow> u8 list \<Rightarrow> (int \<times> 't mux) option" where
  "write_chunk m p chunk dat = do {
     s \<leftarrow> load (smem m) p;
     let (rc, m) = mux_write_frame m
       \<lparr>version = 0, hdr_type = MUX_TYPE_DATA, flags = 0, stream_id = id s, hdr_length = chunk\<rparr> (Some dat);
     if rc \<noteq> 0 then Some (-1, m)
     else do { h \<leftarrow> modify (smem m) p (\<lambda>s. mux_write_sent s chunk); Some (0, m\<lparr>smem := h\<rparr>) } }"

function mux_write_loop :: "'t mux \<Rightarrow> ptr \<Rightarrow> ptr \<Rightarrow> u8 list \<Rightarrow> (mux_io \<times> u8 list \<times> 't mux) option" where
  "mux_write_loop m p co dat =
     (if dat = [] then Some (Returned 0 [], [], m)
      else do {
        s \<leftarrow> load (smem m) p;
        case mux_write_round s (length dat) of
          WriteClosed \<Rightarrow> Some (Returned (-1) [], dat, m)
        | WritePark \<Rightarrow> do {
            (parked, s) \<leftarrow> mux_send_wait_commit_cb s co;
            Some (if parked then Parked else Retry, dat, m\<lparr>smem := (smem m)(p \<mapsto> s)\<rparr>) }
        | WriteChunk chunk \<Rightarrow> do {
            (rc, m) \<leftarrow> write_chunk m p chunk dat;
            if rc \<noteq> 0 then Some (Returned (-1) [], dat, m)
            else if unat chunk = 0 then None
            else mux_write_loop m p co (drop (unat chunk) dat) } })"
  by pat_completeness auto
termination by (relation "measure (\<lambda>(_, _, _, dat). length dat)") auto

declare mux_write_loop.simps [simp del]

definition xylem_mux_write :: "'t mux \<Rightarrow> ptr \<Rightarrow> ptr \<Rightarrow> u8 list option \<Rightarrow> int \<Rightarrow> (mux_io \<times> u8 list \<times> 't mux) option" where
  "xylem_mux_write m p co dat len =
     (if len < 0 then Some (Returned (-1) [], [], m)
      else if len = 0 then Some (Returned 0 [], [], m)
      else case dat of None \<Rightarrow> Some (Returned (-1) [], [], m)
        | Some d \<Rightarrow> mux_write_loop m p co (take (nat len) d))"

definition xylem_mux_close_stream :: "bool \<Rightarrow> 't mux \<Rightarrow> ptr \<Rightarrow> 't mux option" where
  "xylem_mux_close_stream locked m p = do {
     s \<leftarrow> load (smem m) p;
     case mux_close_local s of
       None \<Rightarrow> Some m
     | Some r \<Rightarrow> do {
         let m = put_stream m p r;
         let m = snd (mux_write_frame_try locked m
           \<lparr>version = 0, hdr_type = MUX_TYPE_DATA, flags = MUX_FLAG_FIN, stream_id = id s, hdr_length = 0\<rparr> None);
         h \<leftarrow> mux_stream_unref (smem m) p;
         Some (m\<lparr>smem := h\<rparr>) } }"

section \<open>What the reader relies on and keeps\<close>

text \<open>The contract of a transport with finite input: a successful read stores as many bytes as it returns, at
  most those asked for, and \<open>wt\<close>, a bound on the reads still to come, shrinks; nothing makes it grow.\<close>

definition finite_input :: "('t \<Rightarrow> nat) \<Rightarrow> 't mux_read_fn \<Rightarrow> 't mux_write_fn \<Rightarrow> bool" where
  "finite_input wt rd wr \<longleftrightarrow>
     (\<forall>t len n bs t'. rd t len = (n, bs, t') \<longrightarrow>
        (if n > 0 then int (length bs) = n \<and> n \<le> len \<and> wt t' < wt t else wt t' \<le> wt t)) \<and>
     (\<forall>t bs. wt (snd (wr t bs)) \<le> wt t)"

text \<open>Room for the data of \<open>w\<close> more frames.\<close>

definition stream_room :: "nat \<Rightarrow> mux_stream \<Rightarrow> bool" where
  "stream_room w s \<longleftrightarrow> 0 < unat (recv_cap s) \<and> unat (recv_cap s) \<le> 2 ^ 62 \<and>
     length (recv_buf s) + w * 2 ^ 32 \<le> 2 ^ 61"

definition mux_inv :: "nat \<Rightarrow> 't mux \<Rightarrow> bool" where
  "mux_inv w m \<longleftrightarrow> 0 < max_stream_window m \<and> \<not> accept_closed m \<and> w \<le> 2 ^ 28 \<and>
     (\<forall>p\<in>set (streams m). p \<noteq> NULL \<longrightarrow> smem m p \<noteq> None) \<and>
     (\<forall>p s. smem m p = Some s \<longrightarrow> stream_room w s)"

text \<open>What no handler changes.\<close>

definition same_session :: "'t mux \<Rightarrow> 't mux \<Rightarrow> bool" where
  "same_session m m' \<longleftrightarrow> read_fn m' = read_fn m \<and> write_fn m' = write_fn m \<and> close_fn m' = close_fn m \<and>
     max_stream_window m' = max_stream_window m \<and> mux_closed m' = mux_closed m \<and> junk m' = junk m \<and>
     (\<forall>p. smem m p \<noteq> None \<longrightarrow> smem m' p \<noteq> None)"

definition keeps :: "('t \<Rightarrow> nat) \<Rightarrow> nat \<Rightarrow> 't mux \<Rightarrow> 't mux \<Rightarrow> bool" where
  "keeps wt w m m' \<longleftrightarrow> same_session m m' \<and> mux_inv w m' \<and> wt (transport_ctx m') \<le> wt (transport_ctx m)"

definition shut_down :: "mux_stream \<Rightarrow> bool" where
  "shut_down s \<longleftrightarrow> state s = MUX_STREAM_CLOSED \<and> closed s \<and> recv_waiter s = NULL \<and> send_waiter s = NULL"

text \<open>A transport that takes every write: \<open>out\<close> is what it has been given so far. The frames that carry
  the pieces of the data of a stream.\<close>

definition takes_all :: "('t \<Rightarrow> u8 list) \<Rightarrow> 't mux_write_fn \<Rightarrow> bool" where
  "takes_all out wr \<longleftrightarrow> (\<forall>t bs. fst (wr t bs) = 0 \<and> out (snd (wr t bs)) = out t @ bs)"

definition data_frame :: "u32 \<Rightarrow> u8 list \<Rightarrow> u8 list" where
  "data_frame i d = mux_frame_encode
     \<lparr>version = 0, hdr_type = MUX_TYPE_DATA, flags = 0, stream_id = i, hdr_length = of_nat (length d)\<rparr> @ d"

text \<open>A transport that holds the bytes to be read and those written, and a session over it.\<close>

definition buf_read :: "(u8 list \<times> u8 list) mux_read_fn" where
  "buf_read t n = (let k = min (nat n) (length (fst t)) in (int k, take k (fst t), drop k (fst t), snd t))"

definition buf_write :: "(u8 list \<times> u8 list) mux_write_fn" where
  "buf_write t bs = (0, fst t, snd t @ bs)"

definition buf_session :: "u8 list \<Rightarrow> ptr list \<Rightarrow> (u8 list \<times> u8 list) mux" where
  "buf_session input as = \<lparr>transport_ctx = (input, []), read_fn = buf_read, write_fn = buf_write, close_fn = (\<lambda>t. t),
     role = XYLEM_MUX_SERVER, next_stream_id = 2, accept_ch = [], accept_closed = False, streams = [], stream_cap = 0,
     max_stream_window = 262144, mux_closed = False, reader_done = False, smem = Map.empty, allocs = as, junk = 170, ready = []\<rparr>"

section \<open>Lemmas\<close>

lemma same_session_refl [simp]: "same_session m m"
  by (simp add: same_session_def)

lemma same_session_trans: "same_session m m' \<Longrightarrow> same_session m' m'' \<Longrightarrow> same_session m m''"
  by (auto simp: same_session_def)

lemma stream_room_mono: "stream_room w s \<Longrightarrow> w' \<le> w \<Longrightarrow> stream_room w' s"
  by (auto simp: stream_room_def elim!: order_trans [rotated])

lemma stream_room_upd [simp]:
  "stream_room w (s\<lparr>state := st\<rparr>) = stream_room w s" "stream_room w (s\<lparr>refcnt := n\<rparr>) = stream_room w s"
  "stream_room w (s\<lparr>recv_waiter := p\<rparr>) = stream_room w s" "stream_room w (s\<lparr>send_waiter := p\<rparr>) = stream_room w s"
  "stream_room w (s\<lparr>send_window := x\<rparr>) = stream_room w s" "stream_room w (s\<lparr>closed := b\<rparr>) = stream_room w s"
  by (simp_all add: stream_room_def)

lemma mux_inv_mono: "mux_inv w m \<Longrightarrow> w' \<le> w \<Longrightarrow> mux_inv w' m"
  by (auto simp: mux_inv_def intro: stream_room_mono)

lemma keeps_trans: "keeps wt w m m' \<Longrightarrow> keeps wt w' m' m'' \<Longrightarrow> keeps wt w' m m''"
  by (auto simp: keeps_def intro: same_session_trans)

lemma keeps_refl: "mux_inv w m \<Longrightarrow> keeps wt w m m"
  by (simp add: keeps_def)

lemma alloc_fields:
  assumes "alloc m = (p, m')"
  shows "\<exists>as. m' = m\<lparr>allocs := as\<rparr>"
proof (cases "allocs m")
  case Nil
  then have "m' = m\<lparr>allocs := allocs m\<rparr>" using assms by (simp add: alloc_def)
  then show ?thesis ..
next
  case (Cons a as)
  then show ?thesis using assms by (auto simp: alloc_def)
qed

lemma mux_inv_upd [simp]:
  "mux_inv w (m\<lparr>allocs := as\<rparr>) = mux_inv w m" "mux_inv w (m\<lparr>transport_ctx := t\<rparr>) = mux_inv w m"
  "mux_inv w (m\<lparr>ready := r\<rparr>) = mux_inv w m" "mux_inv w (m\<lparr>accept_ch := c\<rparr>) = mux_inv w m"
  "mux_inv w (m\<lparr>stream_cap := n\<rparr>) = mux_inv w m" "mux_inv w (m\<lparr>next_stream_id := i\<rparr>) = mux_inv w m"
  by (simp_all add: mux_inv_def)

lemma same_session_upd [simp]:
  "same_session m (m'\<lparr>allocs := as\<rparr>) = same_session m m'" "same_session m (m'\<lparr>transport_ctx := t\<rparr>) = same_session m m'"
  "same_session m (m'\<lparr>ready := r\<rparr>) = same_session m m'" "same_session m (m'\<lparr>accept_ch := c\<rparr>) = same_session m m'"
  "same_session m (m'\<lparr>stream_cap := n\<rparr>) = same_session m m'" "same_session m (m'\<lparr>next_stream_id := i\<rparr>) = same_session m m'"
  "same_session m (m'\<lparr>streams := ps\<rparr>) = same_session m m'"
  by (simp_all add: same_session_def)

lemma put_stream_fields: "\<exists>r. put_stream m p x = m\<lparr>smem := (smem m)(p \<mapsto> snd x), ready := r\<rparr>"
proof -
  have *: "\<exists>r. foldl coro_ready m' cos = m'\<lparr>ready := r\<rparr>" for m' :: "'a mux" and cos
  proof (induction cos arbitrary: m')
    case Nil
    have "m' = m'\<lparr>ready := ready m'\<rparr>" by simp
    then show ?case unfolding foldl_Nil by (rule exI)
  next
    case (Cons c cos)
    show ?case using Cons [of "coro_ready m' c"] by (auto simp: coro_ready_def)
  qed
  show ?thesis using * [of "m\<lparr>smem := (smem m)(p \<mapsto> snd x)\<rparr>"] by (simp add: put_stream_def)
qed

lemma put_stream_keeps:
  assumes "mux_inv w m" "smem m p \<noteq> None" "stream_room w (snd x)"
  shows "keeps wt w m (put_stream m p x)"
proof -
  obtain r where r: "put_stream m p x = m\<lparr>smem := (smem m)(p \<mapsto> snd x), ready := r\<rparr>"
    using put_stream_fields by blast
  have "mux_inv w (m\<lparr>smem := (smem m)(p \<mapsto> snd x)\<rparr>)"
    using assms by (auto simp: mux_inv_def)
  then show ?thesis unfolding r by (simp add: keeps_def) (simp add: same_session_def)
qed

lemma find_stream_some:
  "(\<forall>p\<in>set ps. p \<noteq> NULL \<longrightarrow> h p \<noteq> None) \<Longrightarrow>
   \<exists>p. find_stream h ps i = Some p \<and> (p \<noteq> NULL \<longrightarrow> p \<in> set ps \<and> (\<exists>s. h p = Some s \<and> id s = i))"
proof (induction ps)
  case (Cons q ps)
  then obtain p where p: "find_stream h ps i = Some p" "p \<noteq> NULL \<longrightarrow> p \<in> set ps \<and> (\<exists>s. h p = Some s \<and> id s = i)" by auto
  show ?case
  proof (cases "q = NULL")
    case False
    then obtain s where "h q = Some s" using Cons.prems by auto
    then show ?thesis using False p by (auto simp: load_def)
  qed (use p in auto)
qed simp

lemma mux_find_stream_some:
  assumes "mux_inv w m"
  obtains p where "mux_find_stream m i = Some p" "p \<noteq> NULL \<Longrightarrow> smem m p \<noteq> None"
  using find_stream_some [of "streams m" "smem m" i] assms unfolding mux_inv_def mux_find_stream_def by auto

subsection \<open>The transport\<close>

lemma mux_read_full_ok:
  assumes "finite_input wt (read_fn m) (write_fn m)" "mux_read_full m rem = (r, m')"
  shows "\<exists>t. m' = m\<lparr>transport_ctx := t\<rparr> \<and> wt t \<le> wt (transport_ctx m) \<and>
    (\<forall>bs. r = Some bs \<longrightarrow> length bs = nat rem \<and> (0 < rem \<longrightarrow> wt t < wt (transport_ctx m)))"
  using assms
proof (induction m rem arbitrary: r m' rule: mux_read_full.induct)
  case (1 m rem)
  obtain n bs t where rd: "read_fn m (transport_ctx m) rem = (n, bs, t)" by (metis prod_cases3)
  have c: "if n > 0 then int (length bs) = n \<and> n \<le> rem \<and> wt t < wt (transport_ctx m) else wt t \<le> wt (transport_ctx m)"
    using "1.prems"(1) rd unfolding finite_input_def by metis
  consider "rem \<le> 0" | "0 < rem" "n \<le> 0" | "0 < rem" "0 < n" by linarith
  then show ?case
  proof cases
    case 1
    then have "m' = m" "r = Some []"
      using "1.prems"(2) by (auto simp: mux_read_full.simps [of m])
    then show ?thesis using 1 by (intro exI [of _ "transport_ctx m"]) auto
  next
    case 2
    then show ?thesis using "1.prems"(2) rd c by (auto simp: mux_read_full.simps [of m] Let_def)
  next
    case 3
    obtain r1 m1 where rec: "mux_read_full (m\<lparr>transport_ctx := t\<rparr>) (rem - n) = (r1, m1)" by fastforce
    have out: "r = map_option ((@) bs) r1" "m' = m1"
      using "1.prems"(2) rd rec 3 by (simp_all add: mux_read_full.simps [of m] Let_def)
    obtain t1 where "m1 = m\<lparr>transport_ctx := t1\<rparr>" "wt t1 \<le> wt t" "\<forall>bs. r1 = Some bs \<longrightarrow> length bs = nat (rem - n)"
      using "1.IH" [OF \<open>0 < rem\<close> rd [symmetric] refl refl refl _ _ rec] 3 "1.prems"(1) by auto
    then show ?thesis using out c 3 by (auto simp: nat_diff_distrib)
  qed
qed

lemma mux_write_frame_ok:
  assumes "finite_input wt (read_fn m) (write_fn m)" "mux_write_frame m hdr dat = (rc, m')"
  shows "\<exists>t. m' = m\<lparr>transport_ctx := t\<rparr> \<and> wt t \<le> wt (transport_ctx m)"
proof -
  have w: "wt (snd (write_fn m t bs)) \<le> wt t" for t bs using assms(1) by (simp add: finite_input_def)
  obtain rc1 t1 where 1: "write_fn m (transport_ctx m) (mux_frame_encode hdr) = (rc1, t1)" by fastforce
  then have le: "wt t1 \<le> wt (transport_ctx m)" using w by (metis snd_conv)
  show ?thesis
  proof (cases dat)
    case None
    then show ?thesis using assms(2) 1 le by (auto simp: mux_write_frame_def Let_def)
  next
    case (Some d)
    obtain rc2 t2 where 2: "write_fn m t1 (take (unat (hdr_length hdr)) d) = (rc2, t2)" by fastforce
    then have "wt t2 \<le> wt t1" using w by (metis snd_conv)
    then show ?thesis using assms(2) 1 2 le Some
      by (auto simp: mux_write_frame_def Let_def split: if_splits intro: order_trans)
  qed
qed

lemma discard_loop_ok:
  assumes "finite_input wt (read_fn m) (write_fn m)" "discard_loop m rem = (rc, m')"
  shows "\<exists>t. m' = m\<lparr>transport_ctx := t\<rparr> \<and> wt t \<le> wt (transport_ctx m)"
  using assms
proof (induction m rem arbitrary: rc m' rule: discard_loop.induct)
  case (1 m rem)
  show ?case
  proof (cases "rem > 0")
    case False
    then have "m' = m" using "1.prems"(2) by (simp add: discard_loop.simps [of m])
    then show ?thesis by (intro exI [of _ "transport_ctx m"]) simp
  next
    case True
    define chunk where "chunk = (if rem < 4096 then rem else 4096)"
    obtain r m1 where rd: "mux_read_full m chunk = (r, m1)" by fastforce
    obtain t1 where t1: "m1 = m\<lparr>transport_ctx := t1\<rparr>" "wt t1 \<le> wt (transport_ctx m)"
      using mux_read_full_ok [OF "1.prems"(1) rd] by blast
    show ?thesis
    proof (cases "r = None")
      case True
      then show ?thesis using "1.prems"(2) \<open>rem > 0\<close> rd t1
        by (auto simp: discard_loop.simps [of m] chunk_def Let_def)
    next
      case False
      then have "discard_loop m1 (rem - chunk) = (rc, m')"
        using "1.prems"(2) \<open>rem > 0\<close> rd by (auto simp: discard_loop.simps [of m] chunk_def [symmetric] Let_def)
      then obtain t where "m' = m1\<lparr>transport_ctx := t\<rparr>" "wt t \<le> wt (transport_ctx m1)"
        using "1.IH" [OF True chunk_def rd [symmetric] refl] False "1.prems"(1) t1 by auto
      then show ?thesis using t1 by auto
    qed
  qed
qed

lemma keeps_transport: "mux_inv w m \<Longrightarrow> wt t \<le> wt (transport_ctx m) \<Longrightarrow> keeps wt w m (m\<lparr>transport_ctx := t\<rparr>)"
  by (simp add: keeps_def)

subsection \<open>New streams\<close>

lemma mux_new_stream_ok:
  assumes "mux_inv w m" "mux_new_stream m i = (p, m')"
  shows "keeps wt w m m' \<and> (p \<noteq> NULL \<longrightarrow> smem m' p \<noteq> None)"
proof -
  obtain q m1 where 1: "alloc m = (q, m1)" by fastforce
  obtain b m2 where 2: "alloc m1 = (b, m2)" by fastforce
  obtain as where m1: "m1 = m\<lparr>allocs := as\<rparr>" using alloc_fields [OF 1] by blast
  obtain bs where m2: "m2 = m\<lparr>allocs := bs\<rparr>" using alloc_fields [OF 2] m1 by auto
  define s where "s = \<lparr>id = i, state = MUX_STREAM_INIT, recv_buf = [], recv_cap = ucast (max_stream_window m), recv_window = max_stream_window m,
        recv_waiter = NULL, send_window = max_stream_window m, send_waiter = NULL, rd_deadline = 0, wr_deadline = 0,
        closed = False, refcnt = 1\<rparr>"
  have cap: "unat (ucast (max_stream_window m) :: u64) = unat (max_stream_window m)"
    unfolding ucast_eq_of_nat using unat_less [of "max_stream_window m"] by (intro unat_of_nat_small) simp
  have "stream_room w s"
    using assms(1) unat_less [of "max_stream_window m"]
    by (simp add: s_def stream_room_def mux_inv_def cap word_less_nat_alt)
  then have inv: "mux_inv w (m\<lparr>allocs := bs, smem := (smem m)(q \<mapsto> s)\<rparr>)"
    using assms(1) by (auto simp: mux_inv_def)
  consider "q = NULL" "p = NULL" "m' = m1" | "q \<noteq> NULL" "b = NULL" "p = NULL" "m' = m2"
    | "q \<noteq> NULL" "p = q" "m' = m\<lparr>allocs := bs, smem := (smem m)(q \<mapsto> s)\<rparr>"
    using assms(2) 1 2 m2 by (auto simp: mux_new_stream_def mux_stream_create_def s_def split: if_splits)
  then show ?thesis
  proof cases
    case 3
    then show ?thesis using inv by (simp add: keeps_def) (simp add: same_session_def)
  qed (use assms(1) m1 m2 in \<open>simp_all add: keeps_def\<close>)
qed

lemma mux_add_stream_ok:
  assumes "mux_inv w m" "smem m p \<noteq> None"
  shows "keeps wt w m (snd (mux_add_stream m p))"
proof -
  have inv: "mux_inv w (m\<lparr>streams := streams m @ [p]\<rparr>)"
    using assms by (auto simp: mux_inv_def)
  obtain a m1 where 1: "alloc m = (a, m1)" by fastforce
  obtain as where "m1 = m\<lparr>allocs := as\<rparr>" using alloc_fields [OF 1] by blast
  then show ?thesis using inv assms(1) 1
    by (auto simp: mux_add_stream_def keeps_def mux_inv_def)
qed

lemma modify_keeps:
  assumes "mux_inv w m" "p \<noteq> NULL" "smem m p \<noteq> None" "\<And>s. stream_room w s \<Longrightarrow> stream_room w (f s)"
  obtains h where "modify (smem m) p f = Some h" "keeps wt w m (m\<lparr>smem := h\<rparr>)"
proof -
  obtain s where s: "smem m p = Some s" using assms(3) by auto
  have "mux_inv w (m\<lparr>smem := (smem m)(p \<mapsto> f s)\<rparr>)"
    using assms s by (auto simp: mux_inv_def)
  then show thesis using that s assms(2) by (simp add: modify_Some keeps_def same_session_def)
qed

lemma accept_send_ok:
  assumes "mux_inv w m"
  obtains m' where "accept_send m p = Some m'" "keeps wt w m m'"
proof -
  obtain a m1 where 1: "alloc m = (a, m1)" by fastforce
  obtain as where "m1 = m\<lparr>allocs := as\<rparr>" using alloc_fields [OF 1] by blast
  then show thesis using that assms 1
    by (cases "a = NULL") (simp_all add: accept_send_def mux_inv_def keeps_def)
qed

lemma keepsD: "keeps wt w m m' \<Longrightarrow> mux_inv w m'" "keeps wt w m m' \<Longrightarrow> smem m p \<noteq> None \<Longrightarrow> smem m' p \<noteq> None"
  by (auto simp: keeps_def same_session_def)

lemma mux_accept_syn_ok:
  assumes "mux_inv w m"
  obtains p m' where "mux_accept_syn m i = Some (p, m')" "keeps wt w m m'" "p \<noteq> NULL \<Longrightarrow> smem m' p \<noteq> None"
proof -
  obtain q where q: "mux_find_stream m i = Some q" "q \<noteq> NULL \<Longrightarrow> smem m q \<noteq> None"
    using mux_find_stream_some [OF assms] by blast
  obtain p m1 where new: "mux_new_stream m i = (p, m1)" by fastforce
  have k1: "keeps wt w m m1" "p \<noteq> NULL \<Longrightarrow> smem m1 p \<noteq> None" using mux_new_stream_ok [OF assms new] by auto
  consider "mux_closed m \<or> q \<noteq> NULL" | "\<not> mux_closed m" "q = NULL" "p = NULL" | "\<not> mux_closed m" "q = NULL" "p \<noteq> NULL"
    by blast
  then show thesis
  proof cases
    case 1
    then show thesis using that q keeps_refl [OF assms] by (cases "mux_closed m") (auto simp: mux_accept_syn_def)
  next
    case 2
    then show thesis using that q new k1 by (auto simp: mux_accept_syn_def)
  next
    case 3
    obtain h where h: "modify (smem m1) p (\<lambda>st. st\<lparr>state := MUX_STREAM_ESTABLISHED\<rparr>) = Some h" "keeps wt w m1 (m1\<lparr>smem := h\<rparr>)"
      by (rule modify_keeps [OF keepsD(1) [OF k1(1)] 3(3) k1(2) [OF 3(3)],
            of "\<lambda>st. st\<lparr>state := MUX_STREAM_ESTABLISHED\<rparr>" wt]) simp_all
    have hp: "h p \<noteq> None" using keepsD(2) [OF h(2) k1(2) [OF 3(3)]] by simp
    obtain h' where h': "mux_stream_ref h p = Some h'" "keeps wt w (m1\<lparr>smem := h\<rparr>) (m1\<lparr>smem := h'\<rparr>)"
      unfolding mux_stream_ref_def
      by (rule modify_keeps [OF keepsD(1) [OF h(2)] 3(3), of "\<lambda>st. st\<lparr>refcnt := refcnt st + 1\<rparr>" wt]) (use hp in simp_all)
    have hp': "h' p \<noteq> None" using keepsD(2) [OF h'(2), of p] hp by simp
    define m2 where "m2 = snd (mux_add_stream (m1\<lparr>smem := h'\<rparr>) p)"
    have k2: "keeps wt w (m1\<lparr>smem := h'\<rparr>) m2"
      unfolding m2_def using keepsD(1) [OF h'(2)] hp' by (intro mux_add_stream_ok) simp_all
    obtain m3 where m3: "accept_send m2 p = Some m3" "keeps wt w m2 m3"
      using accept_send_ok [OF keepsD(1) [OF k2]] by blast
    have "smem m3 p \<noteq> None" using keepsD(2) [OF m3(2)] keepsD(2) [OF k2, of p] hp' by simp
    moreover have "keeps wt w m m3" using k1(1) h(2) h'(2) k2 m3(2) by (blast intro: keeps_trans)
    moreover have "mux_accept_syn m i = Some (p, m3)"
      using 3 q new h(1) h'(1) m3(1) by (simp add: mux_accept_syn_def m2_def)
    ultimately show thesis using that by blast
  qed
qed

subsection \<open>Handlers\<close>

lemma nat_sint_le: "nat (sint (n :: u32)) \<le> unat n"
proof -
  have "- (2 ^ 31) \<le> uint n" by (rule order_trans [of _ 0]) simp_all
  then have "sint n \<le> uint n" by (simp add: sint_uint signed_take_bit_int_less_eq_self_iff)
  then show ?thesis by (simp add: nat_le_eq_zle flip: nat_uint_eq)
qed

lemma push_data_room:
  assumes "stream_room (Suc w) s" "length dat < 2 ^ 32"
  obtains co s' where "mux_stream_push_data ok s dat = Some (co, s')" "stream_room w s'"
    "ok \<or> length (recv_buf s) + length dat \<le> unat (recv_cap s) \<Longrightarrow> recv_buf s' = recv_buf s @ dat"
proof -
  define n where "n = length (recv_buf s) + length dat"
  have n: "n + w * 2 ^ 32 \<le> 2 ^ 61" using assms by (simp add: stream_room_def n_def)
  then have n': "n \<le> 2 ^ 61" by linarith
  have need: "(of_nat (length (recv_buf s)) + of_nat (length dat) :: u64) = of_nat n" by (simp add: n_def)
  have un: "unat (of_nat n :: u64) = n" using n' by (intro unat_of_nat_small) simp
  have cap: "0 < unat (recv_cap s)" "unat (recv_cap s) \<le> 2 ^ 62" using assms by (auto simp: stream_room_def)
  have gt: "of_nat n > recv_cap s \<longleftrightarrow> n > unat (recv_cap s)" by (simp add: word_less_nat_alt un)
  have small: "stream_room w s" using assms(1) by (rule stream_room_mono) simp
  obtain c where c: "(if of_nat n > recv_cap s then grow_cap (recv_cap s * 2) (of_nat n) else Some (recv_cap s)) = Some c"
    "0 < unat c" "unat c \<le> 2 ^ 62"
  proof (cases "of_nat n > recv_cap s")
    case True
    then have "unat (recv_cap s) < unat (of_nat n :: u64)" by (simp add: word_less_nat_alt)
    from grow_cap_some [OF cap(1) this] n' un obtain c where "grow_cap (recv_cap s * 2) (of_nat n) = Some c"
      "of_nat n \<le> c" "unat c < 2 * n" by auto
    then show thesis using True n' that [of c] un \<open>unat (recv_cap s) < _\<close> by (simp add: word_le_nat_alt)
  next
    case False
    then show thesis using that [of "recv_cap s"] cap by simp
  qed
  show thesis
  proof (cases "dat = [] \<or> (of_nat n > recv_cap s \<and> \<not> ok)")
    case True
    then have "mux_stream_push_data ok s dat = Some (NULL, s)"
      using c(1) unfolding mux_stream_push_data_def Let_def need by auto
    moreover have "recv_buf s = recv_buf s @ dat" if "ok \<or> length (recv_buf s) + length dat \<le> unat (recv_cap s)"
      using True that gt unfolding n_def [symmetric] by auto
    ultimately show thesis using small by (intro that) simp_all
  next
    case False
    define s' where "s' = s\<lparr>recv_cap := c, recv_buf := recv_buf s @ dat, recv_window := recv_window s - ucast (of_nat (length dat) :: u64), recv_waiter := NULL\<rparr>"
    have "mux_stream_push_data ok s dat = Some (recv_waiter s, s')"
      using False c(1) unfolding mux_stream_push_data_def Let_def need
      by (auto simp: mux_stream_detach_recv_def s'_def)
    moreover have "stream_room w s'" using c(2,3) n by (simp add: stream_room_def s'_def n_def)
    moreover have "recv_buf s' = recv_buf s @ dat" by (simp add: s'_def)
    ultimately show thesis by (rule that)
  qed
qed

lemma mux_push_payload_ok:
  assumes inv: "mux_inv (Suc w) m" and p: "p \<noteq> NULL" "smem m p \<noteq> None" and lb: "length bs \<le> unat n"
  obtains m' where "mux_push_payload m p n bs = Some m'" "keeps wt w m m'"
proof -
  obtain st where st: "smem m p = Some st" using p(2) by auto
  define am where "am = (if length (recv_buf st) + unat n > unat (recv_cap st) then alloc m else (p, m))"
  obtain b m1 where am: "am = (b, m1)" by fastforce
  have "\<exists>as. m1 = m\<lparr>allocs := as\<rparr>"
    using am alloc_fields [of m b m1] by (auto simp: am_def split: if_splits intro: exI [of _ "allocs m"])
  then obtain as where m1: "m1 = m\<lparr>allocs := as\<rparr>" ..
  have "length (payload_buf m1 n bs) = unat n" using lb by (simp add: payload_buf_def)
  then have len: "length (payload_buf m1 n bs) < 2 ^ 32" using unat_less [of n] by simp
  have "stream_room (Suc w) st" using inv st by (auto simp: mux_inv_def)
  then obtain co st' where push: "mux_stream_push_data (b \<noteq> NULL) st (payload_buf m1 n bs) = Some (co, st')"
    "stream_room w st'" by (rule push_data_room [OF _ len])
  have inv': "mux_inv w m" using inv by (rule mux_inv_mono) simp
  have "keeps wt w m1 (put_stream m1 p ([co], st'))"
    using put_stream_keeps [of w m1 p "([co], st')" wt] inv' push(2) st m1 by simp
  moreover have "keeps wt w m m1" using inv' m1 by (simp add: keeps_def)
  ultimately have "keeps wt w m (put_stream m1 p ([co], st'))" by (rule keeps_trans [rotated])
  moreover have "mux_push_payload m p n bs = Some (put_stream m1 p ([co], st'))"
    using p(1) st push(1) am unfolding am_def by (simp add: mux_push_payload_def load_Some)
  ultimately show thesis using that by blast
qed

lemma mux_handle_payload_ok:
  assumes fin: "finite_input wt (read_fn m) (write_fn m)" and inv: "mux_inv (Suc w) m"
    and p: "p \<noteq> NULL \<Longrightarrow> smem m p \<noteq> None"
  obtains rc m' where "mux_handle_payload m p hdr = Some (rc, m')" "keeps wt w m m'"
proof -
  have inv': "mux_inv w m" using inv by (rule mux_inv_mono) simp
  obtain a m1 where 1: "alloc m = (a, m1)" by fastforce
  obtain as where m1: "m1 = m\<lparr>allocs := as\<rparr>" using alloc_fields [OF 1] by blast
  have k1: "keeps wt w m m1" using inv' m1 by (simp add: keeps_def)
  consider "hdr_length hdr = 0" | "p = NULL" "hdr_length hdr > 0" | "p \<noteq> NULL" "hdr_length hdr > 0" "a = NULL"
    | "p \<noteq> NULL" "hdr_length hdr > 0" "a \<noteq> NULL" by (auto simp: word_gt_0)
  then show thesis
  proof cases
    case 1
    then show thesis using that keeps_refl [OF inv'] by (simp add: mux_handle_payload_def)
  next
    case 2
    obtain rc m2 where d: "discard_loop m (len_int (hdr_length hdr)) = (rc, m2)" by fastforce
    then show thesis using that 2 discard_loop_ok [OF fin d] keeps_transport [OF inv']
      by (auto simp: mux_handle_payload_def mux_discard_payload_def)
  next
    case 3
    then show thesis using that 1 k1 by (simp add: mux_handle_payload_def)
  next
    case 4
    obtain r m2 where rd: "mux_read_full m1 (len_int (hdr_length hdr)) = (r, m2)" by fastforce
    have "finite_input wt (read_fn m1) (write_fn m1)" using fin m1 by simp
    from mux_read_full_ok [OF this rd] obtain t where t: "m2 = m1\<lparr>transport_ctx := t\<rparr>" "wt t \<le> wt (transport_ctx m1)"
      "\<And>bs. r = Some bs \<Longrightarrow> length bs = nat (len_int (hdr_length hdr))" by auto
    have k2: "keeps wt w m m2" using keeps_trans [OF k1] keeps_transport [OF keepsD(1) [OF k1], of wt t] t by auto
    show thesis
    proof (cases r)
      case None
      then show thesis using that 4 1 rd k2 by (auto simp: mux_handle_payload_def)
    next
      case (Some bs)
      have "length bs \<le> unat (hdr_length hdr)" using t(3) [OF Some] by (simp add: len_int_def nat_sint_le)
      moreover have "mux_inv (Suc w) m2" "smem m2 p \<noteq> None" using inv p 4(1) m1 t(1) by simp_all
      ultimately obtain m3 where "mux_push_payload m2 p (hdr_length hdr) bs = Some m3" "keeps wt w m2 m3"
        using 4(1) mux_push_payload_ok by metis
      then show thesis using that 4 1 rd Some keeps_trans [OF k2] by (auto simp: mux_handle_payload_def)
    qed
  qed
qed

lemma keeps_fin: "keeps wt w m m' \<Longrightarrow> finite_input wt' (read_fn m') (write_fn m') = finite_input wt' (read_fn m) (write_fn m)"
  by (simp add: keeps_def same_session_def)

lemma put_loaded_keeps:
  assumes "mux_inv w m" "p \<noteq> NULL" "smem m p \<noteq> None" "\<And>s. stream_room w s \<Longrightarrow> stream_room w (snd (f s))"
  obtains s where "load (smem m) p = Some s" "keeps wt w m (put_stream m p (f s))"
proof -
  obtain s where s: "smem m p = Some s" using assms(3) by auto
  then have "stream_room w (snd (f s))" using assms(1,4) by (auto simp: mux_inv_def)
  then show thesis using that [of s] put_stream_keeps [OF assms(1,3)] s assms(2) by (simp add: load_def)
qed

lemma room_ops:
  "stream_room w s \<Longrightarrow> stream_room w (snd (mux_stream_notify_remote_fin s))"
  "stream_room w s \<Longrightarrow> stream_room w (snd (mux_stream_notify_reset s))"
  "stream_room w s \<Longrightarrow> stream_room w (snd (mux_stream_update_send_window s d))"
  by (auto simp: mux_stream_notify_remote_fin_def mux_stream_notify_reset_def mux_stream_update_send_window_def
        mux_stream_detach_recv_def mux_stream_detach_send_def Let_def)

lemma mux_handle_data_ok:
  assumes fin: "finite_input wt (read_fn m) (write_fn m)" and inv: "mux_inv (Suc w) m"
  obtains rc m' where "mux_handle_data m hdr = Some (rc, m')" "keeps wt w m m'"
proof -
  obtain q where q: "mux_find_stream m (stream_id hdr) = Some q" "q \<noteq> NULL \<Longrightarrow> smem m q \<noteq> None"
    using mux_find_stream_some [OF inv] by blast
  obtain p m1 where syn: "(if has_flag hdr MUX_FLAG_SYN then mux_accept_syn m (stream_id hdr) else Some (q, m)) = Some (p, m1)"
    and k1: "keeps wt (Suc w) m m1" and p1: "p \<noteq> NULL \<Longrightarrow> smem m1 p \<noteq> None"
  proof (cases "has_flag hdr MUX_FLAG_SYN")
    case True
    obtain p m1 where "mux_accept_syn m (stream_id hdr) = Some (p, m1)" "keeps wt (Suc w) m m1" "p \<noteq> NULL \<Longrightarrow> smem m1 p \<noteq> None"
      using mux_accept_syn_ok [OF inv] by blast
    then show thesis using that True by simp
  qed (use that [of q m] q(2) keeps_refl [OF inv] in simp_all)
  obtain rc m2 where pl: "mux_handle_payload m1 p hdr = Some (rc, m2)" and k2: "keeps wt w m1 m2"
    using mux_handle_payload_ok [OF _ keepsD(1) [OF k1] p1] fin keeps_fin [OF k1] by metis
  have p2: "p \<noteq> NULL \<Longrightarrow> smem m2 p \<noteq> None" using keepsD(2) [OF k2] p1 by blast
  obtain m3 where f3: "(if p \<noteq> NULL \<and> has_flag hdr MUX_FLAG_FIN
      then do { st \<leftarrow> load (smem m2) p; let (co, st) = mux_stream_notify_remote_fin st; Some (put_stream m2 p ([co], st)) }
      else Some m2) = Some m3" and k3: "keeps wt w m2 m3"
  proof (cases "p \<noteq> NULL \<and> has_flag hdr MUX_FLAG_FIN")
    case True
    then obtain s where "load (smem m2) p = Some s"
      "keeps wt w m2 (put_stream m2 p ([fst (mux_stream_notify_remote_fin s)], snd (mux_stream_notify_remote_fin s)))"
      using put_loaded_keeps [OF keepsD(1) [OF k2] _ p2, of "\<lambda>s. ([fst (mux_stream_notify_remote_fin s)], snd (mux_stream_notify_remote_fin s))"]
        room_ops(1) by (metis snd_conv)
    then show thesis using that True by (simp add: split_def Let_def)
  qed (use that keeps_refl [OF keepsD(1) [OF k2]] in auto)
  have p3: "p \<noteq> NULL \<Longrightarrow> smem m3 p \<noteq> None" using keepsD(2) [OF k3] p2 by blast
  obtain m4 where f4: "(if p \<noteq> NULL \<and> has_flag hdr MUX_FLAG_RST
      then do { st \<leftarrow> load (smem m3) p; Some (put_stream m3 p (mux_stream_notify_reset st)) }
      else Some m3) = Some m4" and k4: "keeps wt w m3 m4"
  proof (cases "p \<noteq> NULL \<and> has_flag hdr MUX_FLAG_RST")
    case True
    then obtain s where "load (smem m3) p = Some s" "keeps wt w m3 (put_stream m3 p (mux_stream_notify_reset s))"
      using put_loaded_keeps [OF keepsD(1) [OF k3] _ p3] room_ops(2) by metis
    then show thesis using that True by simp
  qed (use that keeps_refl [OF keepsD(1) [OF k3]] in auto)
  have "keeps wt w m m2" "keeps wt w m m4" using keeps_trans [OF k1 k2] k3 k4 by (auto intro: keeps_trans)
  moreover have "mux_handle_data m hdr = Some (if rc \<noteq> 0 then (-1, m2) else (0, m4))"
    unfolding mux_handle_data_def q(1) bind.bind_lunit syn prod.case pl using f3 f4 by auto
  ultimately show thesis by (cases "rc \<noteq> 0") (auto intro: that)
qed

lemma mux_handle_window_update_ok:
  assumes inv: "mux_inv w m"
  obtains m' where "mux_handle_window_update m hdr = Some m'" "keeps wt w m m'"
proof -
  obtain m1 where syn: "(if has_flag hdr MUX_FLAG_SYN then do { (_, m) \<leftarrow> mux_accept_syn m (stream_id hdr); Some m } else Some m) = Some m1"
    and k1: "keeps wt w m m1"
  proof (cases "has_flag hdr MUX_FLAG_SYN")
    case True
    obtain p m1 where "mux_accept_syn m (stream_id hdr) = Some (p, m1)" "keeps wt w m m1"
      using mux_accept_syn_ok [OF inv] by blast
    then show thesis using that True by simp
  qed (use that [of m] keeps_refl [OF inv] in simp_all)
  obtain p where p: "mux_find_stream m1 (stream_id hdr) = Some p" "p \<noteq> NULL \<Longrightarrow> smem m1 p \<noteq> None"
    using mux_find_stream_some [OF keepsD(1) [OF k1]] by blast
  let ?f = "\<lambda>s. ([fst (mux_stream_update_send_window s (hdr_length hdr))], snd (mux_stream_update_send_window s (hdr_length hdr)))"
  show thesis
  proof (cases "p = NULL")
    case True
    then show thesis using that k1 p syn by (simp add: mux_handle_window_update_def)
  next
    case False
    then obtain s where "load (smem m1) p = Some s" "keeps wt w m1 (put_stream m1 p (?f s))"
      using put_loaded_keeps [OF keepsD(1) [OF k1] _ p(2), of ?f] room_ops(3) by (metis snd_conv)
    then show thesis using that [of "put_stream m1 p (?f s)"] keeps_trans [OF k1] p(1) False syn
      unfolding mux_handle_window_update_def by (auto simp: split_def Let_def)
  qed
qed

lemma mux_dispatch_ok:
  assumes fin: "finite_input wt (read_fn m) (write_fn m)" and inv: "mux_inv (Suc w) m"
  obtains rc m' where "mux_dispatch m hdr = Some (rc, m')" "keeps wt w m m'"
proof -
  have inv': "mux_inv w m" using inv by (rule mux_inv_mono) simp
  obtain rc1 m1 where d: "mux_handle_data m hdr = Some (rc1, m1)" "keeps wt w m m1"
    using mux_handle_data_ok [OF fin inv] by blast
  obtain m2 where u: "mux_handle_window_update m hdr = Some m2" "keeps wt w m m2"
    using mux_handle_window_update_ok [OF inv'] by blast
  have pong: "keeps wt w m (mux_handle_ping m hdr)"
  proof (cases "has_flag hdr MUX_FLAG_ACK")
    case False
    obtain rc m3 where wr: "mux_write_frame m
        \<lparr>version = 0, hdr_type = MUX_TYPE_PING, flags = MUX_FLAG_ACK, stream_id = 0, hdr_length = hdr_length hdr\<rparr> None = (rc, m3)"
      by fastforce
    then show ?thesis using mux_write_frame_ok [OF fin wr] keeps_transport [OF inv'] False
      by (auto simp: mux_handle_ping_def)
  qed (simp add: mux_handle_ping_def keeps_refl inv')
  have "\<exists>rc m'. mux_dispatch m hdr = Some (rc, m') \<and> keeps wt w m m'"
    using d u pong keeps_refl [OF inv'] by (auto simp: mux_dispatch_def)
  then show thesis using that by blast
qed

subsection \<open>The end of the reader\<close>

lemma reader_loop_ends:
  assumes "finite_input wt (read_fn m) (write_fn m)" "mux_inv (wt (transport_ctx m)) m"
  shows "\<exists>m'. reader_loop m = Some m' \<and> keeps wt (wt (transport_ctx m')) m m'"
  using assms
proof (induction "wt (transport_ctx m)" arbitrary: m rule: less_induct)
  case less
  obtain r m1 where rd: "mux_read_full m 12 = (r, m1)" by fastforce
  obtain t where t: "m1 = m\<lparr>transport_ctx := t\<rparr>" "wt t \<le> wt (transport_ctx m)"
    "\<And>bs. r = Some bs \<Longrightarrow> wt t < wt (transport_ctx m)"
    using mux_read_full_ok [OF less.prems(1) rd] by auto
  have k1: "keeps wt (wt (transport_ctx m1)) m m1"
    using less.prems(2) t(1,2) by (auto simp: keeps_def intro: mux_inv_mono)
  show ?case
  proof (cases "mux_closed m \<or> r = None \<or> version (mux_frame_decode (the r)) \<noteq> 0")
    case True
    have "keeps wt (wt (transport_ctx m)) m m" using less.prems(2) by (rule keeps_refl)
    then show ?thesis using True k1 rd by (subst reader_loop.simps) (auto split: option.split)
  next
    case False
    then obtain buf where buf: "r = Some buf" by auto
    have "mux_inv (Suc (wt t)) m1"
      using mux_inv_mono [OF less.prems(2), of "Suc (wt t)"] t(1) t(3) [OF buf] by simp
    moreover have "finite_input wt (read_fn m1) (write_fn m1)" using less.prems(1) t(1) by simp
    ultimately obtain rc m2 where d: "mux_dispatch m1 (mux_frame_decode buf) = Some (rc, m2)" and k2: "keeps wt (wt t) m1 m2"
      using mux_dispatch_ok by metis
    have le: "wt (transport_ctx m2) \<le> wt t" using k2 t(1) by (simp add: keeps_def)
    have inv2: "mux_inv (wt (transport_ctx m2)) m2" using keepsD(1) [OF k2] le by (rule mux_inv_mono)
    have k: "keeps wt (wt (transport_ctx m2)) m m2"
      using keeps_trans [OF k1 k2] inv2 by (simp add: keeps_def)
    show ?thesis
    proof (cases "rc = 0")
      case True
      have "\<exists>m'. reader_loop m2 = Some m' \<and> keeps wt (wt (transport_ctx m')) m2 m'"
        using le t(3) [OF buf] inv2 less.prems(1) keeps_fin [OF k] by (intro less.hyps) simp_all
      then show ?thesis using True False buf rd d keeps_trans [OF k] by (subst reader_loop.simps) auto
    next
      case False
      then show ?thesis using \<open>\<not> (mux_closed m \<or> _ \<or> _)\<close> buf rd d k by (subst reader_loop.simps) auto
    qed
  qed
qed

lemma reset_streams_shut:
  assumes "\<forall>p\<in>set ps. p \<noteq> NULL \<longrightarrow> smem m p \<noteq> None"
  shows "\<exists>m'. reset_streams m ps = Some m' \<and> streams m' = streams m \<and> accept_closed m' = accept_closed m \<and>
    mux_closed m' = mux_closed m \<and> (\<forall>p s. smem m p = Some s \<longrightarrow> shut_down s \<longrightarrow> (\<exists>s. smem m' p = Some s \<and> shut_down s)) \<and>
    (\<forall>p\<in>set ps. p \<noteq> NULL \<longrightarrow> (\<exists>s. smem m' p = Some s \<and> shut_down s))"
  using assms
proof (induction ps arbitrary: m)
  case (Cons p ps)
  show ?case
  proof (cases "p = NULL")
    case False
    then obtain s where s: "smem m p = Some s" using Cons.prems by auto
    let ?x = "mux_stream_notify_reset s"
    have shut: "shut_down (snd ?x)"
      by (simp add: shut_down_def mux_stream_notify_reset_def mux_stream_detach_recv_def mux_stream_detach_send_def Let_def)
    obtain r where r: "put_stream m p ?x = m\<lparr>smem := (smem m)(p \<mapsto> snd ?x), ready := r\<rparr>" using put_stream_fields by blast
    have "\<forall>q\<in>set ps. q \<noteq> NULL \<longrightarrow> smem (put_stream m p ?x) q \<noteq> None" using Cons.prems by (simp add: r)
    from Cons.IH [OF this] obtain m' where m': "reset_streams (put_stream m p ?x) ps = Some m'" "streams m' = streams m"
      "accept_closed m' = accept_closed m" "mux_closed m' = mux_closed m"
      "\<And>q s. ((smem m)(p \<mapsto> snd ?x)) q = Some s \<Longrightarrow> shut_down s \<Longrightarrow> \<exists>s. smem m' q = Some s \<and> shut_down s"
      "\<forall>q\<in>set ps. q \<noteq> NULL \<longrightarrow> (\<exists>s. smem m' q = Some s \<and> shut_down s)" by (auto simp: r)
    have p: "\<exists>s. smem m' p = Some s \<and> shut_down s" using m'(5) [of p] shut by simp
    have "\<exists>s. smem m' q = Some s \<and> shut_down s" if "smem m q = Some s'" "shut_down s'" for q s'
      using m'(5) [of q s'] that p by (cases "q = p") auto
    then show ?thesis using m' p s False by (auto simp: load_def)
  qed (use Cons in auto)
qed simp

lemma mux_teardown_shut:
  assumes "mux_inv w m" "\<not> mux_closed m"
  shows "\<exists>m'. mux_teardown locked m = Some m' \<and> mux_closed m' \<and> accept_closed m' \<and> reader_done m' \<and>
    (\<forall>p\<in>set (streams m'). p \<noteq> NULL \<longrightarrow> (\<exists>s. smem m' p = Some s \<and> shut_down s))"
proof -
  let ?m = "m\<lparr>mux_closed := True\<rparr>"
  have "\<forall>p\<in>set (streams m). p \<noteq> NULL \<longrightarrow> smem ?m p \<noteq> None" using assms(1) by (simp add: mux_inv_def)
  from reset_streams_shut [OF this] obtain m1 where m1: "reset_streams ?m (streams m) = Some m1" "streams m1 = streams m"
    "accept_closed m1 = accept_closed m" "mux_closed m1"
    "\<forall>p\<in>set (streams m). p \<noteq> NULL \<longrightarrow> (\<exists>s. smem m1 p = Some s \<and> shut_down s)" by auto
  have "\<exists>t. snd (mux_write_frame_try locked m1 hdr None) = m1\<lparr>transport_ctx := t\<rparr>" for hdr
  proof (cases locked)
    case False
    then show ?thesis by (intro exI [of _ "transport_ctx m1"]) (simp add: mux_write_frame_try_def)
  next
    case True
    then show ?thesis by (auto simp: mux_write_frame_try_def mux_write_frame_def split_def Let_def)
  qed
  then obtain t where "snd (mux_write_frame_try locked m1
     \<lparr>version = 0, hdr_type = MUX_TYPE_GO_AWAY, flags = 0, stream_id = 0, hdr_length = 0\<rparr> None) = m1\<lparr>transport_ctx := t\<rparr>" by blast
  then show ?thesis using m1 assms by (simp add: mux_teardown_def mux_close_session_def mux_reset_streams_def mux_inv_def Let_def)
qed

subsection \<open>The reader always finishes\<close>


subsection \<open>Credit of a new stream\<close>

lemma find_stream_none:
  "\<forall>q\<in>set ps. q \<noteq> NULL \<longrightarrow> (\<exists>s. h q = Some s \<and> id s \<noteq> i) \<Longrightarrow> find_stream h (ps @ qs) i = find_stream h qs i"
  by (induction ps) (auto simp: load_def)

text \<open>C22. A SYN frame for a stream that the session does not know, as \<open>xylem_mux_open_stream\<close> of the peer sends
  it, creates the stream and hands it to the accepting side with two references, and gives it the credit
  \<open>max_stream_window + length\<close>: the announced window of the peer is added to the initial window instead
  of replacing it, so the new side may send more than the peer announced.\<close>

theorem mux_syn_credit:
  assumes "\<not> mux_closed m" "\<not> accept_closed m"
    "\<forall>q\<in>set (streams m). q \<noteq> NULL \<longrightarrow> (\<exists>s. smem m q = Some s \<and> id s \<noteq> stream_id hdr)"
    "allocs m = p # b # c # as" "p \<noteq> NULL" "b \<noteq> NULL" "c \<noteq> NULL" "smem m p = None"
    "length (streams m) < stream_cap m" "has_flag hdr MUX_FLAG_SYN"
  shows "\<exists>m' s. mux_handle_window_update m hdr = Some m' \<and> mux_find_stream m' (stream_id hdr) = Some p \<and>
    accept_ch m' = accept_ch m @ [p] \<and> smem m' p = Some s \<and> state s = MUX_STREAM_ESTABLISHED \<and> refcnt s = 2 \<and>
    recv_window s = max_stream_window m \<and> send_window s = max_stream_window m + hdr_length hdr"
proof -
  let ?i = "stream_id hdr"
  define s where "s = \<lparr>id = ?i, state = MUX_STREAM_ESTABLISHED, recv_buf = [], recv_cap = ucast (max_stream_window m),
        recv_window = max_stream_window m, recv_waiter = NULL, send_window = max_stream_window m, send_waiter = NULL,
        rd_deadline = 0, wr_deadline = 0, closed = False, refcnt = 2\<rparr>"
  define m1 where "m1 = m\<lparr>allocs := as, smem := (smem m)(p \<mapsto> s), streams := streams m @ [p], accept_ch := accept_ch m @ [p]\<rparr>"
  have none: "mux_find_stream m ?i = Some NULL"
    using find_stream_none [OF assms(3), of "[]"] by (simp add: mux_find_stream_def)
  have syn: "mux_accept_syn m ?i = Some (p, m1)"
    using assms none
    by (simp add: mux_accept_syn_def mux_new_stream_def alloc_def mux_stream_create_def modify_Some mux_stream_ref_def
        mux_add_stream_def accept_send_def m1_def s_def)
  have found: "find_stream ((smem m)(p \<mapsto> s')) (streams m @ [p]) ?i = Some p" if "id s' = ?i" for s'
  proof -
    have "\<forall>q\<in>set (streams m). q \<noteq> NULL \<longrightarrow> (\<exists>s''. ((smem m)(p \<mapsto> s')) q = Some s'' \<and> id s'' \<noteq> ?i)"
      using assms(3,8) by auto
    from find_stream_none [of "streams m" "(smem m)(p \<mapsto> s')", OF this, of "[p]"] show ?thesis
      using assms(5) that by (simp add: load_def)
  qed
  define s1 where "s1 = s\<lparr>send_window := send_window s + hdr_length hdr\<rparr>"
  have "mux_handle_window_update m hdr = Some (m1\<lparr>smem := (smem m)(p \<mapsto> s1)\<rparr>)"
    using syn found [of s] assms(5,10)
    by (simp add: mux_handle_window_update_def mux_find_stream_def m1_def s_def s1_def load_def put_stream_def
        coro_ready_def mux_stream_update_send_window_def mux_stream_detach_send_def)
  then show ?thesis using found [of s1]
    by (auto simp: m1_def s1_def s_def mux_find_stream_def intro!: exI [of _ s1])
qed

subsection \<open>Oversized frames\<close>

lemma sint_neg:
  assumes "2 ^ 31 \<le> unat (n :: u32)"
  shows "sint n \<le> 0"
proof (rule ccontr)
  assume "\<not> sint n \<le> 0"
  moreover have lt: "sint n < 2 ^ 31" using sint_lt [of n] by simp
  ultimately have "take_bit 32 (sint n) = sint n" by (intro take_bit_int_eq_self) auto
  moreover have "uint n = take_bit 32 (sint n)" by transfer (simp add: take_bit_signed_take_bit)
  ultimately have "uint n = sint n" by (rule trans [rotated])
  then have "uint n < 2 ^ 31" using lt by simp
  moreover have "2 ^ 31 \<le> uint n" using assms by (simp add: le_nat_iff flip: nat_uint_eq)
  ultimately show False by simp
qed

text \<open>C23. A data frame that announces \<open>2 ^ 31\<close> bytes or more: the length becomes a negative \<open>int\<close>, nothing is read
  from the transport, and the stream receives as many bytes of uninitialised memory as announced.\<close>

theorem mux_oversized_frame:
  assumes "p \<noteq> NULL" "smem m p = Some s" "stream_room 1 s" "2 ^ 31 \<le> unat (hdr_length hdr)"
    "allocs m = a # b # as" "a \<noteq> NULL" "b \<noteq> NULL"
  shows "\<exists>m' s'. mux_handle_payload m p hdr = Some (0, m') \<and> transport_ctx m' = transport_ctx m \<and>
    smem m' p = Some s' \<and> recv_buf s' = recv_buf s @ replicate (unat (hdr_length hdr)) (junk m)"
proof -
  let ?n = "hdr_length hdr"
  have "sint ?n \<le> 0" using assms(4) by (rule sint_neg)
  then have read: "mux_read_full m' (len_int ?n) = (Some [], m')" for m' :: "'a mux"
    by (simp add: mux_read_full.simps [of m'] len_int_def)
  have pos: "?n > 0" using assms(4) by (auto simp: word_gt_0)
  have pl: "payload_buf m' ?n [] = replicate (unat ?n) (junk m')" for m' :: "'a mux" by (simp add: payload_buf_def)
  have len: "length (replicate (unat ?n) (junk m)) < 2 ^ 32" using unat_less [of ?n] by simp
  have room: "stream_room (Suc 0) s" using assms(3) by simp
  obtain co s' where push: "mux_stream_push_data True s (replicate (unat ?n) (junk m)) = Some (co, s')"
    "recv_buf s' = recv_buf s @ replicate (unat ?n) (junk m)"
    using push_data_room [OF room len] by metis
  define as' where "as' = (if length (recv_buf s) + unat ?n > unat (recv_cap s) then as else b # as)"
  have "mux_push_payload (m\<lparr>allocs := b # as\<rparr>) p ?n [] = Some (put_stream (m\<lparr>allocs := as'\<rparr>) p ([co], s'))"
    using assms(1,2,7) push(1) by (simp add: mux_push_payload_def load_def alloc_def pl as'_def Let_def)
  then have "mux_handle_payload m p hdr = Some (0, put_stream (m\<lparr>allocs := as'\<rparr>) p ([co], s'))"
    using assms(1,5,6) pos read by (simp add: mux_handle_payload_def alloc_def)
  moreover obtain r where "put_stream (m\<lparr>allocs := as'\<rparr>) p ([co], s') = m\<lparr>allocs := as', smem := (smem m)(p \<mapsto> s'), ready := r\<rparr>"
    using put_stream_fields [of "m\<lparr>allocs := as'\<rparr>" p "([co], s')"] by auto
  ultimately show ?thesis using push(2) by simp
qed

subsection \<open>Writing\<close>

lemma write_round_chunk:
  assumes "mux_write_round s (length dat) = WriteChunk c" "dat \<noteq> []" "length dat < 2 ^ 31"
  shows "0 < unat c" "unat c \<le> length dat" "unat c \<le> unat (send_window s)" "unat c \<le> 65535"
    "\<not> closed s" "state s \<noteq> MUX_STREAM_CLOSED"
proof -
  have u: "unat (of_nat (length dat) :: u32) = length dat" using assms(3) by (intro unat_of_nat_small) simp
  have w: "unat (send_window s) \<noteq> 0 \<longleftrightarrow> send_window s \<noteq> 0" by (simp add: unat_eq_zero)
  show "0 < unat c" "unat c \<le> length dat" "unat c \<le> unat (send_window s)" "unat c \<le> 65535"
    "\<not> closed s" "state s \<noteq> MUX_STREAM_CLOSED"
    using assms(1,2) u w by (auto simp: mux_write_round_def Let_def word_less_nat_alt split: if_splits)
qed

lemma write_frame_data:
  assumes "takes_all out (write_fn m)" "0 < unat c" "unat c \<le> length dat"
  shows "\<exists>t. mux_write_frame m \<lparr>version = 0, hdr_type = MUX_TYPE_DATA, flags = 0, stream_id = i, hdr_length = c\<rparr> (Some dat) =
    (0, m\<lparr>transport_ctx := t\<rparr>) \<and> out t = out (transport_ctx m) @ data_frame i (take (unat c) dat)"
proof -
  let ?hdr = "\<lparr>version = 0, hdr_type = MUX_TYPE_DATA, flags = 0, stream_id = i, hdr_length = c\<rparr>"
  obtain t1 where 1: "write_fn m (transport_ctx m) (mux_frame_encode ?hdr) = (0, t1)"
    "out t1 = out (transport_ctx m) @ mux_frame_encode ?hdr"
    using assms(1) unfolding takes_all_def by (metis prod.collapse)
  obtain t2 where 2: "write_fn m t1 (take (unat c) dat) = (0, t2)" "out t2 = out t1 @ take (unat c) dat"
    using assms(1) unfolding takes_all_def by (metis prod.collapse)
  have "0 < c" using assms(2) by (simp add: word_less_nat_alt)
  then show ?thesis using 1 2 assms(3) by (intro exI [of _ t2]) (simp add: mux_write_frame_def data_frame_def min_absorb2)
qed

lemma mux_write_loop_credit:
  assumes "takes_all out (write_fn m)" "p \<noteq> NULL" "smem m p = Some s" "\<not> closed s" "state s \<noteq> MUX_STREAM_CLOSED"
    "send_waiter s = NULL" "length dat < 2 ^ 31"
  shows "\<exists>io chunks rem m' s'. mux_write_loop m p co dat = Some (io, rem, m') \<and> smem m' p = Some s' \<and>
    dat = concat chunks @ rem \<and> (\<forall>c\<in>set chunks. 0 < length c \<and> length c \<le> 65535) \<and>
    out (transport_ctx m') = out (transport_ctx m) @ concat (map (data_frame (id s)) chunks) \<and>
    length (concat chunks) + unat (send_window s') = unat (send_window s) \<and>
    (io = Returned 0 [] \<and> rem = [] \<or> io = Parked \<and> rem \<noteq> [] \<and> send_window s' = 0 \<and> send_waiter s' = co)"
  using assms
proof (induction "length dat" arbitrary: dat m s rule: less_induct)
  case less
  show ?case
  proof (cases "dat = []")
    case True
    then show ?thesis using less.prems(3) by (auto simp: mux_write_loop.simps intro!: exI [of _ "[]"])
  next
    case False
    show ?thesis
    proof (cases "mux_write_round s (length dat)")
      case WriteClosed
      then show ?thesis using less.prems by (auto simp: mux_write_round_def Let_def split: if_splits)
    next
      case WritePark
      then have 0: "send_window s = 0" using less.prems by (auto simp: mux_write_round_def Let_def split: if_splits)
      have "mux_write_loop m p co dat = Some (Parked, dat, m\<lparr>smem := (smem m)(p \<mapsto> s\<lparr>send_waiter := co\<rparr>)\<rparr>)"
        using WritePark False less.prems 0 by (simp add: mux_write_loop.simps load_def mux_send_wait_commit_cb_def)
      then show ?thesis using False 0 by (intro exI [of _ Parked] exI [of _ "[]"] exI [of _ dat]) simp
    next
      case (WriteChunk c)
      note ch = write_round_chunk [OF WriteChunk False less.prems(7)]
      obtain t where t: "mux_write_frame m \<lparr>version = 0, hdr_type = MUX_TYPE_DATA, flags = 0, stream_id = id s, hdr_length = c\<rparr> (Some dat) =
        (0, m\<lparr>transport_ctx := t\<rparr>)" "out t = out (transport_ctx m) @ data_frame (id s) (take (unat c) dat)"
        using write_frame_data [OF less.prems(1) ch(1,2)] by blast
      define s1 where "s1 = mux_write_sent s c"
      define m1 where "m1 = m\<lparr>transport_ctx := t, smem := (smem m)(p \<mapsto> s1)\<rparr>"
      have loop: "mux_write_loop m p co dat = mux_write_loop m1 p co (drop (unat c) dat)"
        using WriteChunk False less.prems(2,3) t(1) ch(1)
        by (subst mux_write_loop.simps) (simp add: load_def write_chunk_def modify_def m1_def s1_def)
      have win: "unat (send_window s1) = unat (send_window s) - unat c"
        using ch(3) by (simp add: s1_def mux_write_sent_def unat_sub word_le_nat_alt)
      have s1: "id s1 = id s" "closed s1 = closed s" "state s1 = state s" "send_waiter s1 = send_waiter s"
        by (simp_all add: s1_def mux_write_sent_def)
      have "\<exists>io chunks rem m' s'. mux_write_loop m1 p co (drop (unat c) dat) = Some (io, rem, m') \<and> smem m' p = Some s' \<and>
        drop (unat c) dat = concat chunks @ rem \<and> (\<forall>c\<in>set chunks. 0 < length c \<and> length c \<le> 65535) \<and>
        out (transport_ctx m') = out (transport_ctx m1) @ concat (map (data_frame (id s1)) chunks) \<and>
        length (concat chunks) + unat (send_window s') = unat (send_window s1) \<and>
        (io = Returned 0 [] \<and> rem = [] \<or> io = Parked \<and> rem \<noteq> [] \<and> send_window s' = 0 \<and> send_waiter s' = co)"
        using less.prems False ch(1) s1 by (intro less.hyps) (simp_all add: m1_def)
      then obtain io chunks rem m' s' where r: "mux_write_loop m1 p co (drop (unat c) dat) = Some (io, rem, m')" "smem m' p = Some s'"
        "drop (unat c) dat = concat chunks @ rem" "\<forall>c\<in>set chunks. 0 < length c \<and> length c \<le> 65535"
        "out (transport_ctx m') = out (transport_ctx m1) @ concat (map (data_frame (id s1)) chunks)"
        "length (concat chunks) + unat (send_window s') = unat (send_window s1)"
        "io = Returned 0 [] \<and> rem = [] \<or> io = Parked \<and> rem \<noteq> [] \<and> send_window s' = 0 \<and> send_waiter s' = co"
        by blast
      have "out (transport_ctx m') = out t @ concat (map (data_frame (id s)) chunks)" using r(5) by (simp add: m1_def s1(1))
      moreover have d: "dat = concat (take (unat c) dat # chunks) @ rem" using r(3) append_take_drop_id [of "unat c" dat] by simp
      moreover have "unat c + length (concat chunks) + unat (send_window s') = unat (send_window s)"
        using r(6) win ch(3) by linarith
      ultimately show ?thesis
        using r(1,2,4,7) t(2) ch(1,2,4) loop False
        by (intro exI [of _ io] exI [of _ "take (unat c) dat # chunks"] exI [of _ rem] exI [of _ m'] exI [of _ s']) (simp add: min_absorb2)
    qed
  qed
qed

text \<open>C21. Writing to an open stream over a transport that takes every write: what is sent is a prefix of the data,
  in data frames of at most 65535 bytes, and it uses exactly as much of the credit as it has bytes,
  never more than the credit; the call returns 0 with everything sent, or parks with no credit left.\<close>

theorem mux_write_within_credit:
  assumes "takes_all out (write_fn m)" "p \<noteq> NULL" "smem m p = Some s" "\<not> closed s" "state s \<noteq> MUX_STREAM_CLOSED"
    "send_waiter s = NULL" "length dat < 2 ^ 31"
  shows "\<exists>io chunks rem m' s'. xylem_mux_write m p co (Some dat) (int (length dat)) = Some (io, rem, m') \<and> smem m' p = Some s' \<and>
    dat = concat chunks @ rem \<and> (\<forall>c\<in>set chunks. 0 < length c \<and> length c \<le> 65535) \<and>
    out (transport_ctx m') = out (transport_ctx m) @ concat (map (data_frame (id s)) chunks) \<and>
    length (concat chunks) + unat (send_window s') = unat (send_window s) \<and>
    (io = Returned 0 [] \<and> rem = [] \<or> io = Parked \<and> rem \<noteq> [] \<and> send_window s' = 0 \<and> send_waiter s' = co)"
  using mux_write_loop_credit [OF assms, of co] assms(3)
  by (cases "dat = []") (simp_all add: xylem_mux_write_def mux_write_loop.simps)

subsection \<open>Instances\<close>

lemma buffered_transport:
  "finite_input (length \<circ> fst) buf_read buf_write" "takes_all snd buf_write"
  by (auto simp: finite_input_def takes_all_def buf_read_def buf_write_def Let_def min_def split: if_splits)


theorem mux_syn_credit_witness:
  "\<exists>m' s. mux_handle_window_update (buf_session [] [16, 32, 48]\<lparr>stream_cap := 16\<rparr>)
      \<lparr>version = 0, hdr_type = 1, flags = 1, stream_id = 1, hdr_length = 65536\<rparr> = Some m' \<and>
    smem m' 16 = Some s \<and> recv_window s = 262144 \<and> send_window s = 262144 + 65536"
  using mux_syn_credit [of "buf_session [] [16, 32, 48]\<lparr>stream_cap := 16\<rparr>"
      "\<lparr>version = 0, hdr_type = 1, flags = 1, stream_id = 1, hdr_length = 65536\<rparr>" 16 32 48 "[]"]
  by (auto simp: buf_session_def has_flag_def MUX_FLAG_SYN_def)

theorem mux_oversized_frame_witness:
  "\<exists>m' s'. mux_handle_payload (buf_session [1, 2, 3] [64, 80]\<lparr>smem := [16 \<mapsto> \<lparr>id = 1, state = MUX_STREAM_ESTABLISHED,
        recv_buf = [], recv_cap = 8, recv_window = 8, recv_waiter = NULL, send_window = 8, send_waiter = NULL,
        rd_deadline = 0, wr_deadline = 0, closed = False, refcnt = 2\<rparr>]\<rparr>) 16
      \<lparr>version = 0, hdr_type = 0, flags = 0, stream_id = 1, hdr_length = 0x80000000\<rparr> = Some (0, m') \<and>
    transport_ctx m' = ([1, 2, 3], []) \<and> smem m' 16 = Some s' \<and> length (recv_buf s') = 2 ^ 31"
proof -
  define s :: mux_stream where "s = \<lparr>id = 1, state = MUX_STREAM_ESTABLISHED,
        recv_buf = [], recv_cap = 8, recv_window = 8, recv_waiter = NULL, send_window = 8, send_waiter = NULL,
        rd_deadline = 0, wr_deadline = 0, closed = False, refcnt = 2\<rparr>"
  have room: "stream_room 1 s" by (simp add: stream_room_def s_def)
  show ?thesis unfolding s_def [symmetric]
    using mux_oversized_frame [of 16 "buf_session [1, 2, 3] [64, 80]\<lparr>smem := [16 \<mapsto> s]\<rparr>" s
        "\<lparr>version = 0, hdr_type = 0, flags = 0, stream_id = 1, hdr_length = 0x80000000\<rparr>" 64 80 "[]"] room
    by (auto simp: buf_session_def s_def)
qed

theorem mux_write_within_credit_witness:
  "\<exists>rem m'. xylem_mux_write (buf_session [] []\<lparr>smem := [16 \<mapsto> \<lparr>id = 1, state = MUX_STREAM_ESTABLISHED,
        recv_buf = [], recv_cap = 8, recv_window = 8, recv_waiter = NULL, send_window = 2, send_waiter = NULL,
        rd_deadline = 0, wr_deadline = 0, closed = False, refcnt = 2\<rparr>]\<rparr>) 16 77 (Some [1, 2, 3]) 3 = Some (Parked, rem, m') \<and> length rem = 1"
proof -
  define s :: mux_stream where "s = \<lparr>id = 1, state = MUX_STREAM_ESTABLISHED,
        recv_buf = [], recv_cap = 8, recv_window = 8, recv_waiter = NULL, send_window = 2, send_waiter = NULL,
        rd_deadline = 0, wr_deadline = 0, closed = False, refcnt = 2\<rparr>"
  have sw: "unat (send_window s) = 2" by (simp add: s_def)
  have h: "takes_all snd (write_fn (buf_session [] []\<lparr>smem := [16 \<mapsto> s]\<rparr>))" "\<not> closed s" "state s \<noteq> MUX_STREAM_CLOSED"
    "send_waiter s = NULL" "(16 :: ptr) \<noteq> NULL" "smem (buf_session [] []\<lparr>smem := [16 \<mapsto> s]\<rparr>) 16 = Some s"
    "length [1, 2, 3 :: u8] < 2 ^ 31" using buffered_transport(2) by (simp_all add: buf_session_def s_def)
  have len: "int (length [1, 2, 3 :: u8]) = 3" by simp
  obtain io chunks rem m' and s' :: mux_stream where r: "xylem_mux_write (buf_session [] []\<lparr>smem := [16 \<mapsto> s]\<rparr>) 16 77 (Some [1, 2, 3]) 3 = Some (io, rem, m')"
    "[1, 2, 3] = concat chunks @ rem" "length (concat chunks) + unat (send_window s') = unat (send_window s)"
    "io = Returned 0 [] \<and> rem = [] \<or> io = Parked \<and> rem \<noteq> [] \<and> send_window s' = 0 \<and> send_waiter s' = 77"
    using mux_write_within_credit [OF h(1) h(5,6) h(2-4) h(7), of 77] unfolding len by blast
  have "length (concat chunks) + length rem = 3" using arg_cong [OF r(2), of length] by simp
  then show ?thesis using r(1,3,4) sw unfolding s_def [symmetric] by auto
qed

end
