(* ===== verification/Ring.thy ===== *)
theory Ring
  imports Word_Bits
begin

text \<open>
  What the ring containers share: a power-of-two number of slots, positions that run freely through all 64-bit
  values, and the slot of a position found with a mask. \<open>ring_list slots p n\<close> is the list of the \<open>n\<close> elements
  from position \<open>p\<close> on.
\<close>

definition ring_list :: "'a list \<Rightarrow> nat \<Rightarrow> nat \<Rightarrow> 'a list" where
  "ring_list slots p n = map (\<lambda>i. slots ! ((p + i) mod length slots)) [0..<n]"

named_theorems ring_simps \<open>positions and slots of a ring\<close>

lemma length_ring_list [simp]: "length (ring_list slots p n) = n"
  by (simp add: ring_list_def)

lemma ring_list_0 [simp]: "ring_list slots p 0 = []"
  by (simp add: ring_list_def)

lemma nth_ring_list: "i < n \<Longrightarrow> ring_list slots p n ! i = slots ! ((p + i) mod length slots)"
  by (simp add: ring_list_def)

lemma ring_list_mod: "p mod length slots = q mod length slots \<Longrightarrow> ring_list slots p n = ring_list slots q n"
  unfolding ring_list_def by (rule map_cong) (auto intro!: arg_cong [of _ _ "nth slots"] mod_add_cong)

lemma ring_list_Suc: "ring_list slots p (Suc n) = slots ! (p mod length slots) # ring_list slots (p + 1) n"
  by (rule nth_equalityI) (auto simp: nth_ring_list nth_Cons split: nat.split)

lemma ring_list_add: "ring_list slots p (m + n) = ring_list slots p m @ ring_list slots (p + m) n"
  by (rule nth_equalityI) (auto simp: nth_ring_list nth_append)

lemma take_ring_list: "m \<le> n \<Longrightarrow> take m (ring_list slots p n) = ring_list slots p m"
  by (rule nth_equalityI) (auto simp: nth_ring_list)

lemma drop_ring_list: "m \<le> n \<Longrightarrow> drop m (ring_list slots p n) = ring_list slots (p + m) (n - m)"
  by (rule nth_equalityI) (auto simp: nth_ring_list add.assoc)

text \<open>Positions less than a round apart have different slots.\<close>

lemma ring_slots_differ:
  assumes "i < n" "n < (c :: nat)"
  shows "(p + i) mod c \<noteq> (p + n) mod c"
proof
  assume "(p + i) mod c = (p + n) mod c"
  then have "c dvd (p + n) - (p + i)" using assms by (intro mod_eq_dvd_iff_nat [THEN iffD1]) auto
  then have "c dvd n - i" by simp
  then show False using assms by (auto dest: dvd_imp_le)
qed

text \<open>Writing the slot after the last element appends it.\<close>

lemma ring_list_push:
  assumes "n < length slots"
  shows "ring_list (slots[(p + n) mod length slots := x]) p (Suc n) = ring_list slots p n @ [x]"
proof (rule nth_equalityI)
  fix i assume "i < length (ring_list (slots[(p + n) mod length slots := x]) p (Suc n))"
  moreover have "(p + n) mod length slots < length slots" using assms by (intro mod_less_divisor) auto
  ultimately show "ring_list (slots[(p + n) mod length slots := x]) p (Suc n) ! i = (ring_list slots p n @ [x]) ! i"
    using ring_slots_differ [of i n "length slots" p] assms
    by (cases "i = n") (auto simp: nth_ring_list nth_append)
qed simp

lemma ring_list_keep:
  assumes "n \<le> k" "k < length slots"
  shows "ring_list (slots[(p + k) mod length slots := x]) p n = ring_list slots p n"
proof (rule nth_equalityI)
  fix i assume "i < length (ring_list (slots[(p + k) mod length slots := x]) p n)"
  then have "(p + k) mod length slots \<noteq> (p + i) mod length slots"
    using ring_slots_differ [of i k "length slots" p] assms by auto
  then show "ring_list (slots[(p + k) mod length slots := x]) p n ! i = ring_list slots p n ! i"
    using \<open>i < _\<close> by (simp add: nth_ring_list)
qed simp

section \<open>Positions as words\<close>

text \<open>A power of two divides the number of words, so the slot of a position is found by its mask also after
  the position has wrapped around.\<close>

lemma unat_add_mod_pow:
  assumes "k \<le> LENGTH('w)"
  shows "unat (a + b :: 'w::len word) mod 2 ^ k = (unat a + unat b) mod 2 ^ k"
proof -
  have "(2 :: nat) ^ k dvd 2 ^ LENGTH('w)" using assms by (rule le_imp_power_dvd)
  then show ?thesis by (simp add: unat_word_ariths mod_mod_cancel)
qed

lemma unat_add_1_mod_pow: "k \<le> LENGTH('w) \<Longrightarrow> unat (a + 1 :: 'w::len word) mod 2 ^ k = (unat a + 1) mod 2 ^ k"
  using unat_add_mod_pow [of k a 1] by (cases "LENGTH('w) = 0") auto

text \<open>The number of elements between two positions.\<close>

lemma unat_diff_add:
  "unat (w - r :: 'w::len word) + n < 2 ^ LENGTH('w) \<Longrightarrow> unat (w + of_nat n - r) = unat (w - r) + n"
proof -
  assume a: "unat (w - r) + n < 2 ^ LENGTH('w)"
  have eq: "w + of_nat n - r = (w - r) + of_nat n" by simp
  have "unat (of_nat n :: 'w word) = n" using a by (intro unat_of_nat_small) simp
  then show ?thesis unfolding eq unat_word_ariths(1) using a by simp
qed

lemma unat_diff_sub:
  "n \<le> unat (w - r :: 'w::len word) \<Longrightarrow> unat (w - (r + of_nat n)) = unat (w - r) - n"
proof -
  assume a: "n \<le> unat (w - r)"
  have eq: "w - (r + of_nat n) = (w - r) - of_nat n" by simp
  have u: "unat (of_nat n :: 'w word) = n"
    by (rule unat_of_nat_small) (rule le_less_trans [OF a unat_less])
  have "(of_nat n :: 'w word) \<le> w - r" using a u by (simp add: word_le_nat_alt)
  then show ?thesis unfolding eq using u by (simp add: unat_sub)
qed

lemma pos_plus_len: "(unat r + unat (w - r :: 'w::len word)) mod 2 ^ LENGTH('w) = unat w"
proof -
  have "unat (r + (w - r)) = (unat r + unat (w - r)) mod 2 ^ LENGTH('w)" by (rule unat_word_ariths(1))
  then show ?thesis by simp
qed

lemma pos_plus_len_mod:
  assumes "k \<le> LENGTH('w)"
  shows "(unat r + unat (w - r :: 'w::len word)) mod 2 ^ k = unat w mod 2 ^ k"
proof -
  have "(2 :: nat) ^ k dvd 2 ^ LENGTH('w)" using assms by (rule le_imp_power_dvd)
  then show ?thesis using pos_plus_len [of r w] by (metis mod_mod_cancel)
qed

text \<open>The mask of a ring whose capacity is a 32-bit number.\<close>

lemma unat_and_ucast_mask:
  assumes "k \<le> 32" "m = 2 ^ k - 1"
  shows "unat (off AND ucast (m :: u32) :: u64) = unat off mod 2 ^ k"
proof -
  have "m = mask k" using assms(2) by (simp add: mask_eq_exp_minus_1)
  then have "(ucast m :: u64) = mask k"
    using assms(1) by (intro bit_word_eqI) (auto simp: bit_ucast_iff bit_mask_iff)
  then show ?thesis by (simp add: unat_and_mask)
qed

text \<open>The test for a power of two.\<close>

lemma and_minus_1_pow2:
  assumes "n \<noteq> 0" "n AND (n - 1) = (0 :: 'w::len word)"
  shows "\<exists>k<LENGTH('w). n = 2 ^ k"
proof -
  have n0: "0 < unat n" using assms(1) by (simp add: unat_gt_0)
  obtain k where k: "2 ^ k \<le> unat n" "unat n < 2 ^ Suc k" using ex_power_ivl1 [of 2 "unat n"] n0 by auto
  have hi: "bit m k" if "2 ^ k \<le> unat m" "unat m < 2 ^ Suc k" for m :: "'w word"
  proof -
    have "unat m div 2 ^ k = 1" using that by (intro div_nat_eqI) auto
    then have "drop_bit k m = 1" by (simp add: word_unat_eq_iff unat_drop_bit)
    then show ?thesis by (simp add: bit_iff_odd_drop_bit)
  qed
  have "(2 :: nat) ^ k < 2 ^ LENGTH('w)" by (rule le_less_trans [OF k(1) unat_less])
  then have "k < LENGTH('w)" by (rule power_less_imp_less_exp [rotated]) simp
  moreover have "unat n = 2 ^ k"
  proof (rule ccontr)
    assume "unat n \<noteq> 2 ^ k"
    then have "2 ^ k \<le> unat (n - 1)" "unat (n - 1) < 2 ^ Suc k" using k n0 by (auto simp: unat_minus_one unat_gt_0)
    then have "bit (n AND (n - 1)) k" using hi k by (simp add: bit_and_iff)
    then show False using assms(2) by simp
  qed
  then have "n = of_nat (2 ^ k)" by (metis of_nat_unat ucast_id)
  ultimately show ?thesis by (intro exI [of _ k]) simp
qed

section \<open>The queue between two positions\<close>

text \<open>Storing into the next slot changes nothing, publishing it appends its element, moving the read position
  forward drops elements.\<close>

lemma ring_store:
  assumes "k \<le> LENGTH('w)" "length slots = 2 ^ k" "unat (w - r :: 'w::len word) < 2 ^ k"
  shows "ring_list (slots[unat w mod 2 ^ k := x]) (unat r) (unat (w - r)) = ring_list slots (unat r) (unat (w - r))"
  using ring_list_keep [of "unat (w - r)" "unat (w - r)" slots "unat r" x] assms pos_plus_len_mod [OF assms(1), of r w] by simp

lemma ring_publish:
  assumes "k \<le> LENGTH('w)" "length slots = 2 ^ k" "unat (w - r :: 'w::len word) + 1 < 2 ^ LENGTH('w)" "slots ! (unat w mod 2 ^ k) = x"
  shows "unat (w + 1 - r) = unat (w - r) + 1"
    "ring_list slots (unat r) (unat (w + 1 - r)) = ring_list slots (unat r) (unat (w - r)) @ [x]"
proof -
  let ?n = "unat (w - r)"
  show n: "unat (w + 1 - r) = ?n + 1" using unat_diff_add [of w r 1] assms(3) by simp
  have "ring_list slots (unat r + ?n) 1 = [x]"
    using assms(2,4) pos_plus_len_mod [OF assms(1), of r w] by (simp add: ring_list_def)
  then show "ring_list slots (unat r) (unat (w + 1 - r)) = ring_list slots (unat r) ?n @ [x]"
    using ring_list_add [of slots "unat r" ?n 1] by (simp add: n)
qed

lemma ring_advance:
  assumes "k \<le> LENGTH('w)" "length slots = 2 ^ k" "c \<le> unat (w - r :: 'w::len word)"
  shows "unat (w - (r + of_nat c)) = unat (w - r) - c"
    "ring_list slots (unat (r + of_nat c)) (unat (w - (r + of_nat c))) = drop c (ring_list slots (unat r) (unat (w - r)))"
proof -
  show n: "unat (w - (r + of_nat c)) = unat (w - r) - c" by (rule unat_diff_sub [OF assms(3)])
  have "unat (of_nat c :: 'w word) = c" by (rule unat_of_nat_small) (rule le_less_trans [OF assms(3) unat_less])
  then have "unat (r + of_nat c) mod length slots = (unat r + c) mod length slots"
    unfolding assms(2) using unat_add_mod_pow [OF assms(1), of r "of_nat c"] by simp
  from ring_list_mod [OF this] show "ring_list slots (unat (r + of_nat c)) (unat (w - (r + of_nat c))) = drop c (ring_list slots (unat r) (unat (w - r)))"
    using assms(3) by (simp add: n drop_ring_list)
qed

end
