(* ===== verification/Ringbuf.thy ===== *)
theory Ringbuf
  imports Ring
begin

text \<open>
  The byte ring \<open>src/container/xylem-ringbuf.c\<close>: fixed-size entries in a buffer whose capacity in entries is a
  power of two. The result of \<open>calloc\<close> is a boolean argument; a read returns the bytes it stores.
\<close>

section \<open>Operations\<close>

record xylem_ringbuf =
  buf :: "u8 list"
  wpos :: u64
  rpos :: u64
  msk :: u32
  esz :: u32

definition ringbuf_rounddown_pow2 :: "u32 \<Rightarrow> u32" where
  "ringbuf_rounddown_pow2 n =
     (if n = 0 then 0
      else let n = n OR drop_bit 1 n; n = n OR drop_bit 2 n; n = n OR drop_bit 4 n;
               n = n OR drop_bit 8 n; n = n OR drop_bit 16 n in
        drop_bit 1 (n + 1))"

definition ringbuf_write_internal :: "xylem_ringbuf \<Rightarrow> u8 list \<Rightarrow> u32 \<Rightarrow> u64 \<Rightarrow> xylem_ringbuf option" where
  "ringbuf_write_internal ring src len off =
     (let idx = ucast (off AND ucast (msk ring)) :: u32; cap = msk ring + 1; esize = esz ring in
      if esize = 1 then
        let l = (if len \<le> cap - idx then len else cap - idx) in
        do { b \<leftarrow> memcpy_at (buf ring) (unat idx) (take (unat l) src);
             b \<leftarrow> (if l < len then memcpy_at b 0 (take (unat (len - l)) (drop (unat l) src)) else Some b);
             Some (ring\<lparr>buf := b\<rparr>) }
      else
        let byte_off = ucast idx * ucast esize :: u64; total_bytes = ucast len * ucast esize;
            buf_size = ucast cap * ucast esize;
            l = (if total_bytes \<le> buf_size - byte_off then total_bytes else buf_size - byte_off) in
        do { b \<leftarrow> memcpy_at (buf ring) (unat byte_off) (take (unat l) src);
             b \<leftarrow> (if l < total_bytes then memcpy_at b 0 (take (unat (total_bytes - l)) (drop (unat l) src)) else Some b);
             Some (ring\<lparr>buf := b\<rparr>) })"

text \<open>Reading \<open>n\<close> bytes at an offset; \<open>None\<close> is a read past the end.\<close>

definition memcpy_from :: "'a list \<Rightarrow> nat \<Rightarrow> nat \<Rightarrow> 'a list option" where
  "memcpy_from src off n = (if off + n \<le> length src then Some (take n (drop off src)) else None)"

definition ringbuf_read_internal :: "xylem_ringbuf \<Rightarrow> u32 \<Rightarrow> u64 \<Rightarrow> u8 list option" where
  "ringbuf_read_internal ring len off =
     (let idx = ucast (off AND ucast (msk ring)) :: u32; cap = msk ring + 1; esize = esz ring in
      if esize = 1 then
        let l = (if len \<le> cap - idx then len else cap - idx) in
        do { a \<leftarrow> memcpy_from (buf ring) (unat idx) (unat l);
             b \<leftarrow> (if l < len then memcpy_from (buf ring) 0 (unat (len - l)) else Some []);
             Some (a @ b) }
      else
        let byte_off = ucast idx * ucast esize :: u64; total_bytes = ucast len * ucast esize;
            buf_size = ucast cap * ucast esize;
            l = (if total_bytes \<le> buf_size - byte_off then total_bytes else buf_size - byte_off) in
        do { a \<leftarrow> memcpy_from (buf ring) (unat byte_off) (unat l);
             b \<leftarrow> (if l < total_bytes then memcpy_from (buf ring) 0 (unat (total_bytes - l)) else Some []);
             Some (a @ b) })"

definition xylem_ringbuf_create :: "bool \<Rightarrow> bool \<Rightarrow> u64 \<Rightarrow> u64 \<Rightarrow> xylem_ringbuf option" where
  "xylem_ringbuf_create alloc alloc_buf esize bufsize =
     (if esize = 0 \<or> bufsize < esize then None
      else if esize > 0xFFFFFFFF then None
      else let elem_count = bufsize div esize in
      if elem_count = 0 then None
      else let elem_count = (if elem_count > 0xFFFFFFFF then 0xFFFFFFFF else elem_count);
               n = ucast elem_count :: u32; cap = ringbuf_rounddown_pow2 n in
      if cap = 0 then None
      else let actual_buf_size = ucast cap * esize in
      if \<not> alloc then None
      else if \<not> alloc_buf then None
      else Some \<lparr>buf = replicate (unat actual_buf_size) 0, wpos = 0, rpos = 0, msk = cap - 1, esz = ucast esize\<rparr>)"

definition xylem_ringbuf_destroy :: "xylem_ringbuf option \<Rightarrow> xylem_ringbuf option" where
  "xylem_ringbuf_destroy ring = None"

definition xylem_ringbuf_len :: "xylem_ringbuf \<Rightarrow> u64" where
  "xylem_ringbuf_len ring = wpos ring - rpos ring"

definition xylem_ringbuf_cap :: "xylem_ringbuf \<Rightarrow> u64" where
  "xylem_ringbuf_cap ring = ucast (msk ring + 1)"

definition xylem_ringbuf_full :: "xylem_ringbuf \<Rightarrow> bool" where
  "xylem_ringbuf_full ring \<longleftrightarrow> xylem_ringbuf_len ring \<ge> xylem_ringbuf_cap ring"

definition xylem_ringbuf_empty :: "xylem_ringbuf \<Rightarrow> bool" where
  "xylem_ringbuf_empty ring \<longleftrightarrow> wpos ring = rpos ring"

definition xylem_ringbuf_avail :: "xylem_ringbuf \<Rightarrow> u64" where
  "xylem_ringbuf_avail ring =
     (let len = xylem_ringbuf_len ring; cap = xylem_ringbuf_cap ring in if len \<ge> cap then 0 else cap - len)"

definition xylem_ringbuf_write :: "xylem_ringbuf \<Rightarrow> u8 list \<Rightarrow> u64 \<Rightarrow> (u64 \<times> xylem_ringbuf) option" where
  "xylem_ringbuf_write ring src entry_count =
     (let avail = xylem_ringbuf_avail ring;
          entry_count = (if entry_count > avail then avail else entry_count) in
      do { ring \<leftarrow> ringbuf_write_internal ring src (ucast entry_count) (wpos ring);
           Some (entry_count, ring\<lparr>wpos := wpos ring + ucast (ucast entry_count :: u32)\<rparr>) })"

definition xylem_ringbuf_read :: "xylem_ringbuf \<Rightarrow> u64 \<Rightarrow> (u64 \<times> u8 list \<times> xylem_ringbuf) option" where
  "xylem_ringbuf_read ring entry_count =
     (let len = xylem_ringbuf_len ring;
          entry_count = (if entry_count > len then len else entry_count);
          count32 = ucast entry_count :: u32 in
      do { out \<leftarrow> ringbuf_read_internal ring count32 (rpos ring);
           Some (ucast count32, out, ring\<lparr>rpos := rpos ring + ucast count32\<rparr>) })"

definition xylem_ringbuf_peek :: "xylem_ringbuf \<Rightarrow> u64 \<Rightarrow> (u64 \<times> u8 list) option" where
  "xylem_ringbuf_peek ring entry_count =
     (let len = xylem_ringbuf_len ring;
          entry_count = (if entry_count > len then len else entry_count);
          count32 = ucast entry_count :: u32 in
      do { out \<leftarrow> ringbuf_read_internal ring count32 (rpos ring); Some (ucast count32, out) })"

section \<open>Abstraction\<close>

text \<open>A ring of \<open>2 ^ k\<close> entries that holds the bytes \<open>bs\<close>.\<close>

definition ringbuf_rep :: "nat \<Rightarrow> xylem_ringbuf \<Rightarrow> u8 list \<Rightarrow> bool" where
  "ringbuf_rep k ring bs \<longleftrightarrow> k \<le> 30 \<and> msk ring = 2 ^ k - 1 \<and> esz ring \<noteq> 0 \<and>
     length (buf ring) = 2 ^ k * unat (esz ring) \<and> unat (wpos ring - rpos ring) \<le> 2 ^ k \<and>
     bs = ring_list (buf ring) (unat (rpos ring) * unat (esz ring)) (unat (wpos ring - rpos ring) * unat (esz ring))"

text \<open>Both branches of the copy routines on byte counts.\<close>

definition wrap_write :: "'a list \<Rightarrow> nat \<Rightarrow> nat \<Rightarrow> 'a list \<Rightarrow> 'a list option" where
  "wrap_write b p n src = (let l = min n (length b - p) in
     do { b \<leftarrow> memcpy_at b p (take l src);
          if l < n then memcpy_at b 0 (take (n - l) (drop l src)) else Some b })"

definition wrap_read :: "'a list \<Rightarrow> nat \<Rightarrow> nat \<Rightarrow> 'a list option" where
  "wrap_read b p n = (let l = min n (length b - p) in
     do { x \<leftarrow> memcpy_from b p l;
          y \<leftarrow> (if l < n then memcpy_from b 0 (n - l) else Some []);
          Some (x @ y) })"

text \<open>A run of writes and reads against a plain byte queue.\<close>

datatype ringbuf_op = Write "u8 list" | Read u64

fun ringbuf_run :: "xylem_ringbuf \<Rightarrow> ringbuf_op list \<Rightarrow> (u8 list \<times> u8 list \<times> xylem_ringbuf) option" where
  "ringbuf_run ring [] = Some ([], [], ring)"
| "ringbuf_run ring (Write src # ops) = do {
     (n, ring) \<leftarrow> xylem_ringbuf_write ring src (of_nat (length src div unat (esz ring)));
     (w, r, ring') \<leftarrow> ringbuf_run ring ops;
     Some (take (unat n * unat (esz ring)) src @ w, r, ring') }"
| "ringbuf_run ring (Read n # ops) = do {
     (_, out, ring) \<leftarrow> xylem_ringbuf_read ring n;
     (w, r, ring') \<leftarrow> ringbuf_run ring ops;
     Some (w, out @ r, ring') }"

section \<open>Lemmas\<close>

subsection \<open>Copies that wrap around\<close>

lemma wrap_mod: "p < L \<Longrightarrow> i < L \<Longrightarrow> (p + i) mod L = (if p + i < L then p + i else p + i - L :: nat)"
  by (auto simp: le_mod_geq)

lemma wrap_write_nth:
  assumes "p < length b" "n \<le> length b" "n \<le> length src"
  shows "\<exists>b'. wrap_write b p n src = Some b' \<and> length b' = length b \<and>
    (\<forall>i < length b. b' ! ((p + i) mod length b) = (if i < n then src ! i else b ! ((p + i) mod length b)))"
proof (cases "n \<le> length b - p")
  case True
  define b' where "b' = take p b @ take n src @ drop (p + n) b"
  have "wrap_write b p n src = Some b'" using True assms by (simp add: wrap_write_def memcpy_at_def b'_def min_absorb1)
  moreover have "b' ! ((p + i) mod length b) = (if i < n then src ! i else b ! ((p + i) mod length b))" if "i < length b" for i
    using True assms that by (auto simp: b'_def nth_append wrap_mod)
  moreover have "length b' = length b" using True assms by (simp add: b'_def)
  ultimately show ?thesis by blast
next
  case False
  define l where "l = length b - p"
  have l: "l < n" "p + l = length b" "n - l \<le> p" using False assms by (auto simp: l_def)
  define b' where "b' = take (n - l) (drop l src) @ drop (n - l) (take p b) @ take l src"
  have 1: "memcpy_at b p (take l src) = Some (take p b @ take l src)"
    using l assms by (simp add: memcpy_at_def)
  have "memcpy_at (take p b @ take l src) 0 (take (n - l) (drop l src)) = Some b'"
    using l assms by (simp add: memcpy_at_def b'_def)
  then have "wrap_write b p n src = Some b'"
    using 1 l unfolding wrap_write_def by (simp add: l_def [symmetric] min_absorb2)
  moreover have "b' ! ((p + i) mod length b) = (if i < n then src ! i else b ! ((p + i) mod length b))" if "i < length b" for i
    using l(1,3) assms that unfolding l(2) [symmetric]
    by (cases "i < l") (auto simp: b'_def nth_append wrap_mod l(2) [symmetric])
  moreover have "length b' = length b" using l assms by (simp add: b'_def)
  ultimately show ?thesis by blast
qed

lemma ring_write:
  assumes "(q + m) mod length b = p" "m + n \<le> length b" "n \<le> length src" "b \<noteq> []"
  shows "\<exists>b'. wrap_write b p n src = Some b' \<and> length b' = length b \<and>
    ring_list b' q (m + n) = ring_list b q m @ take n src"
proof -
  let ?L = "length b"
  have p: "p < ?L" using assms(1,4) by (metis length_greater_0_conv mod_less_divisor)
  obtain b' where b': "wrap_write b p n src = Some b'" "length b' = ?L"
    "\<And>i. i < ?L \<Longrightarrow> b' ! ((p + i) mod ?L) = (if i < n then src ! i else b ! ((p + i) mod ?L))"
    using wrap_write_nth [OF p _ assms(3)] assms(2) by auto
  have old: "b' ! ((q + j) mod ?L) = b ! ((q + j) mod ?L)" if "j < m" for j
  proof -
    have "(p + (?L - m + j)) mod ?L = (q + m + (?L - m + j)) mod ?L" using assms(1) by (metis mod_add_left_eq)
    also have "q + m + (?L - m + j) = (q + j) + ?L" using that assms(2) by simp
    finally have "(p + (?L - m + j)) mod ?L = (q + j) mod ?L" by simp
    then show ?thesis using b'(3) [of "?L - m + j"] that assms(2) by auto
  qed
  have new: "b' ! ((q + (m + j)) mod ?L) = src ! j" if "j < n" for j
  proof -
    have "(q + (m + j)) mod ?L = (p + j) mod ?L" using assms(1) by (metis add.assoc mod_add_left_eq)
    then show ?thesis using b'(3) [of j] that assms(2) by simp
  qed
  have "ring_list b' q (m + n) = ring_list b q m @ take n src"
  proof (rule nth_equalityI)
    fix i assume "i < length (ring_list b' q (m + n))"
    then show "ring_list b' q (m + n) ! i = (ring_list b q m @ take n src) ! i"
      using old [of i] new [of "i - m"] b'(2) assms(3) by (auto simp: nth_ring_list nth_append)
  qed (use assms(3) in simp)
  then show ?thesis using b' by blast
qed

lemma ring_read:
  assumes "q mod length b = p" "n \<le> length b" "b \<noteq> []"
  shows "wrap_read b p n = Some (ring_list b q n)"
proof -
  let ?L = "length b"
  have p: "p < ?L" using assms(1,3) by (metis length_greater_0_conv mod_less_divisor)
  have r: "ring_list b q n ! i = (if p + i < ?L then b ! (p + i) else b ! (p + i - ?L))" if "i < n" for i
  proof -
    have "(q + i) mod ?L = (p + i) mod ?L" using assms(1) by (metis mod_add_left_eq)
    then show ?thesis using that p assms(2) by (simp add: nth_ring_list wrap_mod)
  qed
  show ?thesis
  proof (cases "n \<le> ?L - p")
    case True
    have "take n (drop p b) = ring_list b q n" by (rule nth_equalityI) (use True p r in auto)
    then show ?thesis using True p by (simp add: wrap_read_def memcpy_from_def min_absorb1)
  next
    case False
    have "drop p b @ take (n - (?L - p)) b = ring_list b q n"
      by (rule nth_equalityI) (use False p r assms(2) in \<open>auto simp: nth_append add.commute\<close>)
    then show ?thesis using False p assms(2) by (simp add: wrap_read_def memcpy_from_def min_absorb2)
  qed
qed

subsection \<open>The copy routines\<close>

lemma ucast_nat: "n < 2 ^ LENGTH('v) \<Longrightarrow> n < 2 ^ LENGTH('w) \<Longrightarrow> (ucast (of_nat n :: 'v::len word) :: 'w::len word) = of_nat n"
  by (simp add: ucast_eq_of_nat unat_of_nat_small del: of_nat_unat)

lemma ring_index:
  assumes "k \<le> 30" "m = 2 ^ k - 1"
  shows "unat (ucast (off AND ucast (m :: u32) :: u64) :: u32) = unat off mod 2 ^ k" "unat (m + 1) = 2 ^ k"
proof -
  have k: "(2 :: nat) ^ k \<le> 2 ^ 30" using assms(1) by (intro power_increasing) auto
  have "unat (off AND ucast m :: u64) = unat off mod 2 ^ k" using assms by (intro unat_and_ucast_mask) auto
  moreover have "unat off mod 2 ^ k < 2 ^ 32" using k by (intro less_le_trans [OF mod_less_divisor]) auto
  ultimately show "unat (ucast (off AND ucast m :: u64) :: u32) = unat off mod 2 ^ k"
    by (simp add: ucast_eq_of_nat unat_of_nat_small del: of_nat_unat)
  have "m + 1 = of_nat (2 ^ k)" using assms(2) by simp
  moreover have "unat (of_nat (2 ^ k) :: u32) = 2 ^ k" using k by (intro unat_of_nat_small) simp
  ultimately show "unat (m + 1) = 2 ^ k" by (simp only:)
qed

lemma unat_mult_small: "unat a * unat b < 2 ^ LENGTH('w) \<Longrightarrow> unat (a * b :: 'w::len word) = unat a * unat b"
  by (simp add: unat_word_ariths)

lemma unat_ucast_up: "unat (ucast (a :: u32) :: u64) = unat a"
  unfolding ucast_eq_of_nat using unat_less [of a] by (intro unat_of_nat_small) simp

text \<open>What both routines compute with: the offset, the length and the size of the buffer in bytes.\<close>

lemma ring_bytes:
  fixes off :: u64 and e :: u32
  assumes "k \<le> 30" "m = 2 ^ k - 1" "unat (len :: u32) \<le> 2 ^ k"
  defines "idx \<equiv> ucast (off AND ucast (m :: u32) :: u64) :: u32"
  shows "unat (ucast idx * ucast e :: u64) = (unat off mod 2 ^ k) * unat e"
    "unat (ucast len * ucast e :: u64) = unat len * unat e"
    "unat (ucast (m + 1) * ucast e :: u64) = 2 ^ k * unat e"
    "unat (ucast (m + 1) * ucast e - ucast idx * ucast e :: u64) = 2 ^ k * unat e - (unat off mod 2 ^ k) * unat e"
proof -
  have k: "(2 :: nat) ^ k \<le> 2 ^ 30" using assms(1) by (intro power_increasing) auto
  have e: "unat e < 2 ^ 32" using unat_less [of e] by simp
  have small: "x * unat e < 2 ^ 64" if "x \<le> 2 ^ k" for x
  proof -
    have "x * unat e \<le> 2 ^ 30 * 2 ^ 32" using that k e by (intro mult_le_mono) auto
    then show ?thesis by simp
  qed
  have i: "unat idx = unat off mod 2 ^ k" unfolding idx_def by (rule ring_index(1) [OF assms(1,2)])
  have c: "unat (m + 1) = 2 ^ k" by (rule ring_index(2) [OF assms(1,2)])
  have lt: "unat off mod 2 ^ k \<le> 2 ^ k" by simp
  show 1: "unat (ucast idx * ucast e :: u64) = (unat off mod 2 ^ k) * unat e"
    using small [OF lt] by (simp add: unat_mult_small unat_ucast_up i)
  show "unat (ucast len * ucast e :: u64) = unat len * unat e"
    using small [OF assms(3)] by (simp add: unat_mult_small unat_ucast_up)
  show 3: "unat (ucast (m + 1) * ucast e :: u64) = 2 ^ k * unat e"
    using small [of "2 ^ k"] c by (simp add: unat_mult_small unat_ucast_up)
  have "unat (ucast idx * ucast e :: u64) \<le> unat (ucast (m + 1) * ucast e :: u64)" unfolding 1 3 by simp
  then show "unat (ucast (m + 1) * ucast e - ucast idx * ucast e :: u64) = 2 ^ k * unat e - (unat off mod 2 ^ k) * unat e"
    by (simp add: unat_sub word_le_nat_alt 1 3)
qed

lemma first_part:
  fixes n c :: "'w::len word"
  assumes "l = (if n \<le> c then n else c)"
  shows "unat l = min (unat n) (unat c)" "unat (n - l) = unat n - unat l"
proof -
  show "unat l = min (unat n) (unat c)" using assms by (auto simp: word_le_nat_alt min_def)
  have "l \<le> n" using assms by auto
  then show "unat (n - l) = unat n - unat l" by (simp add: unat_sub)
qed

lemma unat_room:
  assumes "k \<le> 30" "m = 2 ^ k - 1"
  shows "unat (m + 1 - ucast (off AND ucast (m :: u32) :: u64)) = 2 ^ k - unat off mod 2 ^ k"
  using ring_index(1) [OF assms, of off] ring_index(2) [OF assms] by (simp add: unat_sub word_le_nat_alt)

lemma write_internal_eq:
  assumes "k \<le> 30" "msk ring = 2 ^ k - 1" "length (buf ring) = 2 ^ k * unat (esz ring)" "unat len \<le> 2 ^ k"
  shows "ringbuf_write_internal ring src len off =
    map_option (\<lambda>b. ring\<lparr>buf := b\<rparr>) (wrap_write (buf ring) ((unat off mod 2 ^ k) * unat (esz ring)) (unat len * unat (esz ring)) src)"
proof -
  define idx where "idx = (ucast (off AND ucast (msk ring)) :: u32)"
  note b = ring_bytes(1,4) [OF assms(1,2,4), where off = off and e = "esz ring", folded idx_def]
    ring_bytes(2) [OF assms(1,2,4), where e = "esz ring"]
  note i = ring_index(1) [OF assms(1,2), of off, folded idx_def] unat_room [OF assms(1,2), of off, folded idx_def]
  show ?thesis
  proof (cases "esz ring = 1")
    case True
    define l where "l = (if len \<le> msk ring + 1 - idx then len else msk ring + 1 - idx)"
    note l = first_part [OF l_def, unfolded i(2)]
    show ?thesis using True assms(3)
      unfolding ringbuf_write_internal_def Let_def idx_def [symmetric] l_def [symmetric] wrap_write_def
      by (simp add: i(1) l(2) word_less_nat_alt map_option_case flip: l(1) split: option.split bind_split)
  next
    case False
    define n where "n = (ucast len * ucast (esz ring) :: u64)"
    have n: "unat n = unat len * unat (esz ring)" unfolding n_def by (rule b(3))
    define l where "l = (if n \<le> ucast (msk ring + 1) * ucast (esz ring) - ucast idx * ucast (esz ring) then n
      else ucast (msk ring + 1) * ucast (esz ring) - ucast idx * ucast (esz ring))"
    note l = first_part [OF l_def, unfolded b(2) n]
    show ?thesis using False assms(3)
      unfolding ringbuf_write_internal_def Let_def idx_def [symmetric] n_def [symmetric] l_def [symmetric] wrap_write_def
      by (simp add: b(1) l(2) word_less_nat_alt map_option_case n flip: l(1) split: option.split bind_split)
  qed
qed

lemma read_internal_eq:
  assumes "k \<le> 30" "msk ring = 2 ^ k - 1" "length (buf ring) = 2 ^ k * unat (esz ring)" "unat len \<le> 2 ^ k"
  shows "ringbuf_read_internal ring len off =
    wrap_read (buf ring) ((unat off mod 2 ^ k) * unat (esz ring)) (unat len * unat (esz ring))"
proof -
  define idx where "idx = (ucast (off AND ucast (msk ring)) :: u32)"
  note b = ring_bytes(1,4) [OF assms(1,2,4), where off = off and e = "esz ring", folded idx_def]
    ring_bytes(2) [OF assms(1,2,4), where e = "esz ring"]
  note i = ring_index(1) [OF assms(1,2), of off, folded idx_def] unat_room [OF assms(1,2), of off, folded idx_def]
  show ?thesis
  proof (cases "esz ring = 1")
    case True
    define l where "l = (if len \<le> msk ring + 1 - idx then len else msk ring + 1 - idx)"
    note l = first_part [OF l_def, unfolded i(2)]
    show ?thesis using True assms(3)
      unfolding ringbuf_read_internal_def Let_def idx_def [symmetric] l_def [symmetric] wrap_read_def
      by (simp add: i(1) l(2) word_less_nat_alt flip: l(1))
  next
    case False
    define n where "n = (ucast len * ucast (esz ring) :: u64)"
    have n: "unat n = unat len * unat (esz ring)" unfolding n_def by (rule b(3))
    define l where "l = (if n \<le> ucast (msk ring + 1) * ucast (esz ring) - ucast idx * ucast (esz ring) then n
      else ucast (msk ring + 1) * ucast (esz ring) - ucast idx * ucast (esz ring))"
    note l = first_part [OF l_def, unfolded b(2) n]
    show ?thesis using False assms(3)
      unfolding ringbuf_read_internal_def Let_def idx_def [symmetric] n_def [symmetric] l_def [symmetric] wrap_read_def
      by (simp add: b(1) l(2) word_less_nat_alt n flip: l(1))
  qed
qed

subsection \<open>Writing and reading\<close>

lemma byte_pos:
  assumes "k \<le> 30"
  shows "(p * e) mod (2 ^ k * e) = (p mod 2 ^ k) * (e :: nat)"
  by (simp add: mult_mod_left)

lemma ringbuf_write_ok:
  assumes rep: "ringbuf_rep k ring bs" and src: "length src = unat n * unat (esz ring)"
  shows "\<exists>ring'. xylem_ringbuf_write ring src n = Some (min n (xylem_ringbuf_avail ring), ring') \<and> esz ring' = esz ring \<and>
    ringbuf_rep k ring' (bs @ take (unat (min n (xylem_ringbuf_avail ring)) * unat (esz ring)) src) \<and>
    unat (xylem_ringbuf_avail ring) = 2 ^ k - unat (wpos ring - rpos ring)"
proof -
  let ?e = "unat (esz ring)" and ?m = "unat (wpos ring - rpos ring)"
  have r: "k \<le> 30" "msk ring = 2 ^ k - 1" "esz ring \<noteq> 0" "length (buf ring) = 2 ^ k * ?e" "?m \<le> 2 ^ k"
    "bs = ring_list (buf ring) (unat (rpos ring) * ?e) (?m * ?e)" using rep by (auto simp: ringbuf_rep_def)
  have k: "(2 :: nat) ^ k \<le> 2 ^ 30" using r(1) by (intro power_increasing) auto
  have cap: "unat (xylem_ringbuf_cap ring) = 2 ^ k"
    using ring_index(2) [OF r(1,2)] by (simp add: xylem_ringbuf_cap_def unat_ucast_up)
  have av: "unat (xylem_ringbuf_avail ring) = 2 ^ k - ?m"
    using cap r(5) by (auto simp: xylem_ringbuf_avail_def Let_def xylem_ringbuf_len_def word_le_nat_alt unat_sub)
  define c where "c = min n (xylem_ringbuf_avail ring)"
  have c: "unat c \<le> 2 ^ k - ?m" "unat c \<le> unat n" using av by (auto simp: c_def min_def word_le_nat_alt)
  have c32: "unat (ucast c :: u32) = unat c"
    unfolding ucast_eq_of_nat using c k by (intro unat_of_nat_small) simp
  then have cc: "(ucast (ucast c :: u32) :: u64) = of_nat (unat c)"
    by (simp only: ucast_eq_of_nat [of "ucast c :: u32"])
  have pos: "(unat (rpos ring) * ?e + ?m * ?e) mod length (buf ring) = (unat (wpos ring) mod 2 ^ k) * ?e"
    using byte_pos [OF r(1), of "unat (rpos ring) + ?m" ?e] pos_plus_len_mod [of k "rpos ring" "wpos ring"] r(1,4)
    by (simp add: add_mult_distrib)
  have fit: "?m * ?e + unat c * ?e \<le> length (buf ring)"
    using mult_le_mono1 [of "?m + unat c" "2 ^ k" ?e] c(1) r(5) by (simp add: r(4) add_mult_distrib)
  have ne: "buf ring \<noteq> []" using r(3,4) by (auto simp: unat_eq_zero)
  have "unat c * ?e \<le> length src" using c(2) src by simp
  from ring_write [OF pos fit this ne] obtain b' where b': "wrap_write (buf ring) ((unat (wpos ring) mod 2 ^ k) * ?e) (unat c * ?e) src = Some b'"
    "length b' = length (buf ring)" "ring_list b' (unat (rpos ring) * ?e) (?m * ?e + unat c * ?e) = bs @ take (unat c * ?e) src"
    unfolding r(6) by blast
  define ring' where "ring' = ring\<lparr>buf := b', wpos := wpos ring + of_nat (unat c)\<rparr>"
  have m': "unat (wpos ring' - rpos ring') = ?m + unat c"
    unfolding ring'_def using unat_diff_add [of "wpos ring" "rpos ring" "unat c"] c(1) r(5) k by simp
  have "unat (ucast c :: u32) \<le> 2 ^ k" using c(1) c32 by simp
  from write_internal_eq [OF r(1,2,4) this, of src "wpos ring"] b'(1) have
    "ringbuf_write_internal ring src (ucast c) (wpos ring) = Some (ring\<lparr>buf := b'\<rparr>)" by (simp add: c32)
  moreover have "(if xylem_ringbuf_avail ring < n then xylem_ringbuf_avail ring else n) = c" by (auto simp: c_def min_def)
  ultimately have "xylem_ringbuf_write ring src n = Some (c, ring')"
    unfolding xylem_ringbuf_write_def Let_def by (simp add: cc ring'_def)
  moreover have "ringbuf_rep k ring' (bs @ take (unat c * ?e) src)"
    using r(1-5) b'(2,3) m' c(1) by (simp add: ringbuf_rep_def) (simp add: ring'_def add_mult_distrib)
  ultimately show ?thesis using av by (auto simp: c_def ring'_def)
qed

lemma ringbuf_read_internal_ok:
  assumes rep: "ringbuf_rep k ring bs" and c: "unat c \<le> unat (wpos ring - rpos ring)"
  shows "ringbuf_read_internal ring (ucast c) (rpos ring) = Some (take (unat c * unat (esz ring)) bs)"
    "(ucast (ucast c :: u32) :: u64) = c" 
proof -
  let ?e = "unat (esz ring)" and ?m = "unat (wpos ring - rpos ring)"
  have r: "k \<le> 30" "msk ring = 2 ^ k - 1" "esz ring \<noteq> 0" "length (buf ring) = 2 ^ k * ?e" "?m \<le> 2 ^ k"
    "bs = ring_list (buf ring) (unat (rpos ring) * ?e) (?m * ?e)" using rep by (auto simp: ringbuf_rep_def)
  have k: "(2 :: nat) ^ k \<le> 2 ^ 30" using r(1) by (intro power_increasing) auto
  have c32: "unat (ucast c :: u32) = unat c"
    unfolding ucast_eq_of_nat using c k r(5) by (intro unat_of_nat_small) simp
  then show "(ucast (ucast c :: u32) :: u64) = c" by (simp only: ucast_eq_of_nat [of "ucast c :: u32"]) simp
  have pos: "(unat (rpos ring) * ?e) mod length (buf ring) = (unat (rpos ring) mod 2 ^ k) * ?e"
    unfolding r(4) by (rule byte_pos [OF r(1)])
  have ne: "buf ring \<noteq> []" using r(3,4) by (auto simp: unat_eq_zero)
  have "unat (ucast c :: u32) \<le> 2 ^ k" "unat c * ?e \<le> length (buf ring)" using c r(4,5) c32 by simp_all
  then show "ringbuf_read_internal ring (ucast c) (rpos ring) = Some (take (unat c * ?e) bs)"
    using read_internal_eq [OF r(1,2,4), of "ucast c" "rpos ring"] ring_read [OF pos _ ne, of "unat c * ?e"] c
    by (simp add: c32 r(6) take_ring_list)
qed

lemma ringbuf_read_ok:
  assumes rep: "ringbuf_rep k ring bs"
  shows "\<exists>ring'. xylem_ringbuf_read ring n = Some (min n (xylem_ringbuf_len ring), take (unat n * unat (esz ring)) bs, ring') \<and>
    esz ring' = esz ring \<and> ringbuf_rep k ring' (drop (unat n * unat (esz ring)) bs)"
    "xylem_ringbuf_peek ring n = Some (min n (xylem_ringbuf_len ring), take (unat n * unat (esz ring)) bs)"
proof -
  let ?e = "unat (esz ring)" and ?m = "unat (wpos ring - rpos ring)"
  define c where "c = min n (xylem_ringbuf_len ring)"
  have len: "length bs = ?m * ?e" using rep by (auto simp: ringbuf_rep_def)
  have c: "unat c = min (unat n) ?m" by (auto simp: c_def min_def word_le_nat_alt xylem_ringbuf_len_def)
  have tk: "take (unat c * ?e) bs = take (unat n * ?e) bs" "drop (unat c * ?e) bs = drop (unat n * ?e) bs"
    using len c mult_le_mono1 [of ?m "unat n" ?e] by (auto simp: min_def)
  have ceq: "(if n > xylem_ringbuf_len ring then xylem_ringbuf_len ring else n) = c" by (auto simp: c_def min_def)
  have rd: "ringbuf_read_internal ring (ucast c) (rpos ring) = Some (take (unat c * ?e) bs)" "(ucast (ucast c :: u32) :: u64) = c"
    using ringbuf_read_internal_ok [OF rep, of c] c by simp_all
  show "xylem_ringbuf_peek ring n = Some (min n (xylem_ringbuf_len ring), take (unat n * ?e) bs)"
    unfolding xylem_ringbuf_peek_def Let_def ceq rd by (simp add: tk flip: c_def)
  define ring' where "ring' = ring\<lparr>rpos := rpos ring + c\<rparr>"
  have m': "unat (wpos ring' - rpos ring') = ?m - unat c"
  proof -
    have "unat c \<le> ?m" using c by simp
    from unat_diff_sub [OF this] show ?thesis by (simp add: ring'_def)
  qed
  have k: "k \<le> 30" "length (buf ring) = 2 ^ k * ?e" using rep by (auto simp: ringbuf_rep_def)
  have "unat (rpos ring + c) * ?e mod length (buf ring) = (unat (rpos ring) * ?e + unat c * ?e) mod length (buf ring)"
    using byte_pos [OF k(1), of "unat (rpos ring + c)" ?e] byte_pos [OF k(1), of "unat (rpos ring) + unat c" ?e]
      unat_add_mod_pow [of k "rpos ring" c] k by (simp add: add_mult_distrib)
  from ring_list_mod [OF this] have "ringbuf_rep k ring' (drop (unat c * ?e) bs)"
    using rep m' c by (auto simp: ringbuf_rep_def ring'_def drop_ring_list diff_mult_distrib)
  then show "\<exists>ring'. xylem_ringbuf_read ring n = Some (min n (xylem_ringbuf_len ring), take (unat n * ?e) bs, ring') \<and>
    esz ring' = esz ring \<and> ringbuf_rep k ring' (drop (unat n * ?e) bs)"
    unfolding xylem_ringbuf_read_def Let_def ceq rd by (simp add: tk ring'_def flip: c_def)
qed

subsection \<open>The capacity\<close>

lemma smear_step:
  assumes "\<And>i. bit a i \<longleftrightarrow> (\<exists>d<m. bit n (i + d))"
  shows "bit (a OR drop_bit m a :: 'w::len word) i \<longleftrightarrow> (\<exists>d<2 * m. bit n (i + d))"
proof -
  have "(\<exists>d<2 * m. bit n (i + d)) \<longleftrightarrow> (\<exists>d<m. bit n (i + d)) \<or> (\<exists>d<m. bit n (m + i + d))" (is "?l \<longleftrightarrow> ?r")
  proof
    assume ?l
    then obtain d where d: "d < 2 * m" "bit n (i + d)" by blast
    show ?r
    proof (cases "d < m")
      case False
      then have "d - m < m" "m + i + (d - m) = i + d" using d(1) by simp_all
      then show ?thesis using d(2) by metis
    qed (use d in blast)
  next
    assume ?r
    then show ?l
    proof
      assume "\<exists>d<m. bit n (m + i + d)"
      then obtain d where "d < m" "bit n (m + i + d)" by blast
      then have "m + d < 2 * m" "bit n (i + (m + d))" by (simp_all add: ac_simps)
      then show ?l by blast
    next
      assume "\<exists>d<m. bit n (i + d)"
      then obtain d where "d < m" "bit n (i + d)" by blast
      then show ?l by (intro exI [of _ d]) simp
    qed
  qed
  then show ?thesis by (simp add: bit_or_iff bit_drop_bit_eq assms add.commute)
qed

lemma smear:
  fixes n :: u32
  defines "s \<equiv> let n = n OR drop_bit 1 n; n = n OR drop_bit 2 n; n = n OR drop_bit 4 n;
               n = n OR drop_bit 8 n; n = n OR drop_bit 16 n in n"
  shows "bit s i \<longleftrightarrow> (\<exists>d<32. bit n (i + d))"
proof -
  define a where "a = n OR drop_bit 1 n"
  define b where "b = a OR drop_bit 2 a"
  define c where "c = b OR drop_bit 4 b"
  define d where "d = c OR drop_bit 8 c"
  have "bit a i \<longleftrightarrow> (\<exists>d<2. bit n (i + d))" for i using smear_step [of n 1 n i] by (simp add: a_def)
  then have "bit b i \<longleftrightarrow> (\<exists>d<4. bit n (i + d))" for i using smear_step [of a 2 n i] by (simp add: b_def)
  then have "bit c i \<longleftrightarrow> (\<exists>d<8. bit n (i + d))" for i using smear_step [of b 4 n i] by (simp add: c_def)
  then have "bit d i \<longleftrightarrow> (\<exists>d<16. bit n (i + d))" for i using smear_step [of c 8 n i] by (simp add: d_def)
  then have "bit (d OR drop_bit 16 d) i \<longleftrightarrow> (\<exists>d<32. bit n (i + d))" using smear_step [of d 16 n i] by simp
  moreover have "s = d OR drop_bit 16 d" by (simp add: s_def a_def b_def c_def d_def Let_def)
  ultimately show ?thesis by simp
qed

lemma rounddown_mask:
  fixes n :: u32
  assumes "2 ^ k \<le> unat n" "unat n < 2 ^ Suc k"
  shows "ringbuf_rounddown_pow2 n = drop_bit 1 (mask (Suc k) + 1)"
proof -
  have k: "k < 32" using assms(1) unat_less [of n] by (simp add: power_strict_increasing_iff [of "2 :: nat" k 32, symmetric] le_less_trans)
  have hi: "bit n k"
  proof -
    have "unat n div 2 ^ k = 1" using assms by (intro div_nat_eqI) auto
    then have "drop_bit k n = 1" by (simp add: word_unat_eq_iff unat_drop_bit)
    then show ?thesis by (simp add: bit_iff_odd_drop_bit)
  qed
  have lo: "bit n j \<Longrightarrow> j \<le> k" for j using bit_lt [OF assms(2), of j] by simp
  define s where "s = (let n = n OR drop_bit 1 n; n = n OR drop_bit 2 n; n = n OR drop_bit 4 n;
               n = n OR drop_bit 8 n; n = n OR drop_bit 16 n in n)"
  have bs: "bit s i \<longleftrightarrow> (\<exists>d<32. bit n (i + d))" for i unfolding s_def by (rule smear)
  have "s = mask (Suc k)"
  proof (rule bit_word_eqI)
    fix i assume i: "i < LENGTH(32)"
    show "bit s i = bit (mask (Suc k) :: u32) i"
    proof (cases "i \<le> k")
      case True
      then have "k - i < 32" "bit n (i + (k - i))" using hi k by auto
      then show ?thesis using True i by (auto simp: bs bit_mask_iff)
    next
      case False
      then show ?thesis using lo by (force simp: bs bit_mask_iff)
    qed
  qed
  moreover have "n \<noteq> 0" using assms(1) by auto
  ultimately show ?thesis by (simp add: ringbuf_rounddown_pow2_def s_def Let_def)
qed

lemma rounddown_small:
  assumes "0 < unat n" "unat n < 2 ^ 31"
  shows "\<exists>k\<le>30. ringbuf_rounddown_pow2 n = 2 ^ k \<and> 2 ^ k \<le> unat n \<and> unat n < 2 ^ Suc k"
proof -
  obtain k where k: "2 ^ k \<le> unat n" "unat n < 2 ^ Suc k"
    using ex_power_ivl1 [of 2 "unat n"] assms(1) by auto
  then have "(2 :: nat) ^ k < 2 ^ 31" using assms(2) by linarith
  then have "k < 31" by (rule power_less_imp_less_exp [rotated]) simp
  then have k30: "k \<le> 30" by simp
  have "mask (Suc k) + 1 = (2 ^ Suc k :: u32)" by (simp add: mask_eq_exp_minus_1)
  moreover have "drop_bit 1 (2 ^ Suc k :: u32) = 2 ^ k"
    using k30 by (intro bit_word_eqI) (auto simp: bit_drop_bit_eq bit_exp_iff simp del: power_Suc)
  ultimately show ?thesis using rounddown_mask [OF k] k k30 by auto
qed

lemma rounddown_large:
  assumes "2 ^ 31 \<le> unat (n :: u32)"
  shows "ringbuf_rounddown_pow2 n = 0"
proof -
  have "unat n < 2 ^ Suc 31" using unat_less [of n] by simp
  from rounddown_mask [OF assms this] show ?thesis by (simp add: mask_eq_exp_minus_1)
qed

text \<open>C10. The capacity of a new ring buffer: when the buffer has room for at least one and fewer than \<open>2 ^ 31\<close>
  entries, the capacity is the largest power of two that fits and the ring is empty; when it
  has room for \<open>2 ^ 31\<close> entries or more, the rounding overflows to 0 and the creation fails although it
  should give the capacity \<open>2 ^ 31\<close>.\<close>

theorem ringbuf_capacity:
  assumes "0 < esize" "esize \<le> 0xFFFFFFFF"
  shows "(0 < unat bufsize div unat esize \<and> unat bufsize div unat esize < 2 ^ 31 \<longrightarrow>
      (\<exists>k ring. xylem_ringbuf_create True True esize bufsize = Some ring \<and> unat (xylem_ringbuf_cap ring) = 2 ^ k \<and>
        2 ^ k \<le> unat bufsize div unat esize \<and> unat bufsize div unat esize < 2 ^ Suc k \<and>
        esz ring = ucast esize \<and> ringbuf_rep k ring [])) \<and>
    (2 ^ 31 \<le> unat bufsize div unat esize \<longrightarrow> xylem_ringbuf_create True True esize bufsize = None)"
proof -
  let ?c = "bufsize div esize"
  have c: "unat ?c = unat bufsize div unat esize" by (rule unat_div)
  have e: "unat esize \<le> 2 ^ 32 - 1" "0 < unat esize" using assms by (simp_all add: word_le_nat_alt word_less_nat_alt)
  have e32: "unat (ucast esize :: u32) = unat esize"
    unfolding ucast_eq_of_nat using e(1) by (intro unat_of_nat_small) simp
  define n where "n = (ucast (if ?c > 0xFFFFFFFF then 0xFFFFFFFF else ?c) :: u32)"
  have n: "unat n = min (unat ?c) (2 ^ 32 - 1)"
  proof -
    have "unat (if ?c > 0xFFFFFFFF then 0xFFFFFFFF else ?c) = min (unat ?c) (2 ^ 32 - 1)"
      by (auto simp: word_less_nat_alt)
    then show ?thesis unfolding n_def ucast_eq_of_nat by (simp add: unat_of_nat_small del: of_nat_unat)
  qed
  have pos: "\<not> (esize = 0 \<or> bufsize < esize) \<and> ?c \<noteq> 0" if "0 < unat ?c"
  proof -
    have "?c \<noteq> 0" using that by auto
    moreover have "unat esize \<le> unat bufsize" using that unfolding c by (simp add: div_greater_zero_iff)
    ultimately show ?thesis using e(2) by (auto simp: word_less_nat_alt)
  qed
  show ?thesis
  proof (intro conjI impI)
    assume a: "0 < unat bufsize div unat esize \<and> unat bufsize div unat esize < 2 ^ 31"
    then have "0 < unat n" "unat n < 2 ^ 31" "unat n = unat ?c" using n c by auto
    from rounddown_small [OF this(1,2)] this(3) obtain k where k: "k \<le> 30" "ringbuf_rounddown_pow2 n = 2 ^ k"
      "2 ^ k \<le> unat ?c" "unat ?c < 2 ^ Suc k" by auto
    define ring where "ring = \<lparr>buf = replicate (unat (ucast (2 ^ k :: u32) * esize)) 0, wpos = 0, rpos = 0, msk = 2 ^ k - 1, esz = ucast esize\<rparr>"
    have k2: "(2 :: nat) ^ k \<le> 2 ^ 30" using k(1) by (intro power_increasing) auto
    have u: "unat (2 ^ k - 1 + 1 :: u32) = 2 ^ k" by (rule ring_index(2) [OF k(1) refl])
    then have u': "unat (2 ^ k :: u32) = 2 ^ k" by simp
    have "2 ^ k * unat esize \<le> 2 ^ 30 * (2 ^ 32 - 1)" using k2 e(1) by (intro mult_le_mono) auto
    then have sz: "unat (ucast (2 ^ k :: u32) * esize) = 2 ^ k * unat esize"
      by (simp add: unat_mult_small unat_ucast_up u')
    have "xylem_ringbuf_create True True esize bufsize = Some ring"
      using pos a c assms(2) k(1,2) unfolding xylem_ringbuf_create_def Let_def n_def [symmetric]
      by (auto simp: ring_def)
    moreover have "ringbuf_rep k ring []" using k(1) sz e(2) e32 by (auto simp: ringbuf_rep_def ring_def)
    moreover have "unat (xylem_ringbuf_cap ring) = 2 ^ k" using u by (simp add: xylem_ringbuf_cap_def ring_def unat_ucast_up)
    ultimately show "\<exists>k ring. xylem_ringbuf_create True True esize bufsize = Some ring \<and> unat (xylem_ringbuf_cap ring) = 2 ^ k \<and>
        2 ^ k \<le> unat bufsize div unat esize \<and> unat bufsize div unat esize < 2 ^ Suc k \<and>
        esz ring = ucast esize \<and> ringbuf_rep k ring []" using k(3,4) c by (auto simp: ring_def)
  next
    assume "2 ^ 31 \<le> unat bufsize div unat esize"
    then have "2 ^ 31 \<le> unat n" using n c by simp
    from rounddown_large [OF this] show "xylem_ringbuf_create True True esize bufsize = None"
      unfolding xylem_ringbuf_create_def Let_def n_def [symmetric] by simp
  qed
qed

theorem ringbuf_capacity_witness:
  "(\<exists>ring. xylem_ringbuf_create True True 4 100 = Some ring \<and> unat (xylem_ringbuf_cap ring) = 16) \<and>
   xylem_ringbuf_create True True 1 0x80000000 = None"
proof
  obtain k ring where r: "xylem_ringbuf_create True True 4 100 = Some ring" "unat (xylem_ringbuf_cap ring) = 2 ^ k"
    "(2 :: nat) ^ k \<le> 25" "(25 :: nat) < 2 ^ Suc k" using ringbuf_capacity [of 4 100] by auto
  have "k < 5"
  proof (rule ccontr)
    assume "\<not> k < 5"
    then have "(2 :: nat) ^ 5 \<le> 2 ^ k" by (intro power_increasing) auto
    then show False using r(3) by simp
  qed
  moreover have "\<not> k < 4"
  proof
    assume "k < 4"
    then have "(2 :: nat) ^ Suc k \<le> 2 ^ 4" by (intro power_increasing) auto
    then show False using r(4) by simp
  qed
  ultimately have "k = 4" by simp
  then show "\<exists>ring. xylem_ringbuf_create True True 4 100 = Some ring \<and> unat (xylem_ringbuf_cap ring) = 16" using r by simp
next
  show "xylem_ringbuf_create True True 1 0x80000000 = None" using ringbuf_capacity [of 1 "0x80000000"] by simp
qed

text \<open>C7. A ring buffer is a byte queue: over any sequence of writes and reads, whatever their sizes, the bytes
  read are the bytes accepted, in the same order, and what is left is in the ring; positions may wrap
  around, at the end of the buffer and at \<open>2 ^ 64\<close>, and no access leaves the buffer.\<close>

theorem ringbuf_is_queue:
  assumes "ringbuf_rep k ring bs" "\<forall>src. Write src \<in> set ops \<longrightarrow> length src mod unat (esz ring) = 0 \<and> length src < 2 ^ 64"
  shows "\<exists>w r ring' rest. ringbuf_run ring ops = Some (w, r, ring') \<and> bs @ w = r @ rest \<and> ringbuf_rep k ring' rest"
  using assms
proof (induction ops arbitrary: ring bs)
  case (Cons op ops)
  show ?case
  proof (cases op)
    case (Write src)
    let ?n = "of_nat (length src div unat (esz ring)) :: u64"
    have src: "length src mod unat (esz ring) = 0" "length src < 2 ^ 64" using Cons.prems(2) Write by auto
    have "unat ?n = length src div unat (esz ring)"
      by (rule unat_of_nat_small) (use src(2) in \<open>simp add: le_less_trans [OF div_le_dividend]\<close>)
    then have len: "length src = unat ?n * unat (esz ring)" using src(1) by auto
    obtain ring' where w: "xylem_ringbuf_write ring src ?n = Some (min ?n (xylem_ringbuf_avail ring), ring')" "esz ring' = esz ring"
      "ringbuf_rep k ring' (bs @ take (unat (min ?n (xylem_ringbuf_avail ring)) * unat (esz ring)) src)"
      using ringbuf_write_ok [OF Cons.prems(1) len] by blast
    have "\<forall>src. ringbuf_op.Write src \<in> set ops \<longrightarrow> length src mod unat (esz ring') = 0 \<and> length src < 2 ^ 64"
      using Cons.prems(2) w(2) by auto
    from Cons.IH [OF w(3) this] w(1,2) Write show ?thesis by auto
  next
    case (Read n)
    obtain ring' where r: "xylem_ringbuf_read ring n = Some (min n (xylem_ringbuf_len ring), take (unat n * unat (esz ring)) bs, ring')"
      "esz ring' = esz ring" "ringbuf_rep k ring' (drop (unat n * unat (esz ring)) bs)"
      using ringbuf_read_ok(1) [OF Cons.prems(1)] by blast
    have "\<forall>src. ringbuf_op.Write src \<in> set ops \<longrightarrow> length src mod unat (esz ring') = 0 \<and> length src < 2 ^ 64"
      using Cons.prems(2) r(2) by auto
    from Cons.IH [OF r(3) this] obtain w rd ring'' rest where x: "ringbuf_run ring' ops = Some (w, rd, ring'')"
      "drop (unat n * unat (esz ring)) bs @ w = rd @ rest" "ringbuf_rep k ring'' rest" by blast
    have "bs @ w = (take (unat n * unat (esz ring)) bs @ rd) @ rest"
      using x(2) by (metis append.assoc append_take_drop_id)
    then show ?thesis using x(1,3) r(1) Read by auto
  qed
qed simp

theorem ringbuf_is_queue_witness:
  "\<exists>ring w r ring'. xylem_ringbuf_create True True 2 8 = Some ring \<and>
     ringbuf_run ring [Write [1, 2, 3, 4, 5, 6], Read 2, Write [7, 8, 9, 10], Read 9] = Some (w, r, ring') \<and>
     (\<exists>rest. w = r @ rest)"
proof -
  define ring where "ring = \<lparr>buf = replicate 8 0, wpos = 0, rpos = 0, msk = 3, esz = 2 :: u32\<rparr>"
  have rep: "ringbuf_rep 2 ring []" by (simp add: ringbuf_rep_def ring_def)
  have "xylem_ringbuf_create True True 2 8 = Some ring"
    by (simp add: xylem_ringbuf_create_def ringbuf_rounddown_pow2_def ring_def Let_def)
  moreover have "\<exists>w r ring' rest. ringbuf_run ring [Write [1, 2, 3, 4, 5, 6], Read 2, Write [7, 8, 9, 10], Read 9] = Some (w, r, ring') \<and>
     [] @ w = r @ rest \<and> ringbuf_rep 2 ring' rest"
    by (rule ringbuf_is_queue [OF rep]) (auto simp: ring_def)
  ultimately show ?thesis by auto
qed

end
