(* ===== verification/Spsc.thy ===== *)
theory Spsc
  imports Ring Contracts
begin

text \<open>
  The single-producer, single-consumer ring of pointers, \<open>src/container/spsc.c\<close>: its functions one call at a time,
  and the producer and the consumer running at the same time, with a step for every access to the
  shared structure. The atomic accesses of the code are sequentially consistent.
\<close>

section \<open>Operations\<close>

record spsc =
  slots :: "ptr list"
  smask :: u64
  wpos :: u64
  rpos :: u64

definition spsc_is_pow2 :: "u64 \<Rightarrow> bool" where
  "spsc_is_pow2 n \<longleftrightarrow> n \<noteq> 0 \<and> n AND (n - 1) = 0"

text \<open>\<open>q_ok\<close> and \<open>alloc\<close>: the structure is not \<open>NULL\<close>, the allocation succeeds.\<close>

definition spsc_init :: "bool \<Rightarrow> bool \<Rightarrow> u64 \<Rightarrow> int \<times> spsc option" where
  "spsc_init q_ok alloc cap =
     (if \<not> q_ok \<or> \<not> spsc_is_pow2 cap then (-1, None)
      else if \<not> alloc then (-1, None)
      else (0, Some \<lparr>slots = replicate (unat cap) NULL, smask = cap - 1, wpos = 0, rpos = 0\<rparr>))"

definition spsc_deinit :: "spsc option \<Rightarrow> spsc option" where
  "spsc_deinit q = map_option (\<lambda>q. q\<lparr>slots := []\<rparr>) q"

text \<open>The slot of a position.\<close>

definition spsc_slot :: "spsc \<Rightarrow> u64 \<Rightarrow> nat" where
  "spsc_slot q p = unat (p AND smask q)"

definition spsc_push :: "spsc \<Rightarrow> ptr \<Rightarrow> (int \<times> spsc) option" where
  "spsc_push q elem =
     (if elem = NULL then Some (-1, q)
      else let w = wpos q; r = rpos q in
      if w - r > smask q then Some (-1, q)
      else if spsc_slot q w < length (slots q)
      then Some (0, q\<lparr>slots := (slots q)[spsc_slot q w := elem], wpos := w + 1\<rparr>)
      else None)"

definition spsc_pop :: "spsc \<Rightarrow> (ptr \<times> spsc) option" where
  "spsc_pop q =
     (let r = rpos q; w = wpos q in
      if w = r then Some (NULL, q)
      else if spsc_slot q r < length (slots q) then Some (slots q ! spsc_slot q r, q\<lparr>rpos := r + 1\<rparr>)
      else None)"

definition spsc_len :: "spsc \<Rightarrow> u64" where
  "spsc_len q = wpos q - rpos q"

definition spsc_cap :: "spsc \<Rightarrow> u64" where
  "spsc_cap q = smask q + 1"

definition spsc_empty :: "spsc \<Rightarrow> bool" where
  "spsc_empty q \<longleftrightarrow> spsc_len q = 0"

definition spsc_full :: "spsc \<Rightarrow> bool" where
  "spsc_full q \<longleftrightarrow> spsc_len q > smask q"

section \<open>Producer and consumer at the same time\<close>

datatype prod_pc = P_idle | P_loaded ptr u64 | P_checked ptr u64 | P_written ptr u64

datatype cons_pc = C_idle | C_loaded u64 | C_ready u64 | C_got u64 ptr

text \<open>The shared ring, the two program counters with their local variables, and what has been published and
  consumed so far.\<close>

record spsc_sys =
  ring :: spsc
  ppc :: prod_pc
  cpc :: cons_pc
  pushed :: "ptr list"
  popped :: "ptr list"

inductive spsc_step :: "spsc_sys \<Rightarrow> spsc_sys \<Rightarrow> bool" where
  push_start: "ppc s = P_idle \<Longrightarrow> x \<noteq> NULL \<Longrightarrow> spsc_step s (s\<lparr>ppc := P_loaded x (wpos (ring s))\<rparr>)"
| push_full: "ppc s = P_loaded x w \<Longrightarrow> w - rpos (ring s) > smask (ring s) \<Longrightarrow> spsc_step s (s\<lparr>ppc := P_idle\<rparr>)"
| push_room: "ppc s = P_loaded x w \<Longrightarrow> \<not> w - rpos (ring s) > smask (ring s) \<Longrightarrow> spsc_step s (s\<lparr>ppc := P_checked x w\<rparr>)"
| push_write: "ppc s = P_checked x w \<Longrightarrow>
    spsc_step s (s\<lparr>ring := (ring s)\<lparr>slots := (slots (ring s))[spsc_slot (ring s) w := x]\<rparr>, ppc := P_written x w\<rparr>)"
| push_publish: "ppc s = P_written x w \<Longrightarrow>
    spsc_step s (s\<lparr>ring := (ring s)\<lparr>wpos := w + 1\<rparr>, ppc := P_idle, pushed := pushed s @ [x]\<rparr>)"
| pop_start: "cpc s = C_idle \<Longrightarrow> spsc_step s (s\<lparr>cpc := C_loaded (rpos (ring s))\<rparr>)"
| pop_empty: "cpc s = C_loaded r \<Longrightarrow> wpos (ring s) = r \<Longrightarrow> spsc_step s (s\<lparr>cpc := C_idle\<rparr>)"
| pop_ready: "cpc s = C_loaded r \<Longrightarrow> wpos (ring s) \<noteq> r \<Longrightarrow> spsc_step s (s\<lparr>cpc := C_ready r\<rparr>)"
| pop_read: "cpc s = C_ready r \<Longrightarrow> spsc_step s (s\<lparr>cpc := C_got r (slots (ring s) ! spsc_slot (ring s) r)\<rparr>)"
| pop_publish: "cpc s = C_got r e \<Longrightarrow>
    spsc_step s (s\<lparr>ring := (ring s)\<lparr>rpos := r + 1\<rparr>, cpc := C_idle, popped := popped s @ [e]\<rparr>)"

definition spsc_start :: "spsc \<Rightarrow> spsc_sys" where
  "spsc_start q = \<lparr>ring = q, ppc = P_idle, cpc = C_idle, pushed = [], popped = []\<rparr>"

section \<open>Abstraction\<close>

definition spsc_shape :: "nat \<Rightarrow> spsc \<Rightarrow> bool" where
  "spsc_shape k q \<longleftrightarrow> k \<le> 63 \<and> smask q = 2 ^ k - 1 \<and> length (slots q) = 2 ^ k \<and> unat (wpos q - rpos q) \<le> 2 ^ k"

definition spsc_list :: "spsc \<Rightarrow> ptr list" where
  "spsc_list q = ring_list (slots q) (unat (rpos q)) (unat (wpos q - rpos q))"

definition spsc_rep :: "nat \<Rightarrow> spsc \<Rightarrow> ptr list \<Rightarrow> bool" where
  "spsc_rep k q xs \<longleftrightarrow> spsc_shape k q \<and> xs = spsc_list q \<and> NULL \<notin> set xs"

definition spsc_room :: "nat \<Rightarrow> ptr list \<Rightarrow> ptr \<Rightarrow> bool" where
  "spsc_room k xs x \<longleftrightarrow> x \<noteq> NULL \<and> length xs < 2 ^ k"

definition spsc_put :: "spsc \<Rightarrow> ptr \<Rightarrow> (bool \<times> spsc) option" where
  "spsc_put q x = map_option (\<lambda>(r, q). (r = 0, q)) (spsc_push q x)"

definition spsc_take :: "spsc \<Rightarrow> (ptr option \<times> spsc) option" where
  "spsc_take q = map_option (\<lambda>(p, q). (if p = NULL then None else Some p, q)) (spsc_pop q)"

text \<open>The invariant of the interleaved system: a program counter's local position is current, and what it has
  found out about the ring stays true while the other side runs.\<close>

definition prod_inv :: "nat \<Rightarrow> spsc \<Rightarrow> prod_pc \<Rightarrow> bool" where
  "prod_inv k q pc = (case pc of P_idle \<Rightarrow> True
     | P_loaded x w \<Rightarrow> w = wpos q \<and> x \<noteq> NULL
     | P_checked x w \<Rightarrow> w = wpos q \<and> x \<noteq> NULL \<and> unat (wpos q - rpos q) < 2 ^ k
     | P_written x w \<Rightarrow> w = wpos q \<and> x \<noteq> NULL \<and> unat (wpos q - rpos q) < 2 ^ k \<and> slots q ! (unat w mod 2 ^ k) = x)"

definition cons_inv :: "nat \<Rightarrow> spsc \<Rightarrow> cons_pc \<Rightarrow> bool" where
  "cons_inv k q pc = (case pc of C_idle \<Rightarrow> True
     | C_loaded r \<Rightarrow> r = rpos q
     | C_ready r \<Rightarrow> r = rpos q \<and> wpos q \<noteq> rpos q
     | C_got r e \<Rightarrow> r = rpos q \<and> wpos q \<noteq> rpos q \<and> e = slots q ! (unat r mod 2 ^ k))"

definition spsc_inv :: "nat \<Rightarrow> spsc_sys \<Rightarrow> bool" where
  "spsc_inv k s \<longleftrightarrow> spsc_shape k (ring s) \<and> pushed s = popped s @ spsc_list (ring s) \<and>
     prod_inv k (ring s) (ppc s) \<and> cons_inv k (ring s) (cpc s)"

section \<open>Lemmas\<close>

lemma spsc_slot_mod:
  assumes "smask q = 2 ^ k - 1"
  shows "spsc_slot q p = unat p mod 2 ^ k"
proof -
  have "smask q = mask k" using assms by (simp add: mask_eq_exp_minus_1)
  then show ?thesis by (simp add: spsc_slot_def unat_and_mask)
qed

lemma unat_smask:
  assumes "spsc_shape k q"
  shows "unat (smask q) = 2 ^ k - 1"
proof -
  have k: "(2 :: nat) ^ k \<le> 2 ^ 63" using assms by (intro power_increasing) (auto simp: spsc_shape_def)
  have "smask q = of_nat (2 ^ k - 1)" using assms by (simp add: spsc_shape_def of_nat_diff)
  moreover have "unat (of_nat (2 ^ k - 1) :: u64) = 2 ^ k - 1" using k by (intro unat_of_nat_small) simp
  ultimately show ?thesis by (simp only:)
qed

lemma spsc_full_iff:
  assumes "spsc_shape k q"
  shows "wpos q - rpos q > smask q \<longleftrightarrow> \<not> unat (wpos q - rpos q) < 2 ^ k"
proof -
  have "(0 :: nat) < 2 ^ k" by simp
  then have "2 ^ k - 1 < n \<longleftrightarrow> \<not> n < 2 ^ k" for n :: nat by linarith
  then show ?thesis by (simp only: word_less_nat_alt unat_smask [OF assms])
qed

lemma len_lt: "spsc_shape k q \<Longrightarrow> unat (wpos q - rpos q) + 1 < 2 ^ 64"
proof -
  assume "spsc_shape k q"
  moreover from this have "(2 :: nat) ^ k \<le> 2 ^ 63" by (intro power_increasing) (auto simp: spsc_shape_def)
  ultimately show ?thesis by (auto simp: spsc_shape_def)
qed

text \<open>Publishing a written element appends it; publishing a freed slot removes the first.\<close>

lemma publish_push:
  assumes "spsc_shape k q" "unat (wpos q - rpos q) < 2 ^ k" "slots q ! (unat (wpos q) mod 2 ^ k) = x"
  shows "spsc_shape k (q\<lparr>wpos := wpos q + 1\<rparr>)" "spsc_list (q\<lparr>wpos := wpos q + 1\<rparr>) = spsc_list q @ [x]"
  using ring_publish [of k "slots q" "wpos q" "rpos q" x] assms len_lt [OF assms(1)]
  by (auto simp: spsc_shape_def spsc_list_def)

lemma write_slot:
  assumes "spsc_shape k q" "unat (wpos q - rpos q) < 2 ^ k"
  shows "spsc_shape k (q\<lparr>slots := (slots q)[unat (wpos q) mod 2 ^ k := x]\<rparr>)"
    "spsc_list (q\<lparr>slots := (slots q)[unat (wpos q) mod 2 ^ k := x]\<rparr>) = spsc_list q"
    "(slots q)[unat (wpos q) mod 2 ^ k := x] ! (unat (wpos q) mod 2 ^ k) = x"
    "wpos q \<noteq> rpos q \<Longrightarrow> unat (wpos q) mod 2 ^ k \<noteq> unat (rpos q) mod 2 ^ k"
proof -
  let ?n = "unat (wpos q - rpos q)"
  have len: "length (slots q) = 2 ^ k" "k \<le> 63" using assms(1) by (auto simp: spsc_shape_def)
  show "spsc_shape k (q\<lparr>slots := (slots q)[unat (wpos q) mod 2 ^ k := x]\<rparr>)" using assms(1) by (simp add: spsc_shape_def)
  show "spsc_list (q\<lparr>slots := (slots q)[unat (wpos q) mod 2 ^ k := x]\<rparr>) = spsc_list q"
    using ring_store [of k "slots q" "wpos q" "rpos q" x] assms(2) len by (simp add: spsc_list_def)
  show "(slots q)[unat (wpos q) mod 2 ^ k := x] ! (unat (wpos q) mod 2 ^ k) = x" using len(1) by simp
  show "unat (wpos q) mod 2 ^ k \<noteq> unat (rpos q) mod 2 ^ k" if "wpos q \<noteq> rpos q"
  proof -
    have "0 < ?n" using that by (simp add: unat_gt_0)
    moreover have "(unat (rpos q) + ?n) mod 2 ^ k = unat (wpos q) mod 2 ^ k" using len(2) by (intro pos_plus_len_mod) simp
    ultimately show ?thesis using ring_slots_differ [OF _ assms(2), of 0 "unat (rpos q)"] by simp
  qed
qed

lemma publish_pop:
  assumes "spsc_shape k q" "wpos q \<noteq> rpos q"
  shows "spsc_shape k (q\<lparr>rpos := rpos q + 1\<rparr>)"
    "spsc_list q = slots q ! (unat (rpos q) mod 2 ^ k) # spsc_list (q\<lparr>rpos := rpos q + 1\<rparr>)"
    "unat (wpos q - (rpos q + 1)) < unat (wpos q - rpos q)"
proof -
  let ?n = "unat (wpos q - rpos q)"
  have pos: "1 \<le> ?n" using assms(2) by (simp add: unat_gt_0 Suc_leI)
  have len: "length (slots q) = 2 ^ k" "k \<le> 64" using assms(1) by (auto simp: spsc_shape_def)
  have adv: "unat (wpos q - (rpos q + 1)) = ?n - 1" "spsc_list (q\<lparr>rpos := rpos q + 1\<rparr>) = drop 1 (spsc_list q)"
    using ring_advance [of k "slots q" 1 "wpos q" "rpos q"] pos len by (simp_all add: spsc_list_def)
  then show "unat (wpos q - (rpos q + 1)) < ?n" using pos by simp
  show "spsc_shape k (q\<lparr>rpos := rpos q + 1\<rparr>)" using assms(1) adv(1) by (auto simp: spsc_shape_def)
  show "spsc_list q = slots q ! (unat (rpos q) mod 2 ^ k) # spsc_list (q\<lparr>rpos := rpos q + 1\<rparr>)"
    unfolding adv(2) using ring_list_Suc [of "slots q" "unat (rpos q)" "?n - 1"] pos by (simp add: spsc_list_def len(1))
qed

subsection \<open>One call at a time\<close>

lemma length_spsc_list [simp]: "length (spsc_list q) = unat (wpos q - rpos q)"
  by (simp add: spsc_list_def)

lemma spsc_push_room:
  assumes "spsc_rep k q xs" "spsc_room k xs x"
  shows "\<exists>q'. spsc_put q x = Some (True, q') \<and> spsc_rep k q' (snoc xs x)"
proof -
  have sh: "spsc_shape k q" and n: "unat (wpos q - rpos q) < 2 ^ k" "x \<noteq> NULL" and xs: "xs = spsc_list q" "NULL \<notin> set xs"
    using assms by (auto simp: spsc_rep_def spsc_room_def)
  have slot: "spsc_slot q (wpos q) = unat (wpos q) mod 2 ^ k" "length (slots q) = 2 ^ k"
    using sh by (auto simp: spsc_slot_mod spsc_shape_def)
  let ?q = "q\<lparr>slots := (slots q)[unat (wpos q) mod 2 ^ k := x]\<rparr>"
  note w = write_slot(1-3) [OF sh n(1), of x]
  have "spsc_rep k (?q\<lparr>wpos := wpos q + 1\<rparr>) (snoc xs x)"
    using publish_push [of k ?q x] w n xs by (simp add: spsc_rep_def snoc_def)
  moreover have "spsc_push q x = Some (0, ?q\<lparr>wpos := wpos q + 1\<rparr>)"
    using n spsc_full_iff [OF sh] slot by (simp add: spsc_push_def Let_def)
  ultimately show ?thesis by (auto simp: spsc_put_def)
qed

lemma spsc_push_refused:
  assumes "spsc_rep k q xs" "\<not> spsc_room k xs x"
  shows "spsc_put q x = Some (False, q)"
  using assms spsc_full_iff [of k q] by (auto simp: spsc_rep_def spsc_room_def spsc_put_def spsc_push_def)

lemma spsc_take_Cons:
  assumes "spsc_rep k q (x # xs)"
  shows "\<exists>q'. spsc_take q = Some (Some x, q') \<and> spsc_rep k q' xs"
proof -
  have sh: "spsc_shape k q" and xs: "x # xs = spsc_list q" "NULL \<notin> set (x # xs)"
    using assms unfolding spsc_rep_def by blast+
  have ne: "wpos q \<noteq> rpos q" using arg_cong [OF xs(1), of length] by auto
  note p = publish_pop [OF sh ne]
  have slot: "spsc_slot q (rpos q) = unat (rpos q) mod 2 ^ k" "length (slots q) = 2 ^ k"
    using sh by (auto simp: spsc_slot_mod spsc_shape_def)
  have "spsc_pop q = Some (x, q\<lparr>rpos := rpos q + 1\<rparr>)"
    using ne slot p(2) xs(1) by (simp add: spsc_pop_def Let_def)
  moreover have "spsc_rep k (q\<lparr>rpos := rpos q + 1\<rparr>) xs" using p(1,2) xs by (simp add: spsc_rep_def)
  ultimately show ?thesis using xs(2) by (auto simp: spsc_take_def)
qed

lemma spsc_take_Nil: "spsc_rep k q [] \<Longrightarrow> spsc_take q = Some (None, q)"
proof -
  assume "spsc_rep k q []"
  then have "length (spsc_list q) = 0" by (metis list.size(3) spsc_rep_def)
  then show ?thesis by (simp add: spsc_take_def spsc_pop_def unat_eq_zero Let_def)
qed

interpretation spsc_seq: bounded_sequence "spsc_rep k" snoc "spsc_room k" spsc_put spsc_take for k
  by unfold_locales (auto intro: spsc_push_room spsc_push_refused spsc_take_Cons spsc_take_Nil)

lemma spsc_init_ok:
  assumes "spsc_init True True cap = (0, Some q)"
  shows "\<exists>k. unat cap = 2 ^ k \<and> spsc_rep k q []"
proof -
  have p: "spsc_is_pow2 cap" and q: "q = \<lparr>slots = replicate (unat cap) NULL, smask = cap - 1, wpos = 0, rpos = 0\<rparr>"
    using assms by (auto simp: spsc_init_def split: if_splits)
  obtain k where "k < 64" "cap = 2 ^ k" using and_minus_1_pow2 [of cap] p by (auto simp: spsc_is_pow2_def)
  then have k: "k \<le> 63" "cap = 2 ^ k" by simp_all
  have "(2 :: nat) ^ k \<le> 2 ^ 63" using k(1) by (intro power_increasing) auto
  then have "unat (of_nat (2 ^ k) :: u64) = 2 ^ k" by (intro unat_of_nat_small) simp
  then have u: "unat cap = 2 ^ k" by (simp add: k(2))
  then have "spsc_rep k q []" using k by (simp add: spsc_rep_def spsc_shape_def spsc_list_def q)
  then show ?thesis using u by blast
qed

text \<open>C8. The ring as a bounded FIFO: every sequence of pushes and pops on a ring from \<open>spsc_init\<close> answers as the list
  machine of the same capacity does: a push is refused exactly for \<open>NULL\<close> and when \<open>cap\<close> elements are
  queued, pops come out in the order of the pushes; also when the positions wrap around.\<close>

theorem spsc_bounded_fifo:
  assumes "spsc_init True True cap = (0, Some q)"
  shows "\<exists>k q'. unat cap = 2 ^ k \<and>
    seq_exec spsc_put spsc_take q ops = Some (fst (seq_abs snoc (spsc_room k) [] ops), q')"
  using spsc_init_ok [OF assms] spsc_seq.exec_any by blast

theorem spsc_bounded_fifo_witness:
  "\<exists>q k q'. spsc_init True True 2 = (0, Some q) \<and> (2 :: nat) ^ k = 2 \<and>
    seq_exec spsc_put spsc_take q [Put 5, Put 6, Put 7, Take, Put 8, Take, Take, Take] =
      Some (fst (seq_abs snoc (spsc_room k) [] [Put 5, Put 6, Put 7, Take, Put 8, Take, Take, Take]), q')"
proof -
  let ?q = "\<lparr>slots = replicate 2 NULL, smask = 1, wpos = 0, rpos = 0\<rparr>"
  have "spsc_init True True 2 = (0, Some ?q)" by (simp add: spsc_init_def spsc_is_pow2_def)
  from spsc_bounded_fifo [OF this, of "[Put 5, Put 6, Put 7, Take, Put 8, Take, Take, Take]"] this show ?thesis by auto
qed

subsection \<open>Both sides at once\<close>

lemma shape_slot: "spsc_shape k q \<Longrightarrow> spsc_slot q p = unat p mod 2 ^ k"
  by (simp add: spsc_shape_def spsc_slot_mod)

lemma prod_inv_pop:
  "prod_inv k q pc \<Longrightarrow> unat (wpos q - r) < unat (wpos q - rpos q) \<Longrightarrow> prod_inv k (q\<lparr>rpos := r\<rparr>) pc"
  by (auto simp: prod_inv_def split: prod_pc.splits)

lemma spsc_step_inv:
  assumes "spsc_step s s'" "spsc_inv k s"
  shows "spsc_inv k s'"
proof -
  let ?q = "ring s"
  have sh: "spsc_shape k ?q" and gh: "pushed s = popped s @ spsc_list ?q"
    and p: "prod_inv k ?q (ppc s)" and c: "cons_inv k ?q (cpc s)" using assms(2) by (auto simp: spsc_inv_def)
  show ?thesis using assms(1)
  proof cases
    case (push_start x)
    then show ?thesis using sh gh c by (simp add: spsc_inv_def prod_inv_def)
  next
    case (push_full x w)
    then show ?thesis using sh gh c by (simp add: spsc_inv_def prod_inv_def)
  next
    case (push_room x w)
    then show ?thesis using sh gh c p spsc_full_iff [OF sh] by (simp add: spsc_inv_def prod_inv_def)
  next
    case (push_write x w)
    then have w: "w = wpos ?q" "x \<noteq> NULL" "unat (wpos ?q - rpos ?q) < 2 ^ k" using p by (auto simp: prod_inv_def)
    note ws = write_slot(1-3) [OF sh w(3), of x] write_slot(4) [OF sh w(3)]
    have "cons_inv k (?q\<lparr>slots := (slots ?q)[unat (wpos ?q) mod 2 ^ k := x]\<rparr>) (cpc s)"
      using c ws(4) by (auto simp: cons_inv_def split: cons_pc.splits)
    then show ?thesis using push_write(1) gh w ws(1-3) by (simp add: spsc_inv_def prod_inv_def shape_slot [OF sh])
  next
    case (push_publish x w)
    then have w: "w = wpos ?q" "unat (wpos ?q - rpos ?q) < 2 ^ k" "slots ?q ! (unat (wpos ?q) mod 2 ^ k) = x"
      using p by (auto simp: prod_inv_def)
    have "wpos ?q + 1 \<noteq> rpos ?q"
      using unat_diff_add [of "wpos ?q" "rpos ?q" 1] len_lt [OF sh] by auto
    then have "cons_inv k (?q\<lparr>wpos := wpos ?q + 1\<rparr>) (cpc s)"
      using c by (auto simp: cons_inv_def split: cons_pc.splits)
    then show ?thesis using push_publish(1) gh w(1) publish_push [OF sh w(2,3)] by (simp add: spsc_inv_def prod_inv_def)
  next
    case pop_start
    then show ?thesis using sh gh p by (simp add: spsc_inv_def cons_inv_def)
  next
    case (pop_empty r)
    then show ?thesis using sh gh p by (simp add: spsc_inv_def cons_inv_def)
  next
    case (pop_ready r)
    then show ?thesis using sh gh p c by (auto simp: spsc_inv_def cons_inv_def)
  next
    case (pop_read r)
    then show ?thesis using sh gh p c by (simp add: spsc_inv_def cons_inv_def shape_slot [OF sh])
  next
    case (pop_publish r e)
    then have r: "r = rpos ?q" "wpos ?q \<noteq> rpos ?q" "e = slots ?q ! (unat (rpos ?q) mod 2 ^ k)" using c by (auto simp: cons_inv_def)
    note pp = publish_pop [OF sh r(2)]
    from prod_inv_pop [OF p pp(3)] show ?thesis using pop_publish(1) gh r(1,3) pp(1,2) by (simp add: spsc_inv_def cons_inv_def)
  qed
qed

text \<open>C6. Producer and consumer running at the same time: in every interleaving of their steps the consumed
  elements are a prefix of the published ones, at most \<open>cap\<close> elements are in between, and the producer is
  never about to write the slot that the consumer is about to read.\<close>

theorem spsc_concurrent:
  assumes "spsc_init True True cap = (0, Some q)" "spsc_step\<^sup>*\<^sup>* (spsc_start q) s"
  shows "\<exists>queued. pushed s = popped s @ queued \<and> length queued \<le> unat cap \<and>
    (\<forall>x w r. ppc s = P_checked x w \<and> cpc s = C_ready r \<longrightarrow> spsc_slot (ring s) w \<noteq> spsc_slot (ring s) r)"
proof -
  obtain k where k: "unat cap = 2 ^ k" "spsc_rep k q []" using spsc_init_ok [OF assms(1)] by blast
  have "spsc_inv k (spsc_start q)"
    using k(2) by (simp add: spsc_inv_def spsc_start_def spsc_rep_def prod_inv_def cons_inv_def)
  with assms(2) have inv: "spsc_inv k s"
    by (induction rule: rtranclp_induct) (auto intro: spsc_step_inv)
  then have sh: "spsc_shape k (ring s)" by (simp add: spsc_inv_def)
  have "spsc_slot (ring s) w \<noteq> spsc_slot (ring s) r" if "ppc s = P_checked x w" "cpc s = C_ready r" for x w r
    using inv that write_slot(4) [OF sh] by (auto simp: spsc_inv_def prod_inv_def cons_inv_def shape_slot [OF sh])
  moreover have "length (spsc_list (ring s)) \<le> unat cap" using sh k(1) by (simp add: spsc_shape_def)
  ultimately show ?thesis using inv unfolding spsc_inv_def by blast
qed

theorem spsc_concurrent_witness:
  "\<exists>q s queued. spsc_init True True 2 = (0, Some q) \<and> spsc_step\<^sup>*\<^sup>* (spsc_start q) s \<and> pushed s = [5] \<and>
     pushed s = popped s @ queued \<and> length queued \<le> 2"
proof -
  define q where "q = \<lparr>slots = replicate 2 NULL, smask = 1, wpos = 0, rpos = 0\<rparr>"
  have init: "spsc_init True True 2 = (0, Some q)"
    by (simp add: spsc_init_def spsc_is_pow2_def q_def)
  define s1 where "s1 = (spsc_start q)\<lparr>ppc := P_loaded 5 0\<rparr>"
  define s2 where "s2 = s1\<lparr>ppc := P_checked 5 0\<rparr>"
  define s3 where "s3 = s2\<lparr>ring := q\<lparr>slots := [5, NULL]\<rparr>, ppc := P_written 5 0\<rparr>"
  define s4 where "s4 = s3\<lparr>ring := (ring s3)\<lparr>wpos := 1\<rparr>, ppc := P_idle, pushed := [5]\<rparr>"
  have "spsc_step (spsc_start q) s1" using push_start [of "spsc_start q" 5] by (simp add: s1_def spsc_start_def q_def)
  moreover have "spsc_step s1 s2" using push_room [of s1 5 0] by (simp add: s2_def s1_def spsc_start_def q_def)
  moreover have "spsc_step s2 s3"
    using push_write [of s2 5 0] by (simp add: s3_def s2_def s1_def spsc_start_def q_def spsc_slot_def numeral_2_eq_2)
  moreover have "spsc_step s3 s4"
    using push_publish [of s3 5 0] by (simp add: s4_def s3_def s2_def s1_def spsc_start_def)
  ultimately have run: "spsc_step\<^sup>*\<^sup>* (spsc_start q) s4" by (meson converse_rtranclp_into_rtranclp rtranclp.rtrancl_refl)
  from spsc_concurrent [OF init run] init run show ?thesis by (auto simp: s4_def)
qed

end
