(* ===== verification/Wsq.thy ===== *)
theory Wsq
  imports Ring
begin

text \<open>
  The work-stealing queue of a scheduler worker, \<open>src/runtime/wsq.c\<close>: its functions one call at a time, and the
  owner together with any number of thieves, with a step for every access to the shared structure. The atomic
  accesses of the code are sequentially consistent.
\<close>

section \<open>Operations\<close>

record wsq =
  head :: u64
  tail :: u64
  slots :: "ptr list"
  wmask :: u32

definition wsq_len :: "u64 \<Rightarrow> u64 \<Rightarrow> u64" where
  "wsq_len h t = t - h"

definition wsq_cap :: "wsq \<Rightarrow> u32" where
  "wsq_cap q = wmask q + 1"

definition wsq_slot :: "wsq \<Rightarrow> u64 \<Rightarrow> nat" where
  "wsq_slot q p = unat (p AND ucast (wmask q))"

text \<open>How many elements a grab takes out of \<open>count\<close>: half of them, rounded up, and no more than fit.\<close>

definition wsq_half :: "u64 \<Rightarrow> u64 \<Rightarrow> u64" where
  "wsq_half count limit = (let count = (count + 1) div 2 in if count > limit then limit else count)"

text \<open>\<open>fails\<close> lists the spurious failures of the weak compare-and-exchange before it succeeds; nobody else
  works on the queue, so each retry sees the same head and tail.\<close>

primrec wsq_grab_loop :: "bool list \<Rightarrow> wsq \<Rightarrow> u64 \<Rightarrow> u64 \<Rightarrow> ptr list \<times> wsq" where
  "wsq_grab_loop [] q h limit =
     (let count = wsq_len h (tail q) in
      if count = 0 then ([], q)
      else let count = wsq_half count limit in
        (map (\<lambda>i. slots q ! wsq_slot q (h + of_nat i)) [0..<unat count], q\<lparr>head := h + count\<rparr>))"
| "wsq_grab_loop (f # fails) q h limit =
     (if wsq_len h (tail q) = 0 then ([], q) else wsq_grab_loop fails q (head q) limit)"

definition wsq_grab_half :: "bool list \<Rightarrow> wsq \<Rightarrow> int \<Rightarrow> ptr list \<times> wsq" where
  "wsq_grab_half fails q elems_cap =
     (if elems_cap \<le> 0 then ([], q) else wsq_grab_loop fails q (head q) (of_int elems_cap))"

definition wsq_create :: "bool \<Rightarrow> bool \<Rightarrow> u32 \<Rightarrow> wsq option" where
  "wsq_create alloc alloc_slots cap =
     (if sint cap \<le> 0 \<or> cap AND (cap - 1) \<noteq> 0 then None
      else if \<not> alloc then None
      else if \<not> alloc_slots then None
      else Some \<lparr>head = 0, tail = 0, slots = replicate (unat cap) NULL, wmask = cap - 1\<rparr>)"

definition wsq_destroy :: "wsq option \<Rightarrow> wsq option" where
  "wsq_destroy q = None"

definition wsq_remaining :: "wsq \<Rightarrow> int" where
  "wsq_remaining q =
     (let capacity = ucast (wsq_cap q); used = wsq_len (head q) (tail q) in
      if used < capacity then sint (ucast (capacity - used) :: u32) else 0)"

definition wsq_push :: "wsq \<Rightarrow> ptr \<Rightarrow> (int \<times> wsq) option" where
  "wsq_push q elem =
     (if elem = NULL then Some (-1, q)
      else let t = tail q; h = head q in
      if wsq_len h t \<ge> ucast (wsq_cap q) then Some (-1, q)
      else if wsq_slot q t < length (slots q)
      then Some (0, q\<lparr>slots := (slots q)[wsq_slot q t := elem], tail := t + 1\<rparr>)
      else None)"

primrec wsq_pop_loop :: "bool list \<Rightarrow> wsq \<Rightarrow> u64 \<Rightarrow> ptr \<times> wsq" where
  "wsq_pop_loop [] q h =
     (if h = tail q then (NULL, q) else (slots q ! wsq_slot q h, q\<lparr>head := h + 1\<rparr>))"
| "wsq_pop_loop (f # fails) q h =
     (if h = tail q then (NULL, q) else wsq_pop_loop fails q (head q))"

definition wsq_pop :: "bool list \<Rightarrow> wsq \<Rightarrow> ptr \<times> wsq" where
  "wsq_pop fails q = wsq_pop_loop fails q (head q)"

definition wsq_pop_half :: "bool list \<Rightarrow> wsq \<Rightarrow> int \<Rightarrow> ptr list \<times> wsq" where
  "wsq_pop_half fails q elems_cap = wsq_grab_half fails q elems_cap"

definition wsq_steal_half :: "bool list \<Rightarrow> wsq \<Rightarrow> int \<Rightarrow> ptr list \<times> wsq" where
  "wsq_steal_half fails q elems_cap = wsq_grab_half fails q elems_cap"

section \<open>The owner and the thieves\<close>

datatype owner_pc = O_idle | O_loaded ptr u64 | O_checked ptr u64 | O_stored ptr u64

text \<open>A thief is in \<open>wsq_pop\<close> (no limit) or in \<open>_wsq_grab_half\<close> (with the limit of its array); it has loaded the
  head, or the head and the number of elements to take, of which it has read some.\<close>

datatype thief_pc = T_idle | T_head "u64 option" u64 | T_read "u64 option" u64 u64 "ptr list"

definition wsq_want :: "u64 option \<Rightarrow> u64 \<Rightarrow> u64" where
  "wsq_want lim count = (case lim of None \<Rightarrow> 1 | Some l \<Rightarrow> wsq_half count l)"

record wsq_sys =
  queue :: wsq
  opc :: owner_pc
  tpc :: "nat \<Rightarrow> thief_pc"
  pushed :: "ptr list"
  taken :: "ptr list"

inductive wsq_step :: "wsq_sys \<Rightarrow> wsq_sys \<Rightarrow> bool" where
  push_start: "opc s = O_idle \<Longrightarrow> x \<noteq> NULL \<Longrightarrow> wsq_step s (s\<lparr>opc := O_loaded x (tail (queue s))\<rparr>)"
| push_full: "opc s = O_loaded x t \<Longrightarrow> wsq_len (head (queue s)) t \<ge> ucast (wsq_cap (queue s)) \<Longrightarrow>
    wsq_step s (s\<lparr>opc := O_idle\<rparr>)"
| push_room: "opc s = O_loaded x t \<Longrightarrow> \<not> wsq_len (head (queue s)) t \<ge> ucast (wsq_cap (queue s)) \<Longrightarrow>
    wsq_step s (s\<lparr>opc := O_checked x t\<rparr>)"
| push_store: "opc s = O_checked x t \<Longrightarrow>
    wsq_step s (s\<lparr>queue := (queue s)\<lparr>slots := (slots (queue s))[wsq_slot (queue s) t := x]\<rparr>, opc := O_stored x t\<rparr>)"
| push_publish: "opc s = O_stored x t \<Longrightarrow>
    wsq_step s (s\<lparr>queue := (queue s)\<lparr>tail := t + 1\<rparr>, opc := O_idle, pushed := pushed s @ [x]\<rparr>)"
| grab_start: "tpc s i = T_idle \<Longrightarrow> lim \<noteq> Some 0 \<Longrightarrow>
    wsq_step s (s\<lparr>tpc := (tpc s)(i := T_head lim (head (queue s)))\<rparr>)"
| grab_empty: "tpc s i = T_head lim h \<Longrightarrow> wsq_len h (tail (queue s)) = 0 \<Longrightarrow>
    wsq_step s (s\<lparr>tpc := (tpc s)(i := T_idle)\<rparr>)"
| grab_count: "tpc s i = T_head lim h \<Longrightarrow> wsq_len h (tail (queue s)) \<noteq> 0 \<Longrightarrow>
    wsq_step s (s\<lparr>tpc := (tpc s)(i := T_read lim h (wsq_want lim (wsq_len h (tail (queue s)))) [])\<rparr>)"
| grab_read: "tpc s i = T_read lim h c es \<Longrightarrow> length es < unat c \<Longrightarrow>
    wsq_step s (s\<lparr>tpc := (tpc s)(i := T_read lim h c
      (es @ [slots (queue s) ! wsq_slot (queue s) (h + of_nat (length es))]))\<rparr>)"
| grab_cas: "tpc s i = T_read lim h c es \<Longrightarrow> length es = unat c \<Longrightarrow> head (queue s) = h \<Longrightarrow>
    wsq_step s (s\<lparr>queue := (queue s)\<lparr>head := h + c\<rparr>, tpc := (tpc s)(i := T_idle), taken := taken s @ es\<rparr>)"
| grab_retry: "tpc s i = T_read lim h c es \<Longrightarrow> length es = unat c \<Longrightarrow>
    wsq_step s (s\<lparr>tpc := (tpc s)(i := T_head lim (head (queue s)))\<rparr>)"

definition wsq_start :: "wsq \<Rightarrow> wsq_sys" where
  "wsq_start q = \<lparr>queue = q, opc = O_idle, tpc = (\<lambda>_. T_idle), pushed = [], taken = []\<rparr>"

section \<open>Invariant\<close>

definition wsq_shape :: "nat \<Rightarrow> wsq \<Rightarrow> bool" where
  "wsq_shape k q \<longleftrightarrow> k \<le> 31 \<and> wmask q = 2 ^ k - 1 \<and> length (slots q) = 2 ^ k \<and> unat (tail q - head q) \<le> 2 ^ k"

definition wsq_list :: "wsq \<Rightarrow> ptr list" where
  "wsq_list q = ring_list (slots q) (unat (head q)) (unat (tail q - head q))"

definition owner_inv :: "nat \<Rightarrow> wsq \<Rightarrow> owner_pc \<Rightarrow> bool" where
  "owner_inv k q pc = (case pc of O_idle \<Rightarrow> True
     | O_loaded x t \<Rightarrow> t = tail q
     | O_checked x t \<Rightarrow> t = tail q \<and> unat (tail q - head q) < 2 ^ k
     | O_stored x t \<Rightarrow> t = tail q \<and> unat (tail q - head q) < 2 ^ k \<and> slots q ! (unat t mod 2 ^ k) = x)"

text \<open>A thief's head is the value that the head had when \<open>j\<close> elements had been taken; while it is still
  current, the thief counts and reads the elements at the front of the queue.\<close>

definition thief_inv :: "wsq \<Rightarrow> nat \<Rightarrow> thief_pc \<Rightarrow> bool" where
  "thief_inv q n pc = (case pc of T_idle \<Rightarrow> True
     | T_head lim h \<Rightarrow> lim \<noteq> Some 0 \<and> (\<exists>j\<le>n. h = of_nat j)
     | T_read lim h c es \<Rightarrow> lim \<noteq> Some 0 \<and> 0 < unat c \<and> length es \<le> unat c \<and> (\<exists>j\<le>n. h = of_nat j \<and>
         (j = n \<longrightarrow> unat c \<le> length (wsq_list q) \<and> es = take (length es) (wsq_list q))))"

definition wsq_inv :: "nat \<Rightarrow> wsq_sys \<Rightarrow> bool" where
  "wsq_inv k s \<longleftrightarrow> wsq_shape k (queue s) \<and> head (queue s) = of_nat (length (taken s)) \<and>
     pushed s = taken s @ wsq_list (queue s) \<and> owner_inv k (queue s) (opc s) \<and>
     (\<forall>i. thief_inv (queue s) (length (taken s)) (tpc s i))"

section \<open>Lemmas\<close>

lemma wsq_slot_mod: "wsq_shape k q \<Longrightarrow> wsq_slot q p = unat p mod 2 ^ k"
  unfolding wsq_slot_def by (rule unat_and_ucast_mask) (auto simp: wsq_shape_def)

lemma pow_k: "wsq_shape k q \<Longrightarrow> (2 :: nat) ^ k \<le> 2 ^ 31"
  by (intro power_increasing) (auto simp: wsq_shape_def)

lemma unat_wsq_cap:
  assumes "wsq_shape k q"
  shows "unat (ucast (wsq_cap q) :: u64) = 2 ^ k"
proof -
  have "wsq_cap q = of_nat (2 ^ k)" using assms by (simp add: wsq_cap_def wsq_shape_def)
  moreover have "unat (of_nat (2 ^ k) :: u32) = 2 ^ k" using pow_k [OF assms] by (intro unat_of_nat_small) simp
  ultimately have "unat (wsq_cap q) = 2 ^ k" by (simp only:)
  then show ?thesis unfolding ucast_eq_of_nat using pow_k [OF assms] by (subst unat_of_nat_small) auto
qed

lemma wsq_full_iff: "wsq_shape k q \<Longrightarrow> wsq_len (head q) (tail q) \<ge> ucast (wsq_cap q) \<longleftrightarrow> \<not> unat (tail q - head q) < 2 ^ k"
  by (auto simp: word_le_nat_alt unat_wsq_cap wsq_len_def)

lemma length_wsq_list [simp]: "length (wsq_list q) = unat (tail q - head q)"
  by (simp add: wsq_list_def)

lemma wsq_list_nth:
  assumes "wsq_shape k q" "i < unat (tail q - head q)"
  shows "slots q ! wsq_slot q (head q + of_nat i) = wsq_list q ! i"
proof -
  have "i < 2 ^ 64" using assms(2) unat_less [of "tail q - head q"] by simp
  then have "unat (of_nat i :: u64) = i" by (intro unat_of_nat_small) simp
  then have "unat (head q + of_nat i) mod 2 ^ k = (unat (head q) + i) mod 2 ^ k"
    using unat_add_mod_pow [of k "head q" "of_nat i"] assms(1) by (simp add: wsq_shape_def)
  moreover have "length (slots q) = 2 ^ k" using assms(1) by (simp add: wsq_shape_def)
  ultimately show ?thesis using assms(2) by (simp add: wsq_slot_mod [OF assms(1)] wsq_list_def nth_ring_list)
qed

lemma wsq_take:
  assumes "wsq_shape k q" "unat c \<le> unat (tail q - head q)"
  shows "wsq_shape k (q\<lparr>head := head q + c\<rparr>)" "wsq_list (q\<lparr>head := head q + c\<rparr>) = drop (unat c) (wsq_list q)"
    "unat (tail q - (head q + c)) \<le> unat (tail q - head q)"
proof -
  have len: "length (slots q) = 2 ^ k" "k \<le> 64" using assms(1) by (auto simp: wsq_shape_def)
  have adv: "unat (tail q - (head q + c)) = unat (tail q - head q) - unat c" "wsq_list (q\<lparr>head := head q + c\<rparr>) = drop (unat c) (wsq_list q)"
    using ring_advance [of k "slots q" "unat c" "tail q" "head q"] assms(2) len by (simp_all add: wsq_list_def)
  then show "wsq_shape k (q\<lparr>head := head q + c\<rparr>)" "wsq_list (q\<lparr>head := head q + c\<rparr>) = drop (unat c) (wsq_list q)"
    "unat (tail q - (head q + c)) \<le> unat (tail q - head q)" using assms(1) by (auto simp: wsq_shape_def)
qed

lemma wsq_store:
  assumes "wsq_shape k q" "unat (tail q - head q) < 2 ^ k"
  shows "wsq_shape k (q\<lparr>slots := (slots q)[unat (tail q) mod 2 ^ k := x]\<rparr>)"
    "wsq_list (q\<lparr>slots := (slots q)[unat (tail q) mod 2 ^ k := x]\<rparr>) = wsq_list q"
    "(slots q)[unat (tail q) mod 2 ^ k := x] ! (unat (tail q) mod 2 ^ k) = x"
  using assms ring_store [of k "slots q" "tail q" "head q" x] by (auto simp: wsq_shape_def wsq_list_def)

lemma wsq_publish:
  assumes "wsq_shape k q" "unat (tail q - head q) < 2 ^ k" "slots q ! (unat (tail q) mod 2 ^ k) = x"
  shows "wsq_shape k (q\<lparr>tail := tail q + 1\<rparr>)" "wsq_list (q\<lparr>tail := tail q + 1\<rparr>) = wsq_list q @ [x]"
  using ring_publish [of k "slots q" "tail q" "head q" x] assms pow_k [OF assms(1)]
  by (auto simp: wsq_shape_def wsq_list_def)

lemma wsq_want_le:
  assumes "lim \<noteq> Some 0" "n \<noteq> 0" "unat n < 2 ^ 63"
  shows "0 < unat (wsq_want lim n)" "unat (wsq_want lim n) \<le> unat n"
proof -
  have n: "0 < unat n" using assms(2) by (simp add: unat_gt_0)
  define m where "m = (n + 1) div 2"
  have "unat m = (unat n + 1) div 2" using assms(3) by (simp add: m_def unat_div unat_word_ariths)
  then have m: "0 < unat m" "unat m \<le> unat n" using n by auto
  have "0 < unat l" if "lim = Some l" for l using that assms(1) by (auto simp: unat_gt_0)
  then show "0 < unat (wsq_want lim n)" "unat (wsq_want lim n) \<le> unat n"
    using n m by (auto simp: wsq_want_def wsq_half_def Let_def word_less_nat_alt m_def [symmetric] split: option.splits)
qed

subsection \<open>Every step keeps the invariant\<close>

lemma thief_inv_queue:
  assumes "thief_inv q n pc" "\<And>m. m \<le> length (wsq_list q) \<Longrightarrow> m \<le> length (wsq_list q') \<and> take m (wsq_list q') = take m (wsq_list q)"
  shows "thief_inv q' n pc"
  using assms by (cases pc) (auto simp: thief_inv_def)

lemma thief_inv_later:
  assumes "thief_inv q n pc" "n < n'"
  shows "thief_inv q' n' pc"
proof (cases pc)
  case (T_head lim h)
  then obtain j where "lim \<noteq> Some 0" "j \<le> n" "h = of_nat j" using assms(1) by (auto simp: thief_inv_def)
  then show ?thesis using T_head assms(2) by (auto simp: thief_inv_def intro!: exI [of _ j])
next
  case (T_read lim h c es)
  then obtain j where "lim \<noteq> Some 0" "0 < unat c" "length es \<le> unat c" "j \<le> n" "h = of_nat j"
    using assms(1) by (auto simp: thief_inv_def)
  then show ?thesis using T_read assms(2) by (auto simp: thief_inv_def intro!: exI [of _ j])
qed (simp add: thief_inv_def)

lemma thief_inv_fresh: "lim \<noteq> Some 0 \<Longrightarrow> thief_inv q n (T_head lim (of_nat n))"
  by (auto simp: thief_inv_def)

lemma owner_inv_take: "owner_inv k q pc \<Longrightarrow> unat (tail q - h) \<le> unat (tail q - head q) \<Longrightarrow> owner_inv k (q\<lparr>head := h\<rparr>) pc"
  by (cases pc) (auto simp: owner_inv_def)

lemma wsq_invI:
  assumes "wsq_inv k s" "wsq_shape k q" "head q = head (queue s)" "pd = taken s @ wsq_list q" "owner_inv k q pc"
    "\<And>m. m \<le> length (wsq_list (queue s)) \<Longrightarrow> m \<le> length (wsq_list q) \<and> take m (wsq_list q) = take m (wsq_list (queue s))"
  shows "wsq_inv k (s\<lparr>queue := q, opc := pc, pushed := pd\<rparr>)"
  using assms thief_inv_queue [OF _ assms(6)] by (auto simp: wsq_inv_def)

lemma wsq_inv_thief:
  assumes "wsq_inv k s" "thief_inv (queue s) (length (taken s)) pc"
  shows "wsq_inv k (s\<lparr>tpc := (tpc s)(i := pc)\<rparr>)"
  using assms by (simp add: wsq_inv_def)

lemma tail_pos:
  assumes "wsq_inv k s" "j \<le> length (taken s)" "length (pushed s) < 2 ^ 63"
  shows "unat (tail (queue s) - of_nat j) = length (pushed s) - j"
proof -
  let ?q = "queue s"
  have "tail ?q = head ?q + (tail ?q - head ?q)" by simp
  also have "\<dots> = of_nat (length (taken s)) + of_nat (unat (tail ?q - head ?q))" using assms(1) by (simp add: wsq_inv_def)
  also have "\<dots> = of_nat (length (pushed s))" using assms(1) by (simp add: wsq_inv_def)
  finally have "tail ?q - of_nat j = of_nat (length (pushed s) - j)"
    using assms(1,2) by (simp add: of_nat_diff wsq_inv_def)
  moreover have "unat (of_nat (length (pushed s) - j) :: u64) = length (pushed s) - j"
    using assms(3) by (intro unat_of_nat_small) simp
  ultimately show ?thesis by (simp only:)
qed

lemma grab_count_inv:
  assumes "wsq_inv k s" "tpc s i = T_head lim h" "wsq_len h (tail (queue s)) \<noteq> 0" "length (pushed s) < 2 ^ 63"
  shows "thief_inv (queue s) (length (taken s)) (T_read lim h (wsq_want lim (wsq_len h (tail (queue s)))) [])"
proof -
  have "thief_inv (queue s) (length (taken s)) (T_head lim h)" using assms(1,2) by (metis wsq_inv_def)
  then obtain j where j: "lim \<noteq> Some 0" "j \<le> length (taken s)" "h = of_nat j" by (auto simp: thief_inv_def)
  have u: "unat (wsq_len h (tail (queue s))) = length (pushed s) - j"
    unfolding wsq_len_def j(3) by (rule tail_pos [OF assms(1) j(2) assms(4)])
  then have "unat (wsq_len h (tail (queue s))) < 2 ^ 63" using assms(4) by simp
  from wsq_want_le [OF j(1) assms(3) this] u j show ?thesis
    using assms(1) by (auto simp: thief_inv_def wsq_inv_def intro!: exI [of _ j])
qed

lemma grab_read_inv:
  assumes "wsq_inv k s" "tpc s i = T_read lim h c es" "length es < unat c"
  shows "thief_inv (queue s) (length (taken s)) (T_read lim h c (es @ [slots (queue s) ! wsq_slot (queue s) (h + of_nat (length es))]))"
proof -
  let ?q = "queue s"
  have "thief_inv ?q (length (taken s)) (T_read lim h c es)" using assms(1,2) by (metis wsq_inv_def)
  then obtain j where j: "lim \<noteq> Some 0" "j \<le> length (taken s)" "h = of_nat j"
    "j = length (taken s) \<Longrightarrow> unat c \<le> length (wsq_list ?q) \<and> es = take (length es) (wsq_list ?q)" by (auto simp: thief_inv_def)
  have sh: "wsq_shape k ?q" "head ?q = of_nat (length (taken s))" using assms(1) by (auto simp: wsq_inv_def)
  have "es @ [slots ?q ! wsq_slot ?q (h + of_nat (length es))] = take (Suc (length es)) (wsq_list ?q)" if "j = length (taken s)"
  proof -
    have "slots ?q ! wsq_slot ?q (h + of_nat (length es)) = wsq_list ?q ! length es"
      using wsq_list_nth [OF sh(1), of "length es"] j(3,4) that sh(2) assms(3) by simp
    then show ?thesis using j(4) [OF that] assms(3) by (simp add: take_Suc_conv_app_nth)
  qed
  then show ?thesis using j assms(3) by (auto simp: thief_inv_def intro!: exI [of _ j])
qed

lemma grab_cas_inv:
  assumes "wsq_inv k s" "tpc s i = T_read lim h c es" "length es = unat c" "head (queue s) = h" "length (pushed s) < 2 ^ 63"
  shows "wsq_inv k (s\<lparr>queue := (queue s)\<lparr>head := h + c\<rparr>, tpc := (tpc s)(i := T_idle), taken := taken s @ es\<rparr>)"
proof -
  let ?q = "queue s" and ?n = "length (taken s)"
  have inv: "wsq_shape k ?q" "head ?q = of_nat ?n" "pushed s = taken s @ wsq_list ?q" "owner_inv k ?q (opc s)"
    "\<And>i. thief_inv ?q ?n (tpc s i)" using assms(1) by (auto simp: wsq_inv_def)
  obtain j where j: "0 < unat c" "j \<le> ?n" "h = of_nat j"
    "j = ?n \<Longrightarrow> unat c \<le> length (wsq_list ?q) \<and> es = take (length es) (wsq_list ?q)"
    using inv(5) [of i] assms(2) by (auto simp: thief_inv_def)
  have "?n < 2 ^ 64" using assms(5) inv(3) by simp
  then have "unat (of_nat ?n :: u64) = ?n" "unat (of_nat j :: u64) = j" using j(2) by (simp_all add: unat_of_nat_small)
  then have "j = ?n" using inv(2) assms(4) j(3) by metis
  then have c: "unat c \<le> unat (tail ?q - head ?q)" "es = take (unat c) (wsq_list ?q)" using j(4) assms(3) by simp_all
  note t = wsq_take [OF inv(1) c(1)]
  have "pushed s = (taken s @ es) @ wsq_list (?q\<lparr>head := head ?q + c\<rparr>)" using inv(3) c(2) t(2) by simp
  moreover have "head ?q + c = of_nat (length (taken s @ es))" using inv(2) assms(3) by simp
  moreover have "thief_inv (?q\<lparr>head := head ?q + c\<rparr>) (length (taken s @ es)) (tpc s i')" for i'
    using thief_inv_later [OF inv(5)] j(1) assms(3) by simp
  ultimately show ?thesis
    using t(1) owner_inv_take [OF inv(4) t(3)] assms(4) by (simp add: wsq_inv_def) (simp add: thief_inv_def)
qed

lemma wsq_step_inv:
  assumes "wsq_step s s'" "wsq_inv k s" "length (pushed s) < 2 ^ 63"
  shows "wsq_inv k s'"
proof -
  let ?q = "queue s"
  have sh: "wsq_shape k ?q" "head ?q = of_nat (length (taken s))" "pushed s = taken s @ wsq_list ?q" and o: "owner_inv k ?q (opc s)"
    using assms(2) by (auto simp: wsq_inv_def)
  have ths: "thief_inv ?q (length (taken s)) (tpc s i)" for i using assms(2) by (simp add: wsq_inv_def)
  show ?thesis using assms(1)
  proof cases
    case (push_start x)
    then show ?thesis using assms(2) by (simp add: wsq_inv_def owner_inv_def)
  next
    case (push_full x t)
    then show ?thesis using assms(2) by (simp add: wsq_inv_def owner_inv_def)
  next
    case (push_room x t)
    then show ?thesis using assms(2) o wsq_full_iff [OF sh(1)] by (simp add: wsq_inv_def owner_inv_def)
  next
    case (push_store x t)
    then have t: "t = tail ?q" "unat (tail ?q - head ?q) < 2 ^ k" using o by (auto simp: owner_inv_def)
    note w = wsq_store [OF sh(1) t(2), of x]
    have "wsq_inv k (s\<lparr>queue := ?q\<lparr>slots := (slots ?q)[unat (tail ?q) mod 2 ^ k := x]\<rparr>, opc := O_stored x t, pushed := pushed s\<rparr>)"
      using w sh(3) t by (intro wsq_invI [OF assms(2)]) (simp_all add: owner_inv_def)
    then show ?thesis using push_store t(1) wsq_slot_mod [OF sh(1)] by simp
  next
    case (push_publish x t)
    then have t: "t = tail ?q" "unat (tail ?q - head ?q) < 2 ^ k" "slots ?q ! (unat (tail ?q) mod 2 ^ k) = x"
      using o by (auto simp: owner_inv_def)
    note w = wsq_publish [OF sh(1) t(2,3)]
    have "m \<le> length (wsq_list (?q\<lparr>tail := tail ?q + 1\<rparr>)) \<and> take m (wsq_list (?q\<lparr>tail := tail ?q + 1\<rparr>)) = take m (wsq_list ?q)"
      if "m \<le> length (wsq_list ?q)" for m using that unfolding w(2) by simp
    from wsq_invI [OF assms(2) w(1) _ _ _ this, of "pushed s @ [x]" O_idle] show ?thesis
      using push_publish t(1) sh(3) w(2) by (simp add: owner_inv_def)
  next
    case (grab_start i lim)
    then show ?thesis using wsq_inv_thief [OF assms(2) thief_inv_fresh] sh(2) by simp
  next
    case (grab_empty i lim h)
    then show ?thesis using wsq_inv_thief [OF assms(2), of T_idle] by (simp add: thief_inv_def)
  next
    case (grab_count i lim h)
    then show ?thesis using wsq_inv_thief [OF assms(2) grab_count_inv [OF assms(2) grab_count(2,3) assms(3)]] by simp
  next
    case (grab_read i lim h c es)
    then show ?thesis using wsq_inv_thief [OF assms(2) grab_read_inv [OF assms(2) grab_read(2,3)]] by simp
  next
    case (grab_cas i lim h c es)
    then show ?thesis using grab_cas_inv [OF assms(2) grab_cas(2-4) assms(3)] by simp
  next
    case (grab_retry i lim h c es)
    then have "lim \<noteq> Some 0" using ths [of i] by (simp add: thief_inv_def)
    then show ?thesis using grab_retry wsq_inv_thief [OF assms(2) thief_inv_fresh] sh(2) by simp
  qed
qed

lemma wsq_step_pushed: "wsq_step s s' \<Longrightarrow> length (pushed s) \<le> length (pushed s')"
  by (cases rule: wsq_step.cases) auto

subsection \<open>A new queue\<close>

lemma wsq_create_ok:
  assumes "wsq_create True True cap = Some q"
  shows "\<exists>k. unat cap = 2 ^ k \<and> wsq_shape k q \<and> wsq_list q = [] \<and> head q = 0"
proof -
  have c: "0 < sint cap" "cap AND (cap - 1) = 0"
    and q: "q = \<lparr>head = 0, tail = 0, slots = replicate (unat cap) NULL, wmask = cap - 1\<rparr>"
    using assms by (auto simp: wsq_create_def split: if_splits)
  obtain k where k: "k < 32" "cap = 2 ^ k" using and_minus_1_pow2 [OF _ c(2)] c(1) by (cases "cap = 0") auto
  have "(2 :: nat) ^ k < 2 ^ 32" using k(1) by (intro power_strict_increasing) auto
  then have "unat (of_nat (2 ^ k) :: u32) = 2 ^ k" by (intro unat_of_nat_small) simp
  then have u: "unat cap = 2 ^ k" by (simp add: k(2))
  then show ?thesis using k by (intro exI [of _ k]) (simp add: wsq_shape_def wsq_list_def q)
qed

text \<open>C5. Work stealing: one owner pushes while any number of threads pop and steal, in any interleaving of their
  accesses, also with lost and spuriously failing compare-and-exchange. What the threads have taken,
  in the order in which their exchanges succeeded, followed by what is queued, is what the owner pushed: no
  element is lost, duplicated or reordered, and at most \<open>cap\<close> are queued. (For fewer than \<open>2 ^ 63\<close> pushes, after which
  the head counter might repeat a value that a thief still holds.)\<close>

theorem wsq_concurrent:
  assumes "wsq_create True True cap = Some q" "wsq_step\<^sup>*\<^sup>* (wsq_start q) s" "length (pushed s) < 2 ^ 63"
  shows "\<exists>queued. pushed s = taken s @ queued \<and> length queued \<le> unat cap"
proof -
  obtain k where k: "unat cap = 2 ^ k" "wsq_shape k q" "wsq_list q = []" "head q = 0" using wsq_create_ok [OF assms(1)] by blast
  have "wsq_inv k s" using assms(2,3)
  proof (induction rule: rtranclp_induct)
    case base
    then show ?case using k(2-4) by (simp add: wsq_inv_def wsq_start_def owner_inv_def thief_inv_def)
  next
    case (step y z)
    then show ?case using wsq_step_inv wsq_step_pushed by (meson le_less_trans)
  qed
  then show ?thesis using k(1) by (auto simp: wsq_inv_def wsq_shape_def)
qed

theorem wsq_concurrent_witness:
  "\<exists>q s queued. wsq_create True True 2 = Some q \<and> wsq_step\<^sup>*\<^sup>* (wsq_start q) s \<and> pushed s = [5] \<and>
     pushed s = taken s @ queued \<and> length queued \<le> 2"
proof -
  define q where "q = \<lparr>head = 0, tail = 0, slots = replicate 2 NULL, wmask = 1\<rparr>"
  have create: "wsq_create True True 2 = Some q" by (simp add: wsq_create_def q_def)
  define s1 where "s1 = (wsq_start q)\<lparr>opc := O_loaded 5 0\<rparr>"
  define s2 where "s2 = s1\<lparr>opc := O_checked 5 0\<rparr>"
  define s3 where "s3 = s2\<lparr>queue := q\<lparr>slots := [5, NULL]\<rparr>, opc := O_stored 5 0\<rparr>"
  define s4 where "s4 = s3\<lparr>queue := (queue s3)\<lparr>tail := 1\<rparr>, opc := O_idle, pushed := [5]\<rparr>"
  have "wsq_step (wsq_start q) s1" using push_start [of "wsq_start q" 5] by (simp add: s1_def wsq_start_def q_def)
  moreover have "wsq_step s1 s2"
    using push_room [of s1 5 0] by (simp add: s2_def s1_def wsq_start_def q_def wsq_len_def wsq_cap_def)
  moreover have "wsq_step s2 s3"
    using push_store [of s2 5 0] by (simp add: s3_def s2_def s1_def wsq_start_def q_def wsq_slot_def numeral_2_eq_2)
  moreover have "wsq_step s3 s4"
    using push_publish [of s3 5 0] by (simp add: s4_def s3_def s2_def s1_def wsq_start_def)
  ultimately have run: "wsq_step\<^sup>*\<^sup>* (wsq_start q) s4" by (meson converse_rtranclp_into_rtranclp rtranclp.rtrancl_refl)
  from wsq_concurrent [OF create run] create run show ?thesis by (auto simp: s4_def)
qed

subsection \<open>One call at a time\<close>

lemma wsq_grab_loop_fails: "wsq_grab_loop fails q (head q) limit = wsq_grab_loop [] q (head q) limit"
  by (induction fails) (auto simp: Let_def)

lemma wsq_pop_loop_fails: "wsq_pop_loop fails q (head q) = wsq_pop_loop [] q (head q)"
  by (induction fails) auto

text \<open>C9. Stealing takes the oldest half: on a queue that nobody else works on, \<open>wsq_steal_half\<close> returns the first
  elements, half of them rounded up and no more than fit in the array, and leaves the rest in their order,
  however often the weak compare-and-exchange fails spuriously.\<close>

theorem wsq_steal_half_takes:
  assumes "wsq_shape k q" "0 < elems_cap" "elems_cap < 2 ^ 31" "wsq_steal_half fails q elems_cap = (es, q')"
  shows "wsq_shape k q' \<and> length es = min ((length (wsq_list q) + 1) div 2) (nat elems_cap) \<and> wsq_list q = es @ wsq_list q'"
proof -
  let ?n = "unat (tail q - head q)" and ?l = "of_int elems_cap :: u64"
  have l: "unat ?l = nat elems_cap"
  proof -
    have "?l = of_nat (nat elems_cap)" using assms(2) by simp
    moreover have "nat elems_cap < 2 ^ 64" using assms(3) by simp
    ultimately show ?thesis by (simp only:) (simp add: unat_of_nat_small)
  qed
  have grab: "wsq_grab_loop [] q (head q) ?l = (es, q')"
    using assms(2,4) wsq_grab_loop_fails [of fails q ?l] by (simp add: wsq_steal_half_def wsq_grab_half_def)
  show ?thesis
  proof (cases "tail q = head q")
    case True
    then have "es = []" "q' = q" using grab by (simp_all add: wsq_len_def)
    then show ?thesis using True assms(1) by (simp add: wsq_list_def)
  next
    case False
    define c where "c = wsq_half (tail q - head q) ?l"
    have n: "0 < ?n" "?n < 2 ^ 63" using False assms(1) pow_k [OF assms(1)] by (auto simp: unat_gt_0 wsq_shape_def)
    have "unat ((tail q - head q + 1) div 2) = (?n + 1) div 2" using n by (simp add: unat_div unat_word_ariths(1))
    then have c: "unat c = min ((?n + 1) div 2) (nat elems_cap)"
      by (auto simp: c_def wsq_half_def Let_def word_less_nat_alt l min_def)
    then have cn: "unat c \<le> ?n" using n by auto
    have es: "es = map (\<lambda>i. slots q ! wsq_slot q (head q + of_nat i)) [0..<unat c]" "q' = q\<lparr>head := head q + c\<rparr>"
      using grab False by (simp_all add: wsq_len_def c_def Let_def)
    then have "es = take (unat c) (wsq_list q)"
      using wsq_list_nth [OF assms(1)] cn by (intro nth_equalityI) auto
    then show ?thesis using wsq_take [OF assms(1) cn] c cn es(2) by simp
  qed
qed

theorem wsq_steal_half_takes_witness:
  "\<exists>es q'. wsq_steal_half [True, False] \<lparr>head = 0, tail = 3, slots = [5, 6, 7, NULL], wmask = 3\<rparr> 8 = (es, q') \<and> length es = 2"
proof -
  let ?q = "\<lparr>head = 0, tail = 3, slots = [5, 6, 7, NULL], wmask = 3\<rparr> :: wsq"
  obtain es q' where r: "wsq_steal_half [True, False] ?q 8 = (es, q')" by fastforce
  have "wsq_shape 2 ?q" by (simp add: wsq_shape_def)
  from wsq_steal_half_takes [OF this _ _ r] r show ?thesis by simp
qed

end
