(* ===== verification/Spec2Isabelle.thy ===== *)
theory Spec2Isabelle
  imports Fifo_Queue Lifo_Stack Xylem_Heap Varint Url_Codec Base64 Sha Aes_Modes Bswap Ws_Frame Ws_Utf8 Mux_Session Ringbuf Spsc Wsq
begin

text \<open>
  Verification of Xylem, a C library of coroutines, containers, codecs, cryptography and network protocols.

  \<^bold>\<open>The program.\<close> The containers (\<open>src/container\<close>) come in two layers: intrusive ones, whose nodes are embedded in the
  client's structures, and owning wrappers \<open>xylem_*\<close> that allocate a node for each element. The runtime uses them: the
  timers of the scheduler are a heap, each worker has a work-stealing queue (\<open>src/runtime/wsq.c\<close>), and single-producer
  rings carry pointers between threads. The codecs (\<open>src/encoding\<close>) and the cryptography (\<open>src/crypto\<close>) are pure
  functions over buffers. The network layer has protocols over byte transports; modelled are the multiplexer
  (\<open>src/net/mux\<close>), which carries streams with flow control over one transport, and the wire format of WebSocket
  (\<open>src/net/ws\<close>).

  \<^bold>\<open>How C is modelled.\<close> \<open>Prelude\<close> fixes the machine types (\<open>u8\<close> to \<open>u64\<close> are words, arithmetic wraps as in C; \<open>int\<close> is
  used for signed values, with the overflow written out where it can happen), pointers (64-bit words, \<open>NULL\<close> is 0) and
  the store, a map from addresses to structures. An access through a pointer that is not allocated, a write past the
  end of a block, a double free and a failed assertion are \<open>None\<close>, so every theorem that a function returns \<open>Some\<close>
  states memory safety as well. The address that an allocation returns is an argument, \<open>NULL\<close> when it fails. An
  intrusive node is an extensible record, so a wrapper's node type extends it as the C structure does. Loops whose end is
  not evident from the code are \<open>partial_function (option)\<close>: for them the theorems prove that they return. No
  definition uses fuel. A lock that protects a section makes the section one step.

  \<^bold>\<open>Theories and sources.\<close>

  \<^item> \<open>Prelude\<close>, \<open>Word_Bits\<close>, \<open>Ring\<close>: the store, blocks of memory, words as bits and bytes, rings with free-running
    positions and a mask. \<open>Contracts\<close>: the interfaces as locales, \<open>sequence\<close> (put and take over a representation of a
    list), \<open>bounded_sequence\<close> (the same with a limit) and \<open>priority_queue\<close>, with what their clients may conclude for
    whole runs. They are interpreted on the models: \<open>queue_fifo\<close>, \<open>lifo_seq\<close>, \<open>spsc_seq\<close>, \<open>heap_pq\<close>. \<open>Base64\<close> has a
    locale of its own for the two alphabets.
  \<^item> \<open>Linked_List\<close> (\<open>container/list.c\<close>), \<open>Fifo_Queue\<close> (\<open>queue.c\<close>, \<open>xylem-queue.c\<close>), \<open>Lifo_Stack\<close> (\<open>lifo.c\<close>,
    \<open>xylem-stack.c\<close>): each operation implements its list operation (representation lemmas), runs of operations refine
    the abstract sequence, swapping exchanges contents, destroying frees each node once.
  \<^item> \<open>Binary_Heap\<close> (\<open>heap.c\<close>) and \<open>Xylem_Heap\<close> (\<open>xylem-heap.c\<close>): the pointer tree represents a complete tree, given as
    the list of its nodes in level order; swapping two nodes, sifting up and down and removing any node keep the
    representation and the heap order, and a heap returns its elements sorted.
  \<^item> \<open>Ringbuf\<close> (\<open>xylem-ringbuf.c\<close>), \<open>Spsc\<close> (\<open>spsc.c\<close>), \<open>Wsq\<close> (\<open>runtime/wsq.c\<close>): the sequential functions, and for the
    last two the concurrent system as an inductive step relation with a step for every access to shared memory.
    Ghost lists record what was pushed and taken; the invariant is proved by rule induction over every
    interleaving. For \<open>wsq\<close> the bound of \<open>2 ^ 63\<close> pushes excludes a 64-bit head that repeats while a thief sleeps.
  \<^item> \<open>Varint\<close>, \<open>Url_Codec\<close>, \<open>Base64\<close>, \<open>Bswap\<close> (\<open>encoding/xylem-*.c\<close>): round trips, exact acceptance, sizes.
  \<^item> \<open>Block_Hash\<close>, \<open>Sha\<close> (\<open>crypto/xylem-sha256.c\<close>, \<open>xylem-sha1.c\<close>, \<open>xylem-hmac256.c\<close>): the buffered update and final
    functions, shared by both hashes, equal the hash of the padded message as a whole.
  \<^item> \<open>Aes\<close>, \<open>Aes_Modes\<close> (\<open>crypto/aes256\<close>, the bundled tiny-AES-c included): the inverse cipher undoes the cipher for every
    key schedule; CBC and CTR round trips, padding checks, the counter as a 128-bit number.
  \<^item> \<open>Ws_Frame\<close>, \<open>Ws_Utf8\<close> (\<open>net/ws/ws-frame.c\<close>, \<open>ws-utf8.c\<close>): headers, masks and close payloads; the validator
    accepts exactly the UTF-8 encodings.
  \<^item> \<open>Mux_Stream\<close>, \<open>Mux_Session\<close> (\<open>net/mux\<close>): frames, streams with their windows and waiters, and the session with every
    handler of \<open>xylem-mux.c\<close>. The transport is a parameter (read, write and close functions over a state of any type) as
    it is in the C interface. The lemmas show flow control, absence of lost wake-ups, termination of the reader on
    finite input, and that writes stay within the credit.

  \<^bold>\<open>Atomics.\<close> The C11 atomics of \<open>spsc.c\<close> and \<open>wsq.c\<close> are the default, sequentially consistent ones in the source or are
  taken as such; weaker orders are outside the model.

  \<^bold>\<open>Not modelled.\<close> The scheduler and the synchronisation primitives that park coroutines through it (context switches
  in assembly, threads, the poller); memory arenas and the platform layer (system calls); sockets, TLS, reliable UDP, HTTP
  and the WebSocket connection loop (I/O around code that is third-party or generated: OpenSSL, kcp, llhttp);
  JSON, gzip and error correction (wrappers of yyjson, miniz and a Reed-Solomon library); logger, timers, serial ports,
  thread pool (I/O and threads).
\<close>

end
